(* ===== verification/Kernel_Prelude.thy ===== *)
theory Kernel_Prelude
  imports Main "HOL-Library.Word"
begin

unbundle bit_operations_syntax

text \<open>
  The shared base of the development: the C integer types as machine words, the ways a
  kernel routine can go wrong as a datatype, the sequencing operator of fallible
  routines, bounds-checked array access, a generic interface of state machines with an
  invariant, and the word lemmas used by several components.

  The C types: \<open>u8\<close>, \<open>u16\<close>, \<open>u32\<close> and \<open>u64\<close> are words of that width; a C \<open>int\<close> that the
  code mixes with \<open>u32\<close> is a \<open>s32\<close>, the same 32 bits (\<open>sint\<close> reads it as signed,
  \<open>unat\<close> as the unsigned comparison does). The host is little endian, as the x86
  machines the driver is built for, so \<open>cpu_to_le32\<close> and \<open>le32_to_cpu\<close> are the identity
  and are left out.
\<close>

type_synonym u8 = "8 word"
type_synonym u16 = "16 word"
type_synonym u32 = "32 word"
type_synonym u64 = "64 word"
type_synonym s32 = "32 word"

named_theorems reg_simps "register offsets and control words as numerals"
named_theorems frame_simps "what an operation leaves unchanged"

subsection \<open>Faults and fallible routines\<close>

text \<open>
  \<open>BugOn\<close> is a \<open>BUG_ON\<close> whose condition holds, \<open>NullDeref\<close> and \<open>UseAfterFree\<close> a read
  through a null or a dangling pointer, \<open>OutOfBounds\<close> an array access outside the array,
  \<open>Deadlock\<close> a spin lock taken twice, and \<open>NoReturn\<close> a loop that has not stopped within
  the given number of rounds. A negative errno is no fault: it is an ordinary result.
\<close>

datatype fault = BugOn | NullDeref | UseAfterFree | OutOfBounds | Deadlock | NoReturn

type_synonym 'a run = "fault + 'a"

definition bindr :: "'a run \<Rightarrow> ('a \<Rightarrow> 'b run) \<Rightarrow> 'b run" where
  "bindr r f = (case r of Inl e \<Rightarrow> Inl e | Inr a \<Rightarrow> f a)"

lemma bindr_Inl [simp]: "bindr (Inl e) f = Inl e"
  by (simp add: bindr_def)

lemma bindr_Inr [simp]: "bindr (Inr a) f = f a"
  by (simp add: bindr_def)

lemma bindr_eq_Inr: "bindr r f = Inr b \<longleftrightarrow> (\<exists>a. r = Inr a \<and> f a = Inr b)"
  by (cases r) simp_all

lemma bindr_eq_Inl: "bindr r f = Inl e \<longleftrightarrow> r = Inl e \<or> (\<exists>a. r = Inr a \<and> f a = Inl e)"
  by (cases r) simp_all

lemma bindr_assoc: "bindr (bindr r f) g = bindr r (\<lambda>a. bindr (f a) g)"
  by (cases r) simp_all

lemma bindr_cong [fundef_cong]:
  "r = r' \<Longrightarrow> (\<And>a. r' = Inr a \<Longrightarrow> f a = f' a) \<Longrightarrow> bindr r f = bindr r' f'"
  by (cases r') simp_all

definition bug_on :: "bool \<Rightarrow> unit run" where
  "bug_on c = (if c then Inl BugOn else Inr ())"

lemma bug_on_simps [simp]: "bug_on True = Inl BugOn" "bug_on False = Inr ()"
  by (simp_all add: bug_on_def)

lemma bug_on_Inr [simp]: "bug_on c = Inr u \<longleftrightarrow> \<not> c"
  by (simp add: bug_on_def)

lemma bug_on_Inl [simp]: "bug_on c = Inl e \<longleftrightarrow> c \<and> e = BugOn"
  by (auto simp: bug_on_def)

subsection \<open>Arrays with the bounds the C code has to respect\<close>

definition array_get :: "'a list \<Rightarrow> nat \<Rightarrow> 'a run" where
  "array_get xs i = (if i < length xs then Inr (xs ! i) else Inl OutOfBounds)"

definition array_upd :: "nat \<Rightarrow> ('a \<Rightarrow> 'a) \<Rightarrow> 'a list \<Rightarrow> 'a list run" where
  "array_upd i f xs = (if i < length xs then Inr (xs[i := f (xs ! i)]) else Inl OutOfBounds)"

lemma array_get_in [simp]: "i < length xs \<Longrightarrow> array_get xs i = Inr (xs ! i)"
  by (simp add: array_get_def)

lemma array_upd_in [simp]: "i < length xs \<Longrightarrow> array_upd i f xs = Inr (xs[i := f (xs ! i)])"
  by (simp add: array_upd_def)

lemma array_upd_length: "array_upd i f xs = Inr ys \<Longrightarrow> length ys = length xs"
  by (auto simp: array_upd_def split: if_splits)

subsection \<open>Counted loops\<close>

text \<open>
  \<open>for_loop k i f s\<close> is the C loop that runs its body \<open>f\<close> for \<open>i\<close>, \<open>i + 1\<close>, ... \<open>k\<close> times
  on the state \<open>s\<close>, and stops at the first fault. \<open>array_mod\<close> is a read-modify-write of
  one array element.
\<close>

fun for_loop :: "nat \<Rightarrow> nat \<Rightarrow> (nat \<Rightarrow> 's \<Rightarrow> 's run) \<Rightarrow> 's \<Rightarrow> 's run" where
  "for_loop 0 i f s = Inr s"
| "for_loop (Suc k) i f s = bindr (f i s) (for_loop k (Suc i) f)"

definition array_mod :: "nat \<Rightarrow> ('a \<Rightarrow> 'a run) \<Rightarrow> 'a list \<Rightarrow> 'a list run" where
  "array_mod i f xs = bindr (array_get xs i) (\<lambda>x. bindr (f x) (\<lambda>y. Inr (xs[i := y])))"

lemma array_mod_in [simp]:
  "i < length xs \<Longrightarrow> array_mod i f xs = bindr (f (xs ! i)) (\<lambda>y. Inr (xs[i := y]))"
  by (simp add: array_mod_def)

lemma array_mod_length: "array_mod i f xs = Inr ys \<Longrightarrow> length ys = length xs"
  by (auto simp: array_mod_def bindr_eq_Inr)

lemma for_loop_inv:
  assumes "for_loop k i f s = Inr t" "P i s"
    "\<And>j u v. i \<le> j \<Longrightarrow> j < i + k \<Longrightarrow> P j u \<Longrightarrow> f j u = Inr v \<Longrightarrow> P (Suc j) v"
  shows "P (i + k) t"
  using assms
proof (induction k arbitrary: i s)
  case (Suc k)
  from Suc.prems(1) obtain u where u: "f i s = Inr u" "for_loop k (Suc i) f u = Inr t"
    by (auto simp: bindr_eq_Inr)
  have "P (Suc i) u" by (rule Suc.prems(3) [OF _ _ Suc.prems(2) u(1)]) simp_all
  then have "P (Suc i + k) t"
    by (rule Suc.IH [OF u(2) _ Suc.prems(3)]) simp_all
  then show ?case by simp
qed simp

lemma for_loop_total:
  assumes "P i s"
    "\<And>j u. i \<le> j \<Longrightarrow> j < i + k \<Longrightarrow> P j u \<Longrightarrow> \<exists>v. f j u = Inr v \<and> P (Suc j) v"
  shows "\<exists>t. for_loop k i f s = Inr t \<and> P (i + k) t"
  using assms
proof (induction k arbitrary: i s)
  case (Suc k)
  from Suc.prems(2) [OF _ _ Suc.prems(1)] obtain u where u: "f i s = Inr u" "P (Suc i) u" by auto
  have "\<exists>t. for_loop k (Suc i) f u = Inr t \<and> P (Suc i + k) t"
    by (rule Suc.IH [OF u(2)]) (rule Suc.prems(2); simp)
  then show ?case by (simp add: u)
qed simp

lemma for_loop_array:
  assumes "i + k \<le> length xs"
    and "\<And>j. i \<le> j \<Longrightarrow> j < i + k \<Longrightarrow> g j (xs ! j) = Inr (h j (xs ! j))"
  shows "for_loop k i (\<lambda>j. array_mod j (g j)) xs =
    Inr (take i xs @ map (\<lambda>j. h j (xs ! j)) [i..<i + k] @ drop (i + k) xs)"
  using assms
proof (induction k arbitrary: i xs)
  case (Suc k)
  let ?ys = "xs[i := h i (xs ! i)]"
  have 1: "for_loop k (Suc i) (\<lambda>j. array_mod j (g j)) ?ys =
      Inr (take (Suc i) ?ys @ map (\<lambda>j. h j (?ys ! j)) [Suc i..<Suc i + k] @ drop (Suc i + k) ?ys)"
    by (rule Suc.IH) (use Suc.prems in auto)
  have 2: "take (Suc i) ?ys = take i xs @ [h i (xs ! i)]"
    using Suc.prems(1) by (simp add: take_Suc_conv_app_nth)
  have 3: "map (\<lambda>j. h j (?ys ! j)) [Suc i..<Suc i + k] = map (\<lambda>j. h j (xs ! j)) [Suc i..<Suc i + k]"
    by (rule map_cong) (auto simp: nth_list_update)
  have "[i..<i + Suc k] = i # [Suc i..<Suc i + k]"
    by (simp add: upt_rec)
  then show ?case
    using Suc.prems 1 2 3 by simp
qed simp

subsection \<open>State machines with an invariant\<close>

text \<open>
  The interface several components share: initial states, a step relation, a predicate
  that holds at the start and that every step keeps. What it gives is that the predicate
  holds wherever the machine can get.
\<close>

locale state_machine =
  fixes start :: "'s \<Rightarrow> bool"
    and step :: "'s \<Rightarrow> 's \<Rightarrow> bool"
    and good :: "'s \<Rightarrow> bool"
  assumes start_good: "start s \<Longrightarrow> good s"
    and step_good: "good s \<Longrightarrow> step s t \<Longrightarrow> good t"
begin

lemma run_good: "step\<^sup>*\<^sup>* s t \<Longrightarrow> good s \<Longrightarrow> good t"
  by (induction rule: rtranclp_induct) (auto intro: step_good)

lemma reach_good: "start s \<Longrightarrow> step\<^sup>*\<^sup>* s t \<Longrightarrow> good t"
  by (auto intro: run_good start_good)

end

subsection \<open>First in, first out\<close>

text \<open>
  The interface of a queue as its user sees it: what is queued, what putting an item, taking
  some at once and any other step do to it, in the states that are \<open>ok\<close>. \<open>fifo_run\<close> is a run of
  such steps; the lemma of the interface is that what was taken, followed by what is left,
  is what was there and what was put, in order.
\<close>

datatype 'i queue_op = Put 'i | Take "'i list" | Other

fun puts :: "'i queue_op list \<Rightarrow> 'i list" where
  "puts [] = []"
| "puts (Put i # ops) = i # puts ops"
| "puts (_ # ops) = puts ops"

fun takes :: "'i queue_op list \<Rightarrow> 'i list" where
  "takes [] = []"
| "takes (Take is # ops) = is @ takes ops"
| "takes (_ # ops) = takes ops"

inductive fifo_run :: "('i \<Rightarrow> 's \<Rightarrow> 's \<Rightarrow> bool) \<Rightarrow> ('i list \<Rightarrow> 's \<Rightarrow> 's \<Rightarrow> bool) \<Rightarrow> ('s \<Rightarrow> 's \<Rightarrow> bool)
    \<Rightarrow> 'i queue_op list \<Rightarrow> 's \<Rightarrow> 's \<Rightarrow> bool"
  for put tak other where
  none: "fifo_run put tak other [] s s"
| put: "put i s t \<Longrightarrow> fifo_run put tak other ops t u \<Longrightarrow> fifo_run put tak other (Put i # ops) s u"
| tak: "tak is s t \<Longrightarrow> fifo_run put tak other ops t u \<Longrightarrow> fifo_run put tak other (Take is # ops) s u"
| other: "other s t \<Longrightarrow> fifo_run put tak other ops t u \<Longrightarrow> fifo_run put tak other (Other # ops) s u"

locale fifo =
  fixes ok :: "'s \<Rightarrow> bool"
    and items :: "'s \<Rightarrow> 'i list"
    and put :: "'i \<Rightarrow> 's \<Rightarrow> 's \<Rightarrow> bool"
    and tak :: "'i list \<Rightarrow> 's \<Rightarrow> 's \<Rightarrow> bool"
    and other :: "'s \<Rightarrow> 's \<Rightarrow> bool"
  assumes put_tail: "ok s \<Longrightarrow> put i s t \<Longrightarrow> ok t \<and> items t = items s @ [i]"
    and take_prefix: "ok s \<Longrightarrow> tak is s t \<Longrightarrow> ok t \<and> items s = is @ items t"
    and other_same: "ok s \<Longrightarrow> other s t \<Longrightarrow> ok t \<and> items t = items s"
begin

lemma run_order: "fifo_run put tak other ops s t \<Longrightarrow> ok s \<Longrightarrow> ok t \<and> items s @ puts ops = takes ops @ items t"
  by (induction rule: fifo_run.induct) (auto dest: put_tail take_prefix other_same)

lemma run_drained:
  "fifo_run put tak other ops s t \<Longrightarrow> ok s \<Longrightarrow> items s = [] \<Longrightarrow> items t = [] \<Longrightarrow> takes ops = puts ops"
  using run_order by fastforce

end

subsection \<open>Words\<close>

lemma unat_and_bound: "unat ((x :: 'a::len word) AND y) \<le> unat y"
  using word_and_le1 [of x y] by (simp add: word_le_nat_alt)

lemma unat_add_small:
  "unat (a :: 'a::len word) + unat b < 2 ^ LENGTH('a) \<Longrightarrow> unat (a + b) = unat a + unat b"
  by (simp add: unat_word_ariths)

lemma unat_of_nat_small: "n < 2 ^ LENGTH('a) \<Longrightarrow> unat (of_nat n :: 'a::len word) = n"
  by (simp add: unat_of_nat)

lemma bit_below:
  fixes w :: "'a::len word"
  assumes "unat w < 2 ^ n" "bit w k"
  shows "k < n"
proof -
  have "int (unat w) < int (2 ^ n)"
    using assms(1) by (simp only: of_nat_less_iff)
  then have "uint w < 2 ^ n" by simp
  then have "w AND mask n = w" by (simp only: mask_eq_iff)
  with assms(2) have "bit (w AND mask n) k" by simp
  then show ?thesis by (simp add: bit_simps)
qed

lemma block_unique:
  fixes n :: nat
  assumes "u < n" "v < n" "k * n + u = k' * n + v"
  shows "k = k' \<and> u = v"
proof -
  have 1: "(k * n + u) div n = k" using assms(1) by simp
  have 2: "(k' * n + v) div n = k'" using assms(2) by simp
  have "k = k'" using 1 2 unfolding assms(3) by (rule trans [OF sym])
  with assms(3) show ?thesis by simp
qed

lemma unat_and_mask: "unat ((w :: 'a::len word) AND mask n) = unat w mod 2 ^ n"
proof -
  have "unat (w AND mask n) = take_bit n (unat w)"
    by (rule bit_eqI) (auto simp: bit_simps dest: bit_imp_le_length)
  then show ?thesis by (simp add: take_bit_eq_mod)
qed

lemma uint_less: "unat (w :: 'a::len word) < 2 ^ n \<Longrightarrow> uint w < 2 ^ n"
proof -
  assume "unat w < 2 ^ n"
  then have "int (unat w) < int (2 ^ n)" by (simp only: of_nat_less_iff)
  then show ?thesis by simp
qed

lemma sint_small: "unat (w :: 32 word) < 2 ^ 31 \<Longrightarrow> sint w = int (unat w)"
proof -
  assume "unat w < 2 ^ 31"
  then have "uint w < 2 ^ 31" by (rule uint_less)
  moreover have "- (2 ^ 31) \<le> uint w" by (rule order_trans [OF _ uint_ge_0]) simp
  ultimately have "signed_take_bit 31 (uint w) = uint w" by (intro signed_take_bit_int_eq_self)
  then show ?thesis by (simp add: sint_uint)
qed

lemma unat_ucast_small:
  "unat (w :: 'a::len word) < 2 ^ LENGTH('b) \<Longrightarrow> unat (ucast w :: 'b::len word) = unat w"
  by (simp add: unsigned_ucast_eq take_bit_nat_eq_self)

lemma div_add_le: "(a + b) div n \<le> a div n + b div n + 1" for a b n :: nat
proof (cases "n = 0")
  case False
  then have "a mod n < n" "b mod n < n" by simp_all
  then have "a mod n + b mod n < 2 * n" by linarith
  then have "(a mod n + b mod n) div n < 2"
    using False by (simp add: div_less_iff_less_mult)
  then show ?thesis by (subst div_add1_eq) simp
qed simp

lemma unat_less_2p: "unat (w :: 'a::len word) < 2 ^ LENGTH('a)"
  by (rule unsigned_less)

lemma unat_sub_of_nat:
  assumes "k \<le> unat w"
  shows "unat (w - of_nat k :: 'a::len word) = unat w - k"
proof -
  have "unat (of_nat k :: 'a word) = k"
    using assms unat_less_2p [of w] by (intro unat_of_nat_small) linarith
  with assms show ?thesis by (subst unat_sub) (simp_all add: word_le_nat_alt)
qed

subsection \<open>Evaluating a run\<close>

text \<open>The check of a concrete run: it returns, and its result satisfies \<open>P\<close>.\<close>

definition run_ok :: "('a \<Rightarrow> bool) \<Rightarrow> 'a run \<Rightarrow> bool" where
  "run_ok P r = (case r of Inr x \<Rightarrow> P x | Inl _ \<Rightarrow> False)"

lemma run_ok_iff: "run_ok P r \<longleftrightarrow> (\<exists>x. r = Inr x \<and> P x)"
  by (cases r) (simp_all add: run_ok_def)

lemma run_okE: "run_ok P r \<Longrightarrow> (\<And>x. r = Inr x \<Longrightarrow> P x \<Longrightarrow> thesis) \<Longrightarrow> thesis"
  by (auto simp: run_ok_iff)

end
