(* ===== verification/Kernel_World.thy ===== *)
theory Kernel_World
  imports Kernel_Prelude
begin

text \<open>
  What the driver sees of the rest of the machine. Device registers are memory mapped:
  an address is a 64-bit kernel virtual address, every access is recorded in a log, and
  what the device answers to a read is an arbitrary function of the accesses made so far
  (\<open>w_dev\<close>). The kernel services the driver calls are not part of the repository: their
  results are arbitrary functions of the log as well (\<open>w_kern\<close> for status codes and
  byte counts, \<open>w_addr\<close> for addresses). A theorem about all worlds is a theorem about
  every device and every kernel; a hypothesis on \<open>w_dev\<close> or \<open>w_kern\<close> states what is
  relied upon.

  The functions \<open>write_register\<close> and \<open>read_register\<close> of driver/xdma-core.c are the only
  ways to the device.
\<close>

type_synonym iomem = u64

text \<open>Calls of kernel services, by the service and the arguments the model needs.\<close>

datatype service =
    Kzalloc nat
  | Kfree u64
  | Vmalloc nat
  | Vfree
  | Pci_alloc_consistent nat
  | Pci_free_consistent u64 nat
  | Request_irq s32
  | Free_irq s32
  | Copy_to_user u64 u64 nat
  | Copy_word_to_user u64 u32
  | Copy_from_user u64 u64 nat
  | Put_user u64 int
  | Get_user u64
  | Wait_event
  | Get_user_pages nat nat
  | Put_page nat
  | Set_page_dirty nat
  | Vmalloc_to_page u64
  | Page_high_mem nat
  | Flush_dcache_page nat
  | Pci_map_sg
  | Pci_unmap_sg
  | Pci_iomap nat u64
  | Pci_iounmap u64
  | Pci_enable_device
  | Pci_disable_device
  | Pci_set_master
  | Pcie_read_devctl
  | Pcie_set_devctl
  | Arch_msi_check nat
  | Pci_find_capability nat
  | Pci_enable_msix nat
  | Msix_vector nat
  | Pci_enable_msi
  | Pci_disable_msix
  | Pci_disable_msi
  | Pci_read_interrupt_pin
  | Pci_request_regions
  | Pci_release_regions
  | Pci_set_dma_mask nat
  | Pci_set_consistent_dma_mask nat
  | Alloc_chrdev_region nat nat
  | Alloc_chrdev_major
  | Register_chrdev_region nat nat nat
  | Unregister_chrdev_region nat nat nat
  | Kobject_set_name nat nat nat
  | Cdev_add nat nat nat
  | Cdev_del nat nat
  | Device_create nat nat
  | Device_destroy nat nat
  | Device_create_file
  | Device_remove_file
  | Class_create
  | Class_destroy
  | Pci_register_driver
  | Pci_unregister_driver
  | Io_remap_pfn_range u64 u64 u64
  | Request_firmware nat
  | Release_firmware
  | Kmalloc nat
  | Access_ok u64 u64
  | Pci_read_config nat
  | Pci_write_config nat u32
  | Pci_read_config_byte nat
  | Pci_write_config_byte nat u8

text \<open>Wait queues the driver wakes: a transfer's, an engine's two, an event's.\<close>

datatype waitq = Wq_transfer nat | Wq_shutdown | Wq_perf | Wq_event nat

datatype event =
    Rd iomem
  | Wr iomem u32
  | Wr8 iomem u8
  | Call service
  | Wake waitq
  | Aio_complete nat u64
  | Schedule_work nat

record world =
  w_dev :: "event list \<Rightarrow> iomem \<Rightarrow> u32"
  w_kern :: "event list \<Rightarrow> service \<Rightarrow> int"
  w_addr :: "event list \<Rightarrow> u64"
  w_log :: "event list"

definition emit :: "event \<Rightarrow> world \<Rightarrow> world" where
  "emit e w = w\<lparr>w_log := w_log w @ [e]\<rparr>"

definition write_register :: "u32 \<Rightarrow> iomem \<Rightarrow> world \<Rightarrow> world" where
  "write_register v a w = emit (Wr a v) w"

definition read_register :: "iomem \<Rightarrow> world \<Rightarrow> u32 \<times> world" where
  "read_register a w = (w_dev w (w_log w) a, emit (Rd a) w)"

definition iowrite8 :: "u8 \<Rightarrow> iomem \<Rightarrow> world \<Rightarrow> world" where
  "iowrite8 v a w = emit (Wr8 a v) w"

definition kcall :: "service \<Rightarrow> world \<Rightarrow> int \<times> world" where
  "kcall c w = (w_kern w (w_log w) c, emit (Call c) w)"

text \<open>A kernel call whose result the code does not look at.\<close>

definition kcall0 :: "service \<Rightarrow> world \<Rightarrow> world" where
  "kcall0 c w = emit (Call c) w"

lemma emit_sel [simp]:
  "w_log (emit e w) = w_log w @ [e]"
  "w_dev (emit e w) = w_dev w" "w_kern (emit e w) = w_kern w" "w_addr (emit e w) = w_addr w"
  by (simp_all add: emit_def)

lemma write_register_sel [simp]:
  "w_log (write_register v a w) = w_log w @ [Wr a v]"
  "w_dev (write_register v a w) = w_dev w" "w_kern (write_register v a w) = w_kern w"
  "w_addr (write_register v a w) = w_addr w"
  by (simp_all add: write_register_def)

lemma read_register_sel [simp]:
  "w_log (snd (read_register a w)) = w_log w @ [Rd a]"
  "w_dev (snd (read_register a w)) = w_dev w" "w_kern (snd (read_register a w)) = w_kern w"
  "w_addr (snd (read_register a w)) = w_addr w"
  "fst (read_register a w) = w_dev w (w_log w) a"
  by (simp_all add: read_register_def)

lemma kcall_sel [simp]:
  "w_log (snd (kcall c w)) = w_log w @ [Call c]"
  "w_dev (snd (kcall c w)) = w_dev w" "w_kern (snd (kcall c w)) = w_kern w"
  "w_addr (snd (kcall c w)) = w_addr w"
  "fst (kcall c w) = w_kern w (w_log w) c"
  by (simp_all add: kcall_def)

subsection \<open>Logs\<close>

text \<open>The register writes of a log, and the value a register was last given.\<close>

fun writes :: "event list \<Rightarrow> (iomem \<times> u32) list" where
  "writes [] = []"
| "writes (Wr a v # es) = (a, v) # writes es"
| "writes (_ # es) = writes es"

lemma writes_append [simp]: "writes (xs @ ys) = writes xs @ writes ys"
  by (induction xs rule: writes.induct) simp_all

definition last_write :: "iomem \<Rightarrow> event list \<Rightarrow> u32 option" where
  "last_write a es = map_of (rev (writes es)) a"

lemma last_write_simps [simp]:
  "last_write a [] = None"
  "last_write a (es @ [Wr b v]) = (if a = b then Some v else last_write a es)"
  "last_write a (es @ [Rd b]) = last_write a es"
  "last_write a (es @ [Call c]) = last_write a es"
  "last_write a (es @ [Wake q]) = last_write a es"
  by (auto simp: last_write_def)

text \<open>
  The contract of an operation on the world: it only appends to the log, and what the
  device and the kernel answer stays the same function. Sequential composition keeps it.
\<close>

definition extends :: "world \<Rightarrow> world \<Rightarrow> bool" where
  "extends w w' \<longleftrightarrow> (\<exists>es. w' = w\<lparr>w_log := w_log w @ es\<rparr>)"

lemma extends_refl [simp, intro]: "extends w w"
  unfolding extends_def by (rule exI [of _ "[]"]) simp

lemma extends_trans [trans]: "extends a b \<Longrightarrow> extends b c \<Longrightarrow> extends a c"
  by (auto simp: extends_def)

lemma extends_emit [simp, intro]: "extends a b \<Longrightarrow> extends a (emit e b)"
  by (auto simp: extends_def emit_def)

lemma extends_write [simp, intro]: "extends a b \<Longrightarrow> extends a (write_register v r b)"
  by (auto simp: write_register_def)

lemma extends_read [simp, intro]: "extends a b \<Longrightarrow> extends a (snd (read_register r b))"
  by (auto simp: read_register_def)

lemma extends_kcall [simp, intro]: "extends a b \<Longrightarrow> extends a (snd (kcall c b))"
  by (auto simp: kcall_def)

text \<open>The world of the concrete runs: every register reads 0, every kernel call gives 1.\<close>

definition idle_world :: world where
  "idle_world = \<lparr>w_dev = (\<lambda>_ _. 0), w_kern = (\<lambda>_ _. 1), w_addr = (\<lambda>_. 0x1000), w_log = []\<rparr>"

end
