(* ===== verification/Xdma_Regs.thy ===== *)
theory Xdma_Regs
  imports Kernel_World
begin

unbundle bit_operations_syntax

text \<open>
  The register map of the DMA core and the primitive register operations: the constants
  and packed register structures of include/xdma-core.h, and the interrupt controller and
  identifier routines of driver/xdma-core.c. A routine that the C code gives the device
  structure gets the mapped address \<open>cfg\<close> of the configuration BAR,
  \<open>lro->bar[lro->config_bar_idx]\<close>, which is all it uses of it; an engine routine gets the
  address \<open>regs\<close> of the engine's register block.
\<close>

subsection \<open>Control, status and descriptor bits\<close>

definition XDMA_CTRL_RUN_STOP :: u32 where [reg_simps]: "XDMA_CTRL_RUN_STOP = push_bit 0 1"
definition XDMA_CTRL_IE_DESC_STOPPED :: u32 where [reg_simps]: "XDMA_CTRL_IE_DESC_STOPPED = push_bit 1 1"
definition XDMA_CTRL_IE_DESC_COMPLETED :: u32 where [reg_simps]: "XDMA_CTRL_IE_DESC_COMPLETED = push_bit 2 1"
definition XDMA_CTRL_IE_DESC_ALIGN_MISMATCH :: u32 where [reg_simps]: "XDMA_CTRL_IE_DESC_ALIGN_MISMATCH = push_bit 3 1"
definition XDMA_CTRL_IE_MAGIC_STOPPED :: u32 where [reg_simps]: "XDMA_CTRL_IE_MAGIC_STOPPED = push_bit 4 1"
definition XDMA_CTRL_IE_IDLE_STOPPED :: u32 where [reg_simps]: "XDMA_CTRL_IE_IDLE_STOPPED = push_bit 6 1"
definition XDMA_CTRL_IE_READ_ERROR :: u32 where [reg_simps]: "XDMA_CTRL_IE_READ_ERROR = push_bit 9 0x1F"
definition XDMA_CTRL_IE_DESC_ERROR :: u32 where [reg_simps]: "XDMA_CTRL_IE_DESC_ERROR = push_bit 19 0x1F"
definition XDMA_CTRL_NON_INCR_ADDR :: u32 where [reg_simps]: "XDMA_CTRL_NON_INCR_ADDR = push_bit 25 1"
definition XDMA_CTRL_POLL_MODE_WB :: u32 where [reg_simps]: "XDMA_CTRL_POLL_MODE_WB = push_bit 26 1"

definition XDMA_STAT_BUSY :: u32 where [reg_simps]: "XDMA_STAT_BUSY = push_bit 0 1"
definition XDMA_STAT_DESC_STOPPED :: u32 where [reg_simps]: "XDMA_STAT_DESC_STOPPED = push_bit 1 1"
definition XDMA_STAT_DESC_COMPLETED :: u32 where [reg_simps]: "XDMA_STAT_DESC_COMPLETED = push_bit 2 1"
definition XDMA_STAT_ALIGN_MISMATCH :: u32 where [reg_simps]: "XDMA_STAT_ALIGN_MISMATCH = push_bit 3 1"
definition XDMA_STAT_MAGIC_STOPPED :: u32 where [reg_simps]: "XDMA_STAT_MAGIC_STOPPED = push_bit 4 1"
definition XDMA_STAT_READ_ERROR :: u32 where [reg_simps]: "XDMA_STAT_READ_ERROR = push_bit 9 0x1F"
definition XDMA_STAT_DESC_ERROR :: u32 where [reg_simps]: "XDMA_STAT_DESC_ERROR = push_bit 19 0x1F"

definition XDMA_DESC_STOPPED :: u32 where [reg_simps]: "XDMA_DESC_STOPPED = push_bit 0 1"
definition XDMA_DESC_COMPLETED :: u32 where [reg_simps]: "XDMA_DESC_COMPLETED = push_bit 1 1"
definition XDMA_DESC_EOP :: u32 where [reg_simps]: "XDMA_DESC_EOP = push_bit 4 1"

definition XDMA_PERF_RUN :: u32 where [reg_simps]: "XDMA_PERF_RUN = push_bit 0 1"
definition XDMA_PERF_CLEAR :: u32 where [reg_simps]: "XDMA_PERF_CLEAR = push_bit 1 1"
definition XDMA_PERF_AUTO :: u32 where [reg_simps]: "XDMA_PERF_AUTO = push_bit 2 1"

definition XDMA_ID_H2C :: u32 where [reg_simps]: "XDMA_ID_H2C = 0x1fc0"
definition XDMA_ID_C2H :: u32 where [reg_simps]: "XDMA_ID_C2H = 0x1fc1"
definition IRQ_BLOCK_ID :: u32 where [reg_simps]: "IRQ_BLOCK_ID = 0x1fc20000"
definition CONFIG_BLOCK_ID :: u32 where [reg_simps]: "CONFIG_BLOCK_ID = 0x1fc30000"
definition WB_COUNT_MASK :: u32 where [reg_simps]: "WB_COUNT_MASK = 0x00ffffff"
definition WB_ERR_MASK :: u32 where [reg_simps]: "WB_ERR_MASK = push_bit 31 1"
definition LS_BYTE_MASK :: u32 where [reg_simps]: "LS_BYTE_MASK = 0x000000FF"
definition DESC_MAGIC :: u32 where [reg_simps]: "DESC_MAGIC = 0xAD4B0000"
definition C2H_WB :: u32 where [reg_simps]: "C2H_WB = 0x52B4"
definition RX_STATUS_EOP :: u32 where [reg_simps]: "RX_STATUS_EOP = 1"

definition XDMA_BAR_NUM :: nat where [reg_simps]: "XDMA_BAR_NUM = 6"
definition XDMA_BAR_SIZE :: nat where [reg_simps]: "XDMA_BAR_SIZE = 0x8000"
definition XDMA_CHANNEL_NUM_MAX :: nat where [reg_simps]: "XDMA_CHANNEL_NUM_MAX = 4"
definition MAX_EXTRA_ADJ :: int where [reg_simps]: "MAX_EXTRA_ADJ = 15"
definition MAX_USER_IRQ :: nat where [reg_simps]: "MAX_USER_IRQ = 16"
definition XDMA_TRANSFER_MAX_BYTES :: nat where [reg_simps]: "XDMA_TRANSFER_MAX_BYTES = 2048 * 4096"
definition XDMA_DESC_MAX_BYTES :: nat where [reg_simps]: "XDMA_DESC_MAX_BYTES = 2 ^ 18 - 1"
definition RX_BUF_BLOCK :: nat where [reg_simps]: "RX_BUF_BLOCK = 4096"
definition RX_BUF_PAGES :: nat where [reg_simps]: "RX_BUF_PAGES = 256"
definition RX_BUF_SIZE :: nat where [reg_simps]: "RX_BUF_SIZE = RX_BUF_PAGES * RX_BUF_BLOCK"
definition PAGE_SIZE :: nat where [reg_simps]: "PAGE_SIZE = 4096"

definition XDMA_OFS_INT_CTRL :: iomem where [reg_simps]: "XDMA_OFS_INT_CTRL = 0x2000"
definition XDMA_OFS_CONFIG :: iomem where [reg_simps]: "XDMA_OFS_CONFIG = 0x3000"
definition H2C_CHANNEL_OFFSET :: iomem where [reg_simps]: "H2C_CHANNEL_OFFSET = 0x1000"
definition SGDMA_OFFSET_FROM_CHANNEL :: iomem where [reg_simps]: "SGDMA_OFFSET_FROM_CHANNEL = 0x4000"
definition CHANNEL_SPACING :: iomem where [reg_simps]: "CHANNEL_SPACING = 0x100"
definition TARGET_SPACING :: iomem where [reg_simps]: "TARGET_SPACING = 0x1000"

subsection \<open>Packed register structures\<close>

text \<open>A packed structure of 32-bit words: its fields in order, each with its word count.\<close>

datatype reg_field =
    R_identifier | R_control | R_control_w1s | R_control_w1c | R_status | R_status_rc
  | R_completed_desc_count | R_alignments | R_poll_mode_wb_lo | R_poll_mode_wb_hi
  | R_interrupt_enable_mask | R_interrupt_enable_mask_w1s | R_interrupt_enable_mask_w1c
  | R_perf_ctrl | R_perf_cyc_lo | R_perf_cyc_hi | R_perf_dat_lo | R_perf_dat_hi | R_perf_pnd_lo | R_perf_pnd_hi
  | R_first_desc_lo | R_first_desc_hi | R_first_desc_adjacent | R_credits
  | R_user_int_enable | R_user_int_enable_w1s | R_user_int_enable_w1c
  | R_channel_int_enable | R_channel_int_enable_w1s | R_channel_int_enable_w1c
  | R_user_int_request | R_channel_int_request | R_user_int_pending | R_channel_int_pending
  | R_user_msi_vector | R_channel_msi_vector
  | R_credit_feature_enable | R_msi_enable
  | R_reserved nat

type_synonym layout = "(reg_field \<times> nat) list"

fun field_offset :: "layout \<Rightarrow> reg_field \<Rightarrow> nat" where
  "field_offset [] f = 0"
| "field_offset ((g, n) # l) f = (if f = g then 0 else 4 * n + field_offset l f)"

fun layout_size :: "layout \<Rightarrow> nat" where
  "layout_size [] = 0"
| "layout_size ((g, n) # l) = 4 * n + layout_size l"

definition engine_regs :: layout where
  "engine_regs =
    [(R_identifier, 1), (R_control, 1), (R_control_w1s, 1), (R_control_w1c, 1), (R_reserved 1, 12),
     (R_status, 1), (R_status_rc, 1), (R_completed_desc_count, 1), (R_alignments, 1), (R_reserved 2, 14),
     (R_poll_mode_wb_lo, 1), (R_poll_mode_wb_hi, 1), (R_interrupt_enable_mask, 1),
     (R_interrupt_enable_mask_w1s, 1), (R_interrupt_enable_mask_w1c, 1), (R_reserved 3, 9),
     (R_perf_ctrl, 1), (R_perf_cyc_lo, 1), (R_perf_cyc_hi, 1), (R_perf_dat_lo, 1), (R_perf_dat_hi, 1),
     (R_perf_pnd_lo, 1), (R_perf_pnd_hi, 1)]"

definition engine_sgdma_regs :: layout where
  "engine_sgdma_regs =
    [(R_identifier, 1), (R_reserved 1, 31), (R_first_desc_lo, 1), (R_first_desc_hi, 1),
     (R_first_desc_adjacent, 1), (R_credits, 1)]"

definition interrupt_regs :: layout where
  "interrupt_regs =
    [(R_identifier, 1), (R_user_int_enable, 1), (R_user_int_enable_w1s, 1), (R_user_int_enable_w1c, 1),
     (R_channel_int_enable, 1), (R_channel_int_enable_w1s, 1), (R_channel_int_enable_w1c, 1),
     (R_reserved 1, 9), (R_user_int_request, 1), (R_channel_int_request, 1), (R_user_int_pending, 1),
     (R_channel_int_pending, 1), (R_reserved 2, 12), (R_user_msi_vector, 8), (R_channel_msi_vector, 8)]"

definition config_regs :: layout where
  "config_regs = [(R_identifier, 1), (R_reserved 1, 4), (R_msi_enable, 1)]"

definition sgdma_common_regs :: layout where
  "sgdma_common_regs = [(R_reserved 1, 9), (R_credit_feature_enable, 1)]"

text \<open>The address of a field of the structure at \<open>base\<close>, as \<open>&base->field\<close>.\<close>

definition er :: "reg_field \<Rightarrow> iomem" where "er f = of_nat (field_offset engine_regs f)"
definition sr :: "reg_field \<Rightarrow> iomem" where "sr f = of_nat (field_offset engine_sgdma_regs f)"
definition ir :: "reg_field \<Rightarrow> iomem" where "ir f = of_nat (field_offset interrupt_regs f)"
definition cr :: "reg_field \<Rightarrow> iomem" where "cr f = of_nat (field_offset config_regs f)"
definition gr :: "reg_field \<Rightarrow> iomem" where "gr f = of_nat (field_offset sgdma_common_regs f)"

lemma er_offsets [simp]:
  "er R_identifier = 0" "er R_control = 0x04" "er R_control_w1s = 0x08" "er R_control_w1c = 0x0C"
  "er R_status = 0x40" "er R_status_rc = 0x44" "er R_completed_desc_count = 0x48" "er R_alignments = 0x4C"
  "er R_poll_mode_wb_lo = 0x88" "er R_poll_mode_wb_hi = 0x8C" "er R_interrupt_enable_mask = 0x90"
  "er R_interrupt_enable_mask_w1s = 0x94" "er R_interrupt_enable_mask_w1c = 0x98"
  "er R_perf_ctrl = 0xC0" "er R_perf_cyc_lo = 0xC4" "er R_perf_cyc_hi = 0xC8" "er R_perf_dat_lo = 0xCC"
  "er R_perf_dat_hi = 0xD0" "er R_perf_pnd_lo = 0xD4" "er R_perf_pnd_hi = 0xD8"
  by (simp_all add: er_def engine_regs_def)

lemma sr_offsets [simp]:
  "sr R_first_desc_lo = 0x80" "sr R_first_desc_hi = 0x84" "sr R_first_desc_adjacent = 0x88"
  "sr R_credits = 0x8C"
  by (simp_all add: sr_def engine_sgdma_regs_def)

lemma ir_offsets [simp]:
  "ir R_identifier = 0" "ir R_user_int_enable_w1s = 0x08" "ir R_user_int_enable_w1c = 0x0C"
  "ir R_channel_int_enable_w1s = 0x14" "ir R_channel_int_enable_w1c = 0x18"
  "ir R_user_int_request = 0x40" "ir R_channel_int_request = 0x44" "ir R_channel_int_pending = 0x4C"
  "ir R_user_msi_vector = 0x80" "ir R_channel_msi_vector = 0xA0"
  by (simp_all add: ir_def interrupt_regs_def)

lemma cr_gr_offsets [simp]: "cr R_identifier = 0" "gr R_credit_feature_enable = 0x24"
  by (simp_all add: cr_def gr_def config_regs_def sgdma_common_regs_def)

subsection \<open>Splitting and joining words\<close>

definition PCI_DMA_H :: "u64 \<Rightarrow> u32" where
  "PCI_DMA_H addr = ucast (drop_bit 16 (drop_bit 16 addr))"

definition PCI_DMA_L :: "u64 \<Rightarrow> u32" where
  "PCI_DMA_L addr = ucast (addr AND 0xffffffff)"

definition build_u32 :: "u32 \<Rightarrow> u32 \<Rightarrow> u32" where
  "build_u32 hi lo = push_bit 16 (hi AND 0xFFFF) OR (lo AND 0xFFFF)"

text \<open>The mask of the high half has seven hexadecimal digits in the code.\<close>

definition build_u64 :: "u64 \<Rightarrow> u64 \<Rightarrow> u64" where
  "build_u64 hi lo = push_bit 32 (hi AND 0xFFFFFFF) OR (lo AND 0xFFFFFFFF)"

definition build_vector_reg :: "u32 \<Rightarrow> u32 \<Rightarrow> u32 \<Rightarrow> u32 \<Rightarrow> u32" where
  "build_vector_reg a b c d =
     push_bit 0 (a AND 0x1f) OR push_bit 8 (b AND 0x1f) OR push_bit 16 (c AND 0x1f)
       OR push_bit 24 (d AND 0x1f)"

text \<open>The device's view of a split address: the two halves put together again.\<close>

definition join_u64 :: "u32 \<Rightarrow> u32 \<Rightarrow> u64" where
  "join_u64 hi lo = push_bit 32 (ucast hi) OR ucast lo"

lemma u32_mask: "(0xffffffff :: u64) = mask 32"
  by (simp add: mask_eq_exp_minus_1)

lemma join_PCI_DMA [simp]: "join_u64 (PCI_DMA_H a) (PCI_DMA_L a) = a"
  unfolding join_u64_def PCI_DMA_H_def PCI_DMA_L_def u32_mask
  by (rule bit_word_eqI) (auto simp: bit_simps)

lemma PCI_DMA_join [simp]: "PCI_DMA_H (join_u64 hi lo) = hi" "PCI_DMA_L (join_u64 hi lo) = lo"
  unfolding join_u64_def PCI_DMA_H_def PCI_DMA_L_def u32_mask
  by (rule bit_word_eqI, auto simp: bit_simps dest: bit_imp_le_length)+

lemma build_vector_reg_fields:
  "build_vector_reg a b c d AND 0xFF = a AND 0x1f"
  "drop_bit 8 (build_vector_reg a b c d) AND 0xFF = b AND 0x1f"
  "drop_bit 16 (build_vector_reg a b c d) AND 0xFF = c AND 0x1f"
  "drop_bit 24 (build_vector_reg a b c d) AND 0xFF = d AND 0x1f"
proof -
  have m: "(0x1f :: u32) = mask 5" "(0xFF :: u32) = mask 8"
    by (simp_all add: mask_eq_exp_minus_1)
  show "build_vector_reg a b c d AND 0xFF = a AND 0x1f"
    unfolding build_vector_reg_def m by (rule bit_word_eqI) (auto simp: bit_simps)
  show "drop_bit 8 (build_vector_reg a b c d) AND 0xFF = b AND 0x1f"
    unfolding build_vector_reg_def m by (rule bit_word_eqI) (auto simp: bit_simps)
  show "drop_bit 16 (build_vector_reg a b c d) AND 0xFF = c AND 0x1f"
    unfolding build_vector_reg_def m by (rule bit_word_eqI) (auto simp: bit_simps)
  show "drop_bit 24 (build_vector_reg a b c d) AND 0xFF = d AND 0x1f"
    unfolding build_vector_reg_def m by (rule bit_word_eqI) (auto simp: bit_simps)
qed

lemma build_u32_fields: "drop_bit 16 (build_u32 hi lo) = hi AND 0xFFFF" "build_u32 hi lo AND 0xFFFF = lo AND 0xFFFF"
proof -
  have m: "(0xFFFF :: u32) = mask 16" by (simp add: mask_eq_exp_minus_1)
  show "drop_bit 16 (build_u32 hi lo) = hi AND 0xFFFF"
    unfolding build_u32_def m by (rule bit_word_eqI) (auto simp: bit_simps)
  show "build_u32 hi lo AND 0xFFFF = lo AND 0xFFFF"
    unfolding build_u32_def m by (rule bit_word_eqI) (auto simp: bit_simps)
qed

lemma build_u64_join:
  assumes "unat h < 2 ^ 28" shows "build_u64 (ucast (h :: u32)) (ucast lo) = join_u64 h lo"
proof -
  have m: "(0xFFFFFFF :: u64) = mask 28" by (simp add: mask_eq_exp_minus_1)
  have b28: "n < 28" if "bit h n" for n
    using bit_below [of h 28 n] assms that by simp
  show ?thesis
    unfolding build_u64_def join_u64_def m u32_mask
    by (rule bit_word_eqI) (auto simp: bit_simps dest: bit_imp_le_length b28)
qed
subsection \<open>The interrupt controller\<close>

definition channel_interrupts_enable :: "iomem \<Rightarrow> u32 \<Rightarrow> world \<Rightarrow> world" where
  "channel_interrupts_enable cfg m w =
     write_register m (cfg + XDMA_OFS_INT_CTRL + ir R_channel_int_enable_w1s) w"

definition channel_interrupts_disable :: "iomem \<Rightarrow> u32 \<Rightarrow> world \<Rightarrow> world" where
  "channel_interrupts_disable cfg m w =
     write_register m (cfg + XDMA_OFS_INT_CTRL + ir R_channel_int_enable_w1c) w"

definition user_interrupts_enable :: "iomem \<Rightarrow> u32 \<Rightarrow> world \<Rightarrow> world" where
  "user_interrupts_enable cfg m w =
     write_register m (cfg + XDMA_OFS_INT_CTRL + ir R_user_int_enable_w1s) w"

definition user_interrupts_disable :: "iomem \<Rightarrow> u32 \<Rightarrow> world \<Rightarrow> world" where
  "user_interrupts_disable cfg m w =
     write_register m (cfg + XDMA_OFS_INT_CTRL + ir R_user_int_enable_w1c) w"

definition read_interrupts :: "iomem \<Rightarrow> world \<Rightarrow> u32 \<times> world" where
  "read_interrupts cfg w =
     (let (hi, w) = read_register (cfg + XDMA_OFS_INT_CTRL + ir R_user_int_request) w;
          (lo, w) = read_register (cfg + XDMA_OFS_INT_CTRL + ir R_channel_int_request) w
      in (build_u32 hi lo, w))"

text \<open>The w1s/w1c protocol: the controller's enable mask after a log of writes.\<close>

fun enable_mask :: "iomem \<Rightarrow> iomem \<Rightarrow> event list \<Rightarrow> u32 \<Rightarrow> u32" where
  "enable_mask s c [] m = m"
| "enable_mask s c (Wr a v # es) m =
     enable_mask s c es (if a = s then m OR v else if a = c then m AND NOT v else m)"
| "enable_mask s c (_ # es) m = enable_mask s c es m"

subsection \<open>Engine identification\<close>

definition get_engine_type :: "iomem \<Rightarrow> world \<Rightarrow> u32 \<times> world" where
  "get_engine_type regs w =
     (let (v, w) = read_register (regs + er R_identifier) w
      in (if v AND 0x8000 \<noteq> 0 then 1 else 0, w))"

definition get_engine_channel_id :: "iomem \<Rightarrow> world \<Rightarrow> u32 \<times> world" where
  "get_engine_channel_id regs w =
     (let (v, w) = read_register (regs + er R_identifier) w
      in (drop_bit 8 (v AND 0x00000f00), w))"

definition get_engine_id :: "iomem \<Rightarrow> world \<Rightarrow> u32 \<times> world" where
  "get_engine_id regs w =
     (let (v, w) = read_register (regs + er R_identifier) w
      in (drop_bit 16 (v AND 0xffff0000), w))"

definition channel_offset :: "bool \<Rightarrow> nat \<Rightarrow> iomem" where
  "channel_offset dir_to_dev channel =
     (if dir_to_dev then 0 else H2C_CHANNEL_OFFSET) + of_nat channel * CHANNEL_SPACING"

lemma layout_sizes:
  "layout_size engine_regs = 0xDC" "layout_size engine_sgdma_regs = 0x90"
  "layout_size interrupt_regs = 0xC0"
  by (simp_all add: engine_regs_def engine_sgdma_regs_def interrupt_regs_def)

text \<open>
  The windows of the register map: an engine's control registers, and 16 KB above them
  its scatter-gather registers.
\<close>

definition window :: "bool \<Rightarrow> bool \<Rightarrow> nat \<Rightarrow> iomem" where
  "window sg d c = channel_offset d c + (if sg then SGDMA_OFFSET_FROM_CHANNEL else 0)"

lemma unat_window: "c < 4 \<Longrightarrow> unat (window sg d c) = (if d then 0 else 0x1000) + c * 0x100 + (if sg then 0x4000 else 0)"
proof -
  assume "c < 4"
  then have "c \<in> {0,1,2,3}" by auto
  then show ?thesis by (auto simp: window_def channel_offset_def reg_simps)
qed

lemma windows_disjoint:
  assumes "c < 4" "c' < 4" "x < 0x100" "y < 0x100"
    "unat (window sg d c) + x = unat (window sg' d' c') + y"
  shows "sg = sg' \<and> d = d' \<and> c = c' \<and> x = y"
proof -
  have blocks: "k * 0x1000 + (c * 0x100 + x) = k' * 0x1000 + (c' * 0x100 + y) \<Longrightarrow>
      k = k' \<and> c = c' \<and> x = y" for k k' :: nat
    using block_unique [of "c * 0x100 + x" "0x1000" "c' * 0x100 + y" k k']
      block_unique [of x "0x100" y c c'] assms(1-4) by simp
  have "unat (window s b n) + z = (if b then 0 else 1) * 0x1000 + (if s then 4 else 0) * 0x1000 + (n * 0x100 + z)"
    if "n < 4" for s b n z
    using that by (simp add: unat_window)
  then have "((if d then 0 else 1) + (if sg then 4 else 0)) * 0x1000 + (c * 0x100 + x) =
      ((if d' then 0 else 1) + (if sg' then 4 else 0)) * 0x1000 + (c' * 0x100 + y)"
    using assms by (simp add: algebra_simps)
  from blocks [OF this] show ?thesis by (simp split: if_splits)
qed

text \<open>
  C6: The register windows of the four channels in both directions, control block and
  scatter-gather block, do not overlap: an offset within a window's 256 bytes names one
  register of one engine, and both register structures of an engine fit their window.
\<close>

theorem register_windows_disjoint:
  assumes "c < 4" "c' < 4" "x < 0x100" "y < 0x100"
    "unat (window sg d c) + x = unat (window sg' d' c') + y"
  shows "sg = sg' \<and> d = d' \<and> c = c' \<and> x = y
    \<and> layout_size engine_regs \<le> 0x100 \<and> layout_size engine_sgdma_regs \<le> 0x100"
  using windows_disjoint [OF assms] layout_sizes by simp

theorem register_windows_disjoint_witness:
  "unat (window True False 3) + 0x84 \<noteq> unat (window True False 2) + 0x84"
  using register_windows_disjoint [of 3 2 "0x84" "0x84" True False True False] by auto



end
