(* ===== verification/Xdma_Desc.thy ===== *)
theory Xdma_Desc
  imports Xdma_Regs
begin

unbundle bit_operations_syntax

text \<open>
  The descriptor a DMA engine fetches from host memory, and the routines of
  driver/xdma-core.c that allocate a chain of descriptors, link them, and set their
  control words and addresses. A descriptor array is a list of records; the bus address
  of element \<open>i\<close> of the array at \<open>bus\<close> is \<open>bus_at bus i\<close>.

  The lemmas show that the control word keeps its magic number and adjacent count under
  every operation on its low byte, what an allocated chain looks like, and that the block
  of descriptors an engine prefetches stays within the array and within a 4 KB page.
\<close>

subsection \<open>The descriptor\<close>

record xdma_desc =
  d_control :: u32
  d_bytes :: u32
  d_src_lo :: u32
  d_src_hi :: u32
  d_dst_lo :: u32
  d_dst_hi :: u32
  d_next_lo :: u32
  d_next_hi :: u32

definition DESC_SIZE :: nat where "DESC_SIZE = 32"

subsection \<open>Allocation\<close>

text \<open>
  The loop of \<open>xdma_desc_alloc\<close>: \<open>k\<close> rounds are left, \<open>i\<close> is the index, \<open>adj\<close> the
  descriptors after this one and \<open>bus\<close> the bus address of this one.
\<close>

fun desc_chain :: "nat \<Rightarrow> nat \<Rightarrow> int \<Rightarrow> u64 \<Rightarrow> xdma_desc list \<Rightarrow> xdma_desc list" where
  "desc_chain 0 i adj bus ds = ds"
| "desc_chain (Suc k) i adj bus ds =
    (let bus = bus + of_nat DESC_SIZE;
         extra_adj = (if adj > 0 then (if adj - 1 > MAX_EXTRA_ADJ then MAX_EXTRA_ADJ else adj - 1) else 0);
         adj = (if adj > 0 then adj - 1 else adj)
     in desc_chain k (Suc i) adj bus
          (ds[i := (ds ! i)\<lparr>d_next_lo := PCI_DMA_L bus, d_next_hi := PCI_DMA_H bus, d_bytes := 0,
                     d_control := DESC_MAGIC OR push_bit 8 (of_int extra_adj)\<rparr>]))"

text \<open>
  The memory comes from \<open>pci_alloc_consistent\<close>: \<open>fresh i\<close> is what it holds at index \<open>i\<close>.
  No memory is \<open>None\<close>, otherwise the descriptors and the bus address of the first.
\<close>

definition xdma_desc_alloc ::
  "(nat \<Rightarrow> xdma_desc) \<Rightarrow> int \<Rightarrow> world \<Rightarrow> ((xdma_desc list \<times> u64) option \<times> world) run" where
  "xdma_desc_alloc fresh number w =
     bindr (bug_on (number < 1)) (\<lambda>_.
       let n = nat number;
           bus = w_addr w (w_log w);
           (virt, w) = kcall (Pci_alloc_consistent (n * DESC_SIZE)) w
       in if virt = 0 then Inr (None, w)
          else let ds = desc_chain (n - 1) 0 (number - 1) bus (map fresh [0..<n]);
                   ds = ds[n - 1 := (ds ! (n - 1))\<lparr>d_next_lo := 0, d_next_hi := 0, d_bytes := 0,
                                        d_control := DESC_MAGIC\<rparr>]
               in Inr (Some (ds, bus), w))"

definition xdma_desc_free :: "int \<Rightarrow> xdma_desc list option \<Rightarrow> u64 \<Rightarrow> world \<Rightarrow> world run" where
  "xdma_desc_free number virt bus w =
     bindr (bug_on (virt = None)) (\<lambda>_.
     bindr (bug_on (number < 0)) (\<lambda>_.
       Inr (kcall0 (Pci_free_consistent bus (nat number * DESC_SIZE)) w)))"

subsection \<open>Linking and the control word\<close>

text \<open>\<open>second\<close> is the bus address of the second descriptor, \<open>None\<close> for a null pointer.\<close>

definition xdma_desc_link :: "xdma_desc \<Rightarrow> u64 option \<Rightarrow> xdma_desc" where
  "xdma_desc_link first second =
     (let control = d_control first AND 0x0000f0ff;
          first = (case second of
              Some bus \<Rightarrow> first\<lparr>d_next_lo := PCI_DMA_L bus, d_next_hi := PCI_DMA_H bus\<rparr>
            | None \<Rightarrow> first\<lparr>d_next_lo := 0, d_next_hi := 0\<rparr>)
      in first\<lparr>d_control := control OR DESC_MAGIC\<rparr>)"

text \<open>
  \<open>extra_adj > max_adj_4k\<close> compares an \<open>int\<close> with a \<open>u32\<close>, as unsigned; the assignment
  takes the bits back as signed.
\<close>

definition xdma_desc_adjacent :: "xdma_desc \<Rightarrow> int \<Rightarrow> xdma_desc" where
  "xdma_desc_adjacent d next_adjacent =
     (let control = d_control d AND 0x0000f0ff;
          extra_adj = (if next_adjacent > 0
            then let e = next_adjacent - 1;
                     e = (if e > MAX_EXTRA_ADJ then MAX_EXTRA_ADJ else e);
                     max_adj_4k = (0x1000 - (d_next_lo d AND 0xFFF)) div 32 - 1;
                     e = (if (of_int e :: u32) > max_adj_4k then sint max_adj_4k else e)
                 in if e < 0 then 0 else e
            else 0)
      in d\<lparr>d_control := control OR (0xAD4B0000 OR push_bit 8 (of_int extra_adj))\<rparr>)"

definition xdma_desc_control :: "xdma_desc \<Rightarrow> u32 \<Rightarrow> xdma_desc run" where
  "xdma_desc_control first control_field =
     bindr (bug_on (control_field AND NOT LS_BYTE_MASK \<noteq> 0)) (\<lambda>_.
       Inr (first\<lparr>d_control := (d_control first AND NOT LS_BYTE_MASK) OR control_field\<rparr>))"

definition xdma_desc_control_clear :: "xdma_desc \<Rightarrow> u32 \<Rightarrow> xdma_desc run" where
  "xdma_desc_control_clear first clear_mask =
     bindr (bug_on (clear_mask AND NOT LS_BYTE_MASK \<noteq> 0)) (\<lambda>_.
       Inr (first\<lparr>d_control := d_control first AND NOT clear_mask\<rparr>))"

definition xdma_desc_control_set :: "xdma_desc \<Rightarrow> u32 \<Rightarrow> xdma_desc run" where
  "xdma_desc_control_set first set_mask =
     bindr (bug_on (set_mask AND NOT LS_BYTE_MASK \<noteq> 0)) (\<lambda>_.
       Inr (first\<lparr>d_control := d_control first OR set_mask\<rparr>))"

subsection \<open>Addresses\<close>

definition xdma_desc_set :: "xdma_desc \<Rightarrow> u64 \<Rightarrow> u64 \<Rightarrow> u32 \<Rightarrow> bool \<Rightarrow> xdma_desc" where
  "xdma_desc_set d rc_bus_addr ep_addr len dir_to_dev =
     (let d = d\<lparr>d_bytes := len\<rparr> in
      if dir_to_dev
      then d\<lparr>d_src_lo := PCI_DMA_L rc_bus_addr, d_src_hi := PCI_DMA_H rc_bus_addr,
             d_dst_lo := PCI_DMA_L ep_addr, d_dst_hi := PCI_DMA_H ep_addr\<rparr>
      else d\<lparr>d_src_lo := PCI_DMA_L ep_addr, d_src_hi := PCI_DMA_H ep_addr,
             d_dst_lo := PCI_DMA_L rc_bus_addr, d_dst_hi := PCI_DMA_H rc_bus_addr\<rparr>)"

definition xdma_desc_set_source :: "xdma_desc \<Rightarrow> u64 \<Rightarrow> xdma_desc" where
  "xdma_desc_set_source d source = d\<lparr>d_src_lo := PCI_DMA_L source, d_src_hi := PCI_DMA_H source\<rparr>"

subsection \<open>The control word keeps its magic number\<close>

text \<open>The fields of the control word: magic number, extra adjacent count, control bits.\<close>

definition desc_magic :: "xdma_desc \<Rightarrow> u32" where
  "desc_magic d = d_control d AND 0xFFFF0000"

definition desc_extra_adj :: "xdma_desc \<Rightarrow> nat" where
  "desc_extra_adj d = unat (drop_bit 8 (d_control d) AND 0xF)"

definition desc_flags :: "xdma_desc \<Rightarrow> u32" where
  "desc_flags d = d_control d AND LS_BYTE_MASK"

definition desc_next :: "xdma_desc \<Rightarrow> u64" where
  "desc_next d = join_u64 (d_next_hi d) (d_next_lo d)"

lemma LS_BYTE_mask: "LS_BYTE_MASK = mask 8"
  by (simp add: LS_BYTE_MASK_def mask_eq_exp_minus_1)

lemma no_high_bits: "f AND NOT LS_BYTE_MASK = 0 \<Longrightarrow> f AND LS_BYTE_MASK = f"
  by (metis and.right_neutral bit.conj_disj_distrib bit.disj_cancel_right or.right_neutral)

lemma control_upper_bits:
  assumes "f AND NOT LS_BYTE_MASK = 0" "n \<ge> 8"
  shows "\<not> bit f n"
proof
  assume "bit f n"
  moreover from assms(1) have "\<not> bit (f AND NOT LS_BYTE_MASK) n" by simp
  ultimately show False
    using assms(2) by (auto simp: bit_simps LS_BYTE_mask dest: bit_imp_le_length)
qed

lemma drop_bit_8_eqI:
  fixes a b :: u32
  assumes "\<And>n. n \<ge> 8 \<Longrightarrow> bit a n = bit b n"
  shows "drop_bit 8 a = drop_bit 8 b" "a AND 0xFFFF0000 = b AND 0xFFFF0000"
proof -
  show "drop_bit 8 a = drop_bit 8 b"
    by (rule bit_word_eqI) (simp add: bit_simps assms)
  have m: "(0xFFFF0000 :: u32) = push_bit 16 (mask 16)"
    by (simp add: mask_eq_exp_minus_1)
  show "a AND 0xFFFF0000 = b AND 0xFFFF0000"
    unfolding m by (rule bit_word_eqI) (auto simp: bit_simps assms)
qed

lemma nibble: "drop_bit 8 c AND 0xF = drop_bit 8 (c AND 0xF00)" for c :: u32
proof -
  have m: "(0xF00 :: u32) = push_bit 8 (mask 4)" "(0xF :: u32) = mask 4"
    by (simp_all add: mask_eq_exp_minus_1)
  show ?thesis
    unfolding m by (rule bit_word_eqI) (auto simp: bit_simps)
qed

lemma control_keeps:
  assumes "xdma_desc_control d f = Inr d'"
  shows "desc_magic d' = desc_magic d" "desc_extra_adj d' = desc_extra_adj d" "desc_flags d' = f"
    "desc_next d' = desc_next d" "d_bytes d' = d_bytes d"
proof -
  have f: "f AND NOT LS_BYTE_MASK = 0" and d': "d' = d\<lparr>d_control := (d_control d AND NOT LS_BYTE_MASK) OR f\<rparr>"
    using assms by (auto simp: xdma_desc_control_def bindr_eq_Inr)
  have b: "bit (d_control d') n = bit (d_control d) n" if "n \<ge> 8" for n
    using that control_upper_bits [OF f that]
    by (auto simp: d' bit_simps LS_BYTE_mask dest: bit_imp_le_length)
  show "desc_magic d' = desc_magic d" "desc_extra_adj d' = desc_extra_adj d"
    using drop_bit_8_eqI [of "d_control d'" "d_control d"] b
    by (simp_all add: desc_magic_def desc_extra_adj_def)
  show "desc_flags d' = f"
    using no_high_bits [OF f]
    by (simp add: desc_flags_def d' bit.conj_disj_distrib2 and.assoc)
  show "desc_next d' = desc_next d" "d_bytes d' = d_bytes d"
    by (simp_all add: d' desc_next_def)
qed

lemma control_clear_keeps:
  assumes "xdma_desc_control_clear d f = Inr d'"
  shows "desc_magic d' = desc_magic d" "desc_extra_adj d' = desc_extra_adj d"
    "desc_flags d' = desc_flags d AND NOT f"
proof -
  have f: "f AND NOT LS_BYTE_MASK = 0" and d': "d' = d\<lparr>d_control := d_control d AND NOT f\<rparr>"
    using assms by (auto simp: xdma_desc_control_clear_def bindr_eq_Inr)
  have b: "bit (d_control d') n = bit (d_control d) n" if "n \<ge> 8" for n
    using that control_upper_bits [OF f that]
    by (auto simp: d' bit_simps dest: bit_imp_le_length)
  show "desc_magic d' = desc_magic d" "desc_extra_adj d' = desc_extra_adj d"
    using drop_bit_8_eqI [of "d_control d'" "d_control d"] b
    by (simp_all add: desc_magic_def desc_extra_adj_def)
  show "desc_flags d' = desc_flags d AND NOT f"
    by (simp add: desc_flags_def d' ac_simps)
qed

lemma control_set_keeps:
  assumes "xdma_desc_control_set d f = Inr d'"
  shows "desc_magic d' = desc_magic d" "desc_extra_adj d' = desc_extra_adj d"
    "desc_flags d' = desc_flags d OR f"
proof -
  have f: "f AND NOT LS_BYTE_MASK = 0" and d': "d' = d\<lparr>d_control := d_control d OR f\<rparr>"
    using assms by (auto simp: xdma_desc_control_set_def bindr_eq_Inr)
  have b: "bit (d_control d') n = bit (d_control d) n" if "n \<ge> 8" for n
    using that control_upper_bits [OF f that] by (auto simp: d' bit_simps)
  show "desc_magic d' = desc_magic d" "desc_extra_adj d' = desc_extra_adj d"
    using drop_bit_8_eqI [of "d_control d'" "d_control d"] b
    by (simp_all add: desc_magic_def desc_extra_adj_def)
  show "desc_flags d' = desc_flags d OR f"
    using no_high_bits [OF f] by (simp add: desc_flags_def d' bit.conj_disj_distrib2)
qed

lemma control_ok_iff:
  "(\<exists>d'. xdma_desc_control d f = Inr d') \<longleftrightarrow> f AND NOT LS_BYTE_MASK = 0"
  "(\<exists>d'. xdma_desc_control_clear d f = Inr d') \<longleftrightarrow> f AND NOT LS_BYTE_MASK = 0"
  "(\<exists>d'. xdma_desc_control_set d f = Inr d') \<longleftrightarrow> f AND NOT LS_BYTE_MASK = 0"
  by (auto simp: xdma_desc_control_def xdma_desc_control_clear_def xdma_desc_control_set_def
      bindr_eq_Inr)

lemma join_0: "join_u64 0 0 = 0"
  by (simp add: join_u64_def)

lemma link_fields:
  "desc_magic (xdma_desc_link d s) = 0xAD4B0000" "desc_extra_adj (xdma_desc_link d s) = 0"
  "desc_flags (xdma_desc_link d s) = desc_flags d"
  "desc_next (xdma_desc_link d s) = (case s of None \<Rightarrow> 0 | Some b \<Rightarrow> b)"
  "d_bytes (xdma_desc_link d s) = d_bytes d"
proof -
  have c: "d_control (xdma_desc_link d s) = (d_control d AND 0x0000f0ff) OR DESC_MAGIC"
    by (simp add: xdma_desc_link_def Let_def)
  show "desc_magic (xdma_desc_link d s) = 0xAD4B0000"
    unfolding desc_magic_def c by (simp add: DESC_MAGIC_def bit.conj_disj_distrib2 and.assoc)
  have "drop_bit 8 (d_control (xdma_desc_link d s)) AND 0xF = 0"
    unfolding c nibble by (simp add: bit.conj_disj_distrib2 and.assoc DESC_MAGIC_def)
  then show "desc_extra_adj (xdma_desc_link d s) = 0"
    by (simp add: desc_extra_adj_def)
  show "desc_flags (xdma_desc_link d s) = desc_flags d"
    unfolding desc_flags_def c by (simp add: DESC_MAGIC_def LS_BYTE_MASK_def bit.conj_disj_distrib2 and.assoc)
  show "desc_next (xdma_desc_link d s) = (case s of None \<Rightarrow> 0 | Some b \<Rightarrow> b)"
    by (cases s) (simp_all add: desc_next_def xdma_desc_link_def Let_def join_0)
  show "d_bytes (xdma_desc_link d s) = d_bytes d"
    by (simp add: xdma_desc_link_def Let_def split: option.split)
qed

lemma adj_field:
  fixes c :: u32
  assumes "c AND 0xF00 = 0" "e < 16"
  shows "unat (drop_bit 8 (c OR push_bit 8 (of_nat e)) AND 0xF) = e"
    and "(c OR push_bit 8 (of_nat e)) AND 0xFFFF0000 = c AND 0xFFFF0000"
    and "(c OR push_bit 8 (of_nat e)) AND 0xFF = c AND 0xFF"
proof -
  let ?e = "of_nat e :: u32"
  have "unat ?e = e"
    using assms(2) by (simp add: unat_of_nat_small)
  then have "uint ?e < 2 ^ 4"
    using assms(2) by (simp add: uint_nat)
  then have "?e AND mask 4 = ?e" by (simp only: mask_eq_iff)
  then have e: "?e AND 0xF = ?e" by (simp add: mask_eq_exp_minus_1)
  have p: "push_bit 8 ?e = push_bit 8 (?e AND 0xF)" by (simp only: e)
  have m: "(0xF :: u32) = mask 4" by (simp add: mask_eq_exp_minus_1)
  have "drop_bit 8 (c OR push_bit 8 ?e) AND 0xF = drop_bit 8 (push_bit 8 (?e AND 0xF)) AND 0xF"
    unfolding e nibble bit.conj_disj_distrib2 assms(1) by simp
  also have "\<dots> = ?e AND 0xF"
    unfolding m by (rule bit_word_eqI) (auto simp: bit_simps)
  finally show "unat (drop_bit 8 (c OR push_bit 8 ?e) AND 0xF) = e"
    by (simp add: e \<open>unat ?e = e\<close>)
  show "(c OR push_bit 8 ?e) AND 0xFFFF0000 = c AND 0xFFFF0000"
    unfolding p by (simp add: push_bit_and bit.conj_disj_distrib2 and.assoc)
  show "(c OR push_bit 8 ?e) AND 0xFF = c AND 0xFF"
    unfolding p by (simp add: push_bit_and bit.conj_disj_distrib2 and.assoc)
qed

subsection \<open>Adjacent descriptors\<close>

text \<open>The count both routines store: what follows the next descriptor, at most 15.\<close>

definition extra_count :: "int \<Rightarrow> nat" where
  "extra_count a = (if a > 0 then nat (min (a - 1) MAX_EXTRA_ADJ) else 0)"

lemma extra_count_bounds: "extra_count a < 16" "a > 0 \<Longrightarrow> int (extra_count a) \<le> a - 1"
  by (auto simp: extra_count_def MAX_EXTRA_ADJ_def)

definition next_page_offset :: "xdma_desc \<Rightarrow> nat" where
  "next_page_offset d = unat (d_next_lo d AND 0xFFF)"

lemma next_page_offset_mod: "next_page_offset d = unat (d_next_lo d) mod 0x1000"
proof -
  have "(0xFFF :: u32) = mask 12" by (simp add: mask_eq_exp_minus_1)
  then have "d_next_lo d AND 0xFFF = take_bit 12 (d_next_lo d)"
    by (simp add: take_bit_eq_mask)
  then show ?thesis
    by (simp add: next_page_offset_def take_bit_eq_mod unat_mod)
qed

lemma max_adj_4k:
  assumes "next_page_offset d mod 32 = 0"
  shows "unat ((0x1000 - (d_next_lo d AND 0xFFF)) div 32 - 1 :: u32) = 127 - next_page_offset d div 32"
proof -
  define x where "x = d_next_lo d AND 0xFFF"
  have x: "unat x = next_page_offset d" by (simp add: x_def next_page_offset_def)
  have lt: "unat x < 0x1000" by (simp add: x next_page_offset_mod)
  then have "x \<le> 0x1000" by (simp add: word_le_nat_alt)
  then have "unat (0x1000 - x) = 0x1000 - unat x" by (simp add: unat_sub)
  then have q: "unat ((0x1000 - x) div 32) = (0x1000 - unat x) div 32"
    by (simp add: unat_div)
  have "(0x1000 - unat x) div 32 = 128 - unat x div 32" "unat x div 32 < 128"
    using assms lt by (auto simp: x)
  with q have "unat ((0x1000 - x) div 32) = 128 - unat x div 32" "1 \<le> unat ((0x1000 - x) div 32)"
    by simp_all
  then show ?thesis
    unfolding x_def [symmetric] x [symmetric]
    by (simp add: unat_sub word_le_nat_alt)
qed

lemma xdma_desc_adjacent_eq:
  assumes "next_page_offset d mod 32 = 0"
  shows "xdma_desc_adjacent d a = d\<lparr>d_control := ((d_control d AND 0xf0ff) OR 0xAD4B0000)
      OR push_bit 8 (of_nat (min (extra_count a) (127 - next_page_offset d div 32)))\<rparr>"
proof -
  let ?m = "(0x1000 - (d_next_lo d AND 0xFFF)) div 32 - 1 :: u32"
  let ?q = "127 - next_page_offset d div 32"
  have m: "unat ?m = ?q" by (rule max_adj_4k [OF assms])
  have q: "?q < 128" by simp
  have s: "sint ?m = int ?q"
    using m q by (simp add: sint_uint uint_nat signed_take_bit_int_eq_self)
  have g: "(of_nat e :: u32) > ?m \<longleftrightarrow> e > ?q" if "e < 16" for e
    using that m by (simp add: word_less_nat_alt unat_of_nat_small)
  show ?thesis
  proof (cases "a > 0")
    case True
    then obtain e where e: "extra_count a = e" "e < 16"
        "(if a - 1 > MAX_EXTRA_ADJ then MAX_EXTRA_ADJ else a - 1) = int e"
      by (auto simp: extra_count_def MAX_EXTRA_ADJ_def split: if_splits)
    show ?thesis
      unfolding xdma_desc_adjacent_def Let_def e(1) e(3)
      using True g [OF e(2)] s
      by (simp add: or.assoc)
  qed (simp add: xdma_desc_adjacent_def Let_def extra_count_def or.assoc)
qed

lemma adjacent_fields:
  assumes "next_page_offset d mod 32 = 0"
  shows "desc_extra_adj (xdma_desc_adjacent d a) = min (extra_count a) (127 - next_page_offset d div 32)"
    and "desc_magic (xdma_desc_adjacent d a) = 0xAD4B0000"
    and "desc_flags (xdma_desc_adjacent d a) = desc_flags d"
    and "desc_next (xdma_desc_adjacent d a) = desc_next d"
    and "d_bytes (xdma_desc_adjacent d a) = d_bytes d"
proof -
  let ?c = "(d_control d AND 0xf0ff) OR 0xAD4B0000"
  let ?e = "min (extra_count a) (127 - next_page_offset d div 32)"
  have z: "?c AND 0xF00 = 0" by (simp add: bit.conj_disj_distrib2 and.assoc)
  have e: "?e < 16" using extra_count_bounds(1) [of a] by simp
  note f = adj_field [OF z e] and eq = xdma_desc_adjacent_eq [OF assms, of a]
  show "desc_extra_adj (xdma_desc_adjacent d a) = ?e"
    unfolding desc_extra_adj_def eq using f(1) by simp
  show "desc_magic (xdma_desc_adjacent d a) = 0xAD4B0000"
    unfolding desc_magic_def eq using f(2) by (simp add: bit.conj_disj_distrib2 and.assoc)
  show "desc_flags (xdma_desc_adjacent d a) = desc_flags d"
    unfolding desc_flags_def eq LS_BYTE_MASK_def using f(3) by (simp add: bit.conj_disj_distrib2 and.assoc)
  show "desc_next (xdma_desc_adjacent d a) = desc_next d" "d_bytes (xdma_desc_adjacent d a) = d_bytes d"
    unfolding eq by (simp_all add: desc_next_def)
qed

lemma adjacent_within_page:
  assumes "next_page_offset d mod 32 = 0"
  shows "next_page_offset d + 32 * (desc_extra_adj (xdma_desc_adjacent d a) + 1) \<le> 0x1000"
proof -
  have "next_page_offset d div 32 \<le> 127"
    by (simp add: next_page_offset_mod div_le_mono [of _ 4095 32, simplified] flip: less_Suc_eq_le)
  moreover from assms obtain q where "next_page_offset d = 32 * q" by auto
  moreover have "desc_extra_adj (xdma_desc_adjacent d a) \<le> 127 - next_page_offset d div 32"
    unfolding adjacent_fields(1) [OF assms] by simp
  ultimately show ?thesis by simp
qed

subsection \<open>What allocation returns\<close>

definition chained_desc :: "xdma_desc \<Rightarrow> u64 \<Rightarrow> nat \<Rightarrow> xdma_desc" where
  "chained_desc d next_bus e = d\<lparr>d_next_lo := PCI_DMA_L next_bus, d_next_hi := PCI_DMA_H next_bus,
     d_bytes := 0, d_control := DESC_MAGIC OR push_bit 8 (of_nat e)\<rparr>"

lemma chained_desc_fields:
  assumes "e < 16"
  shows "desc_next (chained_desc d b e) = b" "desc_extra_adj (chained_desc d b e) = e"
    "desc_magic (chained_desc d b e) = 0xAD4B0000" "desc_flags (chained_desc d b e) = 0"
    "d_bytes (chained_desc d b e) = 0"
  using adj_field [of DESC_MAGIC e] assms
  by (simp_all add: chained_desc_def desc_next_def desc_extra_adj_def desc_magic_def desc_flags_def
      DESC_MAGIC_def LS_BYTE_MASK_def)

lemma desc_chain_length [simp]: "length (desc_chain k i adj bus ds) = length ds"
  by (induction k i adj bus ds rule: desc_chain.induct) (simp_all add: Let_def)

lemma desc_chain_nth:
  assumes "i + k \<le> length ds" "j < length ds" "adj \<ge> int k"
  shows "desc_chain k i adj bus ds ! j =
    (if i \<le> j \<and> j < i + k
     then chained_desc (ds ! j) (bus + of_nat (DESC_SIZE * (j - i + 1))) (extra_count (adj - int (j - i)))
     else ds ! j)"
  using assms
proof (induction k arbitrary: i adj bus ds)
  case (Suc k)
  let ?d = "chained_desc (ds ! i) (bus + of_nat DESC_SIZE) (extra_count adj)"
  have e: "(of_int (if adj > 0 then (if adj - 1 > MAX_EXTRA_ADJ then MAX_EXTRA_ADJ else adj - 1) else 0) :: u32)
      = of_nat (extra_count adj)"
    by (simp add: extra_count_def MAX_EXTRA_ADJ_def)
  have "desc_chain (Suc k) i adj bus ds = desc_chain k (Suc i) (adj - 1) (bus + of_nat DESC_SIZE) (ds[i := ?d])"
    using Suc.prems(3) unfolding desc_chain.simps Let_def e chained_desc_def by simp
  then have "desc_chain (Suc k) i adj bus ds ! j = (if Suc i \<le> j \<and> j < Suc i + k
     then chained_desc (ds[i := ?d] ! j) (bus + of_nat DESC_SIZE + of_nat (DESC_SIZE * (j - Suc i + 1)))
       (extra_count (adj - 1 - int (j - Suc i)))
     else ds[i := ?d] ! j)"
    using Suc.IH [of "Suc i" "ds[i := ?d]" "adj - 1" "bus + of_nat DESC_SIZE"] Suc.prems by simp
  also have "\<dots> = (if i \<le> j \<and> j < i + Suc k
     then chained_desc (ds ! j) (bus + of_nat (DESC_SIZE * (j - i + 1))) (extra_count (adj - int (j - i)))
     else ds ! j)"
  proof (cases "Suc i \<le> j")
    case True
    then obtain m where j: "j = Suc i + m" using le_Suc_ex by blast
    then have eqs: "bus + of_nat DESC_SIZE + of_nat (DESC_SIZE * (j - Suc i + 1)) =
        bus + of_nat (DESC_SIZE * (j - i + 1))" "adj - 1 - int (j - Suc i) = adj - int (j - i)"
      by (simp_all add: algebra_simps)
    show ?thesis unfolding eqs using True Suc.prems by (auto simp: nth_list_update)
  next
    case False
    with Suc.prems show ?thesis by (cases "i = j") (auto simp: nth_list_update)
  qed
  finally show ?case .
qed auto

definition bus_at :: "u64 \<Rightarrow> nat \<Rightarrow> u64" where
  "bus_at bus i = bus + of_nat (DESC_SIZE * i)"

lemma alloc_nth:
  assumes "xdma_desc_alloc fresh number w = Inr (Some (ds, bus), w')"
  shows "length ds = nat number" "number \<ge> 1"
    "i < nat number - 1 \<Longrightarrow>
      ds ! i = chained_desc (fresh i) (bus_at bus (Suc i)) (extra_count (number - 1 - int i))"
    "ds ! (nat number - 1) = (fresh (nat number - 1))\<lparr>d_next_lo := 0, d_next_hi := 0, d_bytes := 0,
       d_control := DESC_MAGIC\<rparr>"
proof -
  have n: "number \<ge> 1"
    and ds: "ds = (desc_chain (nat number - 1) 0 (number - 1) bus (map fresh [0..<nat number]))
        [nat number - 1 := (desc_chain (nat number - 1) 0 (number - 1) bus (map fresh [0..<nat number]) !
           (nat number - 1))\<lparr>d_next_lo := 0, d_next_hi := 0, d_bytes := 0, d_control := DESC_MAGIC\<rparr>]"
    using assms by (auto simp: xdma_desc_alloc_def bindr_eq_Inr Let_def split: prod.splits if_splits)
  show "number \<ge> 1" by (rule n)
  show "length ds = nat number" unfolding ds by simp
  have nth: "desc_chain (nat number - 1) 0 (number - 1) bus (map fresh [0..<nat number]) ! j =
      (if j < nat number - 1
       then chained_desc (fresh j) (bus_at bus (Suc j)) (extra_count (number - 1 - int j))
       else fresh j)" if "j < nat number" for j
    using that n desc_chain_nth [of 0 "nat number - 1" "map fresh [0..<nat number]" j "number - 1" bus]
    by (simp add: bus_at_def)
  show "ds ! i = chained_desc (fresh i) (bus_at bus (Suc i)) (extra_count (number - 1 - int i))"
    if "i < nat number - 1"
    using that nth [of i] unfolding ds by simp
  show "ds ! (nat number - 1) = (fresh (nat number - 1))\<lparr>d_next_lo := 0, d_next_hi := 0, d_bytes := 0,
       d_control := DESC_MAGIC\<rparr>"
    using n nth [of "nat number - 1"] unfolding ds by simp
qed

lemma alloc_no_fault: "number \<ge> 1 \<Longrightarrow> \<exists>r. xdma_desc_alloc fresh number w = Inr r"
  by (auto simp: xdma_desc_alloc_def Let_def split: prod.splits)

text \<open>
  C5: A successful allocation is one chain: every descriptor carries the magic number, no
  flags and no length; each but the last points at the bus address of its successor in
  the array; the last points nowhere; and the adjacent count of a descriptor never
  reaches past the end of the array nor above the 15 the engine can prefetch.
\<close>

theorem xdma_desc_alloc_chain:
  assumes "xdma_desc_alloc fresh number w = Inr (Some (ds, bus), w')" "i < length ds"
  shows "desc_magic (ds ! i) = 0xAD4B0000 \<and> desc_flags (ds ! i) = 0 \<and> d_bytes (ds ! i) = 0
    \<and> desc_next (ds ! i) = (if i + 1 < length ds then bus_at bus (i + 1) else 0)
    \<and> desc_extra_adj (ds ! i) = min (length ds - i - 2) 15
    \<and> length ds = nat number"
proof (cases "i < nat number - 1")
  case True
  note f = chained_desc_fields [OF extra_count_bounds(1), of "fresh i" "bus_at bus (Suc i)" "number - 1 - int i"]
  have "extra_count (number - 1 - int i) = min (nat number - i - 2) 15"
    using True by (auto simp: extra_count_def MAX_EXTRA_ADJ_def min_def)
  then show ?thesis
    using True alloc_nth(1) [OF assms(1)] alloc_nth(3) [OF assms(1) True] f by auto
next
  case False
  then have "i = nat number - 1" using assms alloc_nth(1) [OF assms(1)] by simp
  with False show ?thesis
    using alloc_nth(1,2) [OF assms(1)] alloc_nth(4) [OF assms(1)]
    by (auto simp: desc_magic_def desc_flags_def desc_next_def desc_extra_adj_def join_0 DESC_MAGIC_def
        LS_BYTE_MASK_def)
qed

definition zero_desc :: xdma_desc where
  "zero_desc = \<lparr>d_control = 0, d_bytes = 0, d_src_lo = 0, d_src_hi = 0, d_dst_lo = 0, d_dst_hi = 0,
     d_next_lo = 0, d_next_hi = 0\<rparr>"

theorem xdma_desc_alloc_chain_witness:
  "\<exists>ds w'. xdma_desc_alloc (\<lambda>_. zero_desc) 3 idle_world = Inr (Some (ds, 0x1000), w')
    \<and> desc_next (ds ! 0) = 0x1020 \<and> desc_extra_adj (ds ! 0) = 1 \<and> desc_next (ds ! 2) = 0"
proof -
  have "run_ok (\<lambda>(r, _). case r of Some (ds, bus) \<Rightarrow> length ds = 3 \<and> bus = 0x1000 | None \<Rightarrow> False)
      (xdma_desc_alloc (\<lambda>_. zero_desc) 3 idle_world)"
    by code_simp
  then obtain ds w' where r: "xdma_desc_alloc (\<lambda>_. zero_desc) 3 idle_world = Inr (Some (ds, 0x1000), w')"
      "length ds = 3"
    by (auto elim!: run_okE split: option.splits)
  show ?thesis
    using r xdma_desc_alloc_chain [OF r(1), of 0] xdma_desc_alloc_chain [OF r(1), of 2]
    by (auto simp: bus_at_def DESC_SIZE_def)
qed

text \<open>The loops over the descriptors of a transfer.\<close>

definition RESULT_SIZE :: nat where "RESULT_SIZE = 32"

definition set_result_addresses :: "nat \<Rightarrow> u64 \<Rightarrow> xdma_desc list \<Rightarrow> xdma_desc list run" where
  "set_result_addresses desc_num result_bus =
     for_loop desc_num 0 (\<lambda>i. array_mod i (\<lambda>d.
       Inr (xdma_desc_set_source d (result_bus + of_nat (RESULT_SIZE * i)))))"

definition set_all_control :: "nat \<Rightarrow> u32 \<Rightarrow> xdma_desc list \<Rightarrow> xdma_desc list run" where
  "set_all_control desc_num control =
     for_loop desc_num 0 (\<lambda>i. array_mod i (\<lambda>d.
       bindr (xdma_desc_control_clear d LS_BYTE_MASK) (\<lambda>d. xdma_desc_control_set d control)))"

definition set_adjacent :: "nat \<Rightarrow> xdma_desc list \<Rightarrow> xdma_desc list run" where
  "set_adjacent desc_num =
     for_loop desc_num 0 (\<lambda>i. array_mod i (\<lambda>d.
       Inr (xdma_desc_adjacent d (int desc_num - int i - 1))))"

lemma set_result_addresses_eq:
  "desc_num \<le> length ds \<Longrightarrow> set_result_addresses desc_num bus ds =
     Inr (map (\<lambda>j. xdma_desc_set_source (ds ! j) (bus + of_nat (RESULT_SIZE * j))) [0..<desc_num]
       @ drop desc_num ds)"
  unfolding set_result_addresses_def
  by (subst for_loop_array [where h = "\<lambda>j d. xdma_desc_set_source d (bus + of_nat (RESULT_SIZE * j))"]) simp_all

lemma set_adjacent_eq:
  "desc_num \<le> length ds \<Longrightarrow> set_adjacent desc_num ds =
     Inr (map (\<lambda>j. xdma_desc_adjacent (ds ! j) (int desc_num - int j - 1)) [0..<desc_num]
       @ drop desc_num ds)"
  unfolding set_adjacent_def
  by (subst for_loop_array [where h = "\<lambda>j d. xdma_desc_adjacent d (int desc_num - int j - 1)"]) simp_all

lemma set_all_control_eq:
  assumes "desc_num \<le> length ds" "control AND NOT LS_BYTE_MASK = 0"
  shows "set_all_control desc_num control ds =
     Inr (map (\<lambda>j. (ds ! j)\<lparr>d_control := (d_control (ds ! j) AND NOT LS_BYTE_MASK) OR control\<rparr>) [0..<desc_num]
       @ drop desc_num ds)"
  unfolding set_all_control_def
  by (subst for_loop_array [where
      h = "\<lambda>j d. d\<lparr>d_control := (d_control d AND NOT LS_BYTE_MASK) OR control\<rparr>"])
    (use assms in \<open>simp_all add: xdma_desc_control_clear_def xdma_desc_control_set_def\<close>)

text \<open>
  C4: With the next pointer 32-byte aligned, as every descriptor of a chain is, the block
  the engine prefetches (the next descriptor and the adjacent ones after it) lies within
  one 4 KB page and holds no more descriptors than the caller says there are.
\<close>

theorem xdma_desc_adjacent_page:
  assumes "next_page_offset d mod 32 = 0"
  shows "next_page_offset d + 32 * (desc_extra_adj (xdma_desc_adjacent d a) + 1) \<le> 0x1000
    \<and> (a > 0 \<longrightarrow> int (desc_extra_adj (xdma_desc_adjacent d a)) < a)
    \<and> desc_next (xdma_desc_adjacent d a) = desc_next d
    \<and> desc_flags (xdma_desc_adjacent d a) = desc_flags d"
proof -
  have "int (desc_extra_adj (xdma_desc_adjacent d a)) < a" if "a > 0"
    using extra_count_bounds(2) [OF that] adjacent_fields(1) [OF assms, of a] by linarith
  then show ?thesis
    using adjacent_within_page [OF assms] adjacent_fields [OF assms] by simp
qed

theorem xdma_desc_adjacent_page_witness:
  "desc_extra_adj (xdma_desc_adjacent (zero_desc\<lparr>d_next_lo := 0xFE0\<rparr>) 20) = 0"
  using xdma_desc_adjacent_page [of "zero_desc\<lparr>d_next_lo := 0xFE0\<rparr>" 20]
  by (simp add: next_page_offset_mod)

end
