(* ===== verification/Xdma_Sgm.thy ===== *)
theory Xdma_Sgm
  imports Xdma_Desc
begin

unbundle bit_operations_syntax

text \<open>
  The scatter-gather mapper of driver/xdma-sgm.c: it pins the pages under a user buffer,
  or looks up those of a vmalloc()ed one, and describes the buffer as a scatterlist of
  one entry per page. The memory allocator, \<open>get_user_pages_fast\<close>, \<open>vmalloc_to_page\<close> and
  \<open>put_page\<close> are kernel services; their calls are events of the log.

  The lemmas compute the page arithmetic on natural numbers, evaluate the loops that fill
  the scatterlist, and show that a filled scatterlist covers the buffer byte for byte.
  The three theorems give the outcome of pinning, of mapping and of releasing.
\<close>

subsection \<open>The scatter-gather mapper\<close>

text \<open>
  A page pointer is a number, 0 for null. An entry of the scatterlist names a page and the
  bytes of it that belong to the buffer. \<open>get_user_pages_fast\<close> fills the page array with
  pages of the kernel's choosing, \<open>pinned i\<close> for index \<open>i\<close>.
\<close>

record sg_entry =
  sg_page :: nat
  sg_length :: u32
  sg_offset :: u32

record sg_mapping =
  sgm_sgl :: "sg_entry list"
  sgm_pages :: "nat list"
  max_pages :: int
  mapped_pages :: int

definition EINVAL :: int where "EINVAL = 22"
definition ENOMEM :: int where "ENOMEM = 12"

definition sg_none :: sg_entry where
  "sg_none = \<lparr>sg_page = 0, sg_length = 0, sg_offset = 0\<rparr>"

definition sg_set_page :: "nat \<Rightarrow> u32 \<Rightarrow> u32 \<Rightarrow> sg_entry" where
  "sg_set_page page len off = \<lparr>sg_page = page, sg_length = len, sg_offset = off\<rparr>"

definition to_int :: "u64 \<Rightarrow> int" where
  "to_int x = sint (ucast x :: s32)"

definition sg_create_mapper :: "u64 \<Rightarrow> world \<Rightarrow> sg_mapping option \<times> world" where
  "sg_create_mapper max_len w =
     (if max_len = 0 then (None, w)
      else let (p, w) = kcall (Kzalloc 1) w in
        if p = 0 then (None, w)
        else let n = to_int (max_len div of_nat PAGE_SIZE + 2);
                 (pages, w) = kcall (Kzalloc (nat n)) w in
          if pages = 0 then (None, kcall0 (Kfree 0) w)
          else let (sgl, w) = kcall (Kzalloc (nat n)) w in
            if sgl = 0 then (None, kcall0 (Kfree 0) (kcall0 (Kfree 1) w))
            else (Some \<lparr>sgm_sgl = replicate (nat n) sg_none, sgm_pages = replicate (nat n) 0,
                        max_pages = n, mapped_pages = 0\<rparr>, w))"

definition sg_destroy_mapper :: "sg_mapping \<Rightarrow> world \<Rightarrow> world run" where
  "sg_destroy_mapper sgm w =
     bindr (bug_on (mapped_pages sgm > 0)) (\<lambda>_.
       Inr (kcall0 (Kfree 0) (kcall0 (Kfree 1) (kcall0 (Kfree 2) w))))"

subsection \<open>Building the scatterlist\<close>

definition page_number :: "u64 \<Rightarrow> u64" where
  "page_number a = drop_bit 12 (a AND NOT 0xFFF)"

definition offset_in_page :: "u64 \<Rightarrow> u32" where
  "offset_in_page a = ucast (a AND 0xFFF)"

definition nr_pages_of :: "u64 \<Rightarrow> u64 \<Rightarrow> int" where
  "nr_pages_of start count = to_int (page_number (start + count - 1) - page_number start + 1)"

text \<open>\<open>sg_init_table\<close> clears the first \<open>n\<close> entries.\<close>

definition array_room :: "nat \<Rightarrow> 'a list \<Rightarrow> unit run" where
  "array_room n xs = (if n \<le> length xs then Inr () else Inl OutOfBounds)"

definition sg_init_table :: "nat \<Rightarrow> sg_entry list \<Rightarrow> sg_entry list" where
  "sg_init_table n sgl = replicate (min n (length sgl)) sg_none @ drop n sgl"

definition populate_middle :: "nat list \<Rightarrow> nat \<Rightarrow> sg_entry list \<times> u64 \<Rightarrow> (sg_entry list \<times> u64) run" where
  "populate_middle pages i s =
     (case s of (sgl, count) \<Rightarrow>
        bindr (bug_on (unat count < PAGE_SIZE)) (\<lambda>_.
        bindr (array_get pages i) (\<lambda>p.
        bindr (array_upd i (\<lambda>_. sg_set_page p (of_nat PAGE_SIZE) 0) sgl) (\<lambda>sgl.
          Inr (sgl, count - of_nat PAGE_SIZE)))))"

text \<open>
  The second half of \<open>sgm_get_user_pages\<close> and of \<open>sgm_kernel_pages\<close>: the first page from
  its offset on, the pages between, the last page.
\<close>

definition sgm_populate :: "nat list \<Rightarrow> u64 \<Rightarrow> u64 \<Rightarrow> nat \<Rightarrow> sg_entry list \<Rightarrow> sg_entry list run" where
  "sgm_populate pages start count nr_pages sgl =
     bindr (array_get pages 0) (\<lambda>p0.
     bindr (array_upd 0 (\<lambda>_. sg_set_page p0 0 (offset_in_page start)) sgl) (\<lambda>sgl.
     if nr_pages > 1 then
       let len0 = of_nat PAGE_SIZE - offset_in_page start in
       bindr (array_upd 0 (\<lambda>e. e\<lparr>sg_length := len0\<rparr>) sgl) (\<lambda>sgl.
       bindr (for_loop (nr_pages - 2) 1 (populate_middle pages) (sgl, count - ucast len0)) (\<lambda>(sgl, count).
       bindr (bug_on (unat count > PAGE_SIZE)) (\<lambda>_.
       bindr (array_get pages (nr_pages - 1)) (\<lambda>p.
         array_upd (nr_pages - 1) (\<lambda>_. sg_set_page p (ucast count) 0) sgl))))
     else array_upd 0 (\<lambda>e. e\<lparr>sg_length := ucast count\<rparr>) sgl))"

fun put_pages :: "nat list \<Rightarrow> world \<Rightarrow> world" where
  "put_pages [] w = w"
| "put_pages (p # ps) w = put_pages ps (kcall0 (Put_page p) w)"

fun dirty_pages :: "nat list \<Rightarrow> world \<Rightarrow> world" where
  "dirty_pages [] w = w"
| "dirty_pages (p # ps) w = dirty_pages ps (kcall0 (Set_page_dirty p) w)"

fun flush_pages :: "nat list \<Rightarrow> world \<Rightarrow> world" where
  "flush_pages [] w = w"
| "flush_pages (p # ps) w = flush_pages ps (kcall0 (Flush_dcache_page p) w)"

text \<open>
  \<open>get_user_pages_fast\<close> writes the page pointers it pinned; the pages before the last are
  cleared first. A count of pages below \<open>nr_pages\<close> releases what was pinned.
\<close>

definition sgm_get_user_pages ::
  "(nat \<Rightarrow> nat) \<Rightarrow> sg_mapping \<Rightarrow> u64 \<Rightarrow> u64 \<Rightarrow> world \<Rightarrow> (int \<times> sg_mapping \<times> world) run" where
  "sgm_get_user_pages pinned sgm start count w =
     (let nr_pages = nr_pages_of start count in
      bindr (bug_on (mapped_pages sgm > 0)) (\<lambda>_.
      if start + count < start then Inr (- EINVAL, sgm, w)
      else if nr_pages > max_pages sgm then Inr (- EINVAL, sgm, w)
      else if count = 0 then Inr (0, sgm, w)
      else bindr (array_room (nat nr_pages) (sgm_pages sgm)) (\<lambda>_.
        let n = nat nr_pages;
            sgl = sg_init_table n (sgm_sgl sgm);
            (rc, w) = kcall (Get_user_pages (unat start) n) w;
            got = nat (min rc nr_pages);
            pages = map pinned [0..<got] @ replicate (n - 1 - got) 0
              @ drop (max got (n - 1)) (sgm_pages sgm);
            sgm = sgm\<lparr>sgm_sgl := sgl, sgm_pages := pages\<rparr>
        in if rc < nr_pages then
             let m = (if rc > 0 then rc else mapped_pages sgm);
                 w = put_pages (take (nat m) pages) w
             in Inr (- ENOMEM, sgm\<lparr>mapped_pages := 0\<rparr>, w)
           else bindr (bug_on (rc \<noteq> nr_pages)) (\<lambda>_.
             let w = flush_pages (take n pages) w in
             bindr (sgm_populate pages start count n sgl) (\<lambda>sgl.
               Inr (nr_pages, sgm\<lparr>sgm_sgl := sgl, mapped_pages := rc\<rparr>, w))))))"

text \<open>The loop that asks for the pages of a vmalloc()ed buffer: \<open>None\<close> when one is missing.\<close>

definition kernel_page ::
  "u64 \<Rightarrow> nat \<Rightarrow> (nat list \<times> bool) \<times> world \<Rightarrow> ((nat list \<times> bool) \<times> world) run" where
  "kernel_page start i s =
     (case s of ((pages, failed), w) \<Rightarrow>
       if failed then Inr s
       else let (p, w) = kcall (Vmalloc_to_page (start + of_nat (PAGE_SIZE * i))) w in
         bindr (array_upd i (\<lambda>_. nat p) pages) (\<lambda>pages.
         if nat p = 0 then Inr ((pages, True), w)
         else let (high, w) = kcall (Page_high_mem (nat p)) w in
           bindr (bug_on (high \<noteq> 0)) (\<lambda>_. Inr ((pages, False), w))))"

definition sgm_kernel_pages ::
  "sg_mapping \<Rightarrow> u64 \<Rightarrow> u64 \<Rightarrow> world \<Rightarrow> (int \<times> sg_mapping \<times> world) run" where
  "sgm_kernel_pages sgm start count w =
     (let nr_pages = nr_pages_of start count in
      bindr (bug_on (mapped_pages sgm > 0)) (\<lambda>_.
      if start + count < start then Inr (- EINVAL, sgm, w)
      else if nr_pages > max_pages sgm then Inr (- EINVAL, sgm, w)
      else if count = 0 then Inr (0, sgm, w)
      else bindr (array_room (nat nr_pages) (sgm_pages sgm)) (\<lambda>_.
        let n = nat nr_pages; sgl = sg_init_table n (sgm_sgl sgm) in
        bindr (for_loop n 0 (kernel_page start) ((sgm_pages sgm, False), w)) (\<lambda>((pages, failed), w).
        let sgm = sgm\<lparr>sgm_sgl := sgl, sgm_pages := pages\<rparr> in
        if failed then Inr (- ENOMEM, sgm\<lparr>mapped_pages := 0\<rparr>, w)
        else let w = flush_pages (take n pages) w in
          bindr (sgm_populate pages start count n sgl) (\<lambda>sgl.
            Inr (nr_pages, sgm\<lparr>sgm_sgl := sgl, mapped_pages := nr_pages\<rparr>, w))))))"

definition sgm_dirty_pages :: "sg_mapping \<Rightarrow> world \<Rightarrow> world" where
  "sgm_dirty_pages sgm w = dirty_pages (take (nat (mapped_pages sgm)) (sgm_pages sgm)) w"

definition sgm_put_user_pages :: "sg_mapping \<Rightarrow> bool \<Rightarrow> world \<Rightarrow> sg_mapping \<times> world" where
  "sgm_put_user_pages sgm dirtied w =
     (let w = (if dirtied then sgm_dirty_pages sgm w else w);
          w = put_pages (take (nat (mapped_pages sgm)) (sgm_pages sgm)) w
      in (sgm\<lparr>mapped_pages := 0\<rparr>, w))"

subsection \<open>What the scatterlist describes\<close>

lemma array_room_in [simp]: "n \<le> length xs \<Longrightarrow> array_room n xs = Inr ()"
  by (simp add: array_room_def)

lemma page_number_unat: "unat (page_number a) = unat a div 4096"
proof -
  have m: "(0xFFF :: u64) = mask 12" by (simp add: mask_eq_exp_minus_1)
  have "page_number a = drop_bit 12 a"
    unfolding page_number_def m by (rule bit_word_eqI) (auto simp: bit_simps dest: bit_imp_le_length)
  then show ?thesis by (simp add: drop_bit_eq_div unat_div)
qed

lemma offset_in_page_unat: "unat (offset_in_page a) = unat a mod 4096"
proof -
  have m: "(0xFFF :: u64) = mask 12" by (simp add: mask_eq_exp_minus_1)
  have u: "unat (a AND 0xFFF) = unat a mod 4096"
    unfolding m unat_and_mask by simp
  have "unat a mod 4096 < 4096" by simp
  with u have "unat (a AND 0xFFF) < 2 ^ 32" by simp
  with u show ?thesis
    unfolding offset_in_page_def by (subst unat_ucast_small) simp_all
qed

lemma to_int_small: "unat x < 2 ^ 31 \<Longrightarrow> to_int x = int (unat x)"
  unfolding to_int_def by (subst sint_small) (simp_all add: unat_ucast_small)

text \<open>The pages a buffer touches, counted without wrap-around.\<close>

definition page_count :: "u64 \<Rightarrow> u64 \<Rightarrow> nat" where
  "page_count start count = (unat start + unat count - 1) div 4096 - unat start div 4096 + 1"

lemma nr_pages_eq:
  assumes "0 < unat count" "unat start + unat count < 2 ^ 64" "unat count < 2 ^ 40"
  shows "nr_pages_of start count = int (page_count start count)"
    and "page_count start count \<le> unat count div 4096 + 2"
proof -
  have e: "unat (start + count - 1) = unat start + unat count - 1"
    using assms unat_add_small [of start count]
    by (subst unat_minus_one) (auto simp: word_less_nat_alt unat_eq_zero)
  have le: "unat start div 4096 \<le> (unat start + unat count - 1) div 4096"
    using assms(1) by (intro div_le_mono) simp
  show b: "page_count start count \<le> unat count div 4096 + 2"
    using div_add_le [of "unat start" "unat count" 4096]
      div_le_mono [of "unat start + unat count - 1" "unat start + unat count" 4096]
    unfolding page_count_def by linarith
  have "page_number start \<le> page_number (start + count - 1)"
    using le by (simp add: word_le_nat_alt page_number_unat e)
  then have "unat (page_number (start + count - 1) - page_number start)
      = (unat start + unat count - 1) div 4096 - unat start div 4096"
    by (simp add: unat_sub page_number_unat e)
  moreover have "page_count start count < 2 ^ 31"
    using b assms(3) by simp
  ultimately have "unat (page_number (start + count - 1) - page_number start + 1) = page_count start count"
    by (subst unat_add_small) (simp_all add: page_count_def)
  then show "nr_pages_of start count = int (page_count start count)"
    using \<open>page_count start count < 2 ^ 31\<close> by (simp add: nr_pages_of_def to_int_small)
qed

lemma page_count_span:
  assumes "0 < unat count"
  shows "(page_count start count - 1) * 4096 < unat start mod 4096 + unat count"
    "unat start mod 4096 + unat count \<le> page_count start count * 4096"
    "0 < page_count start count"
proof -
  let ?s = "unat start" and ?n = "unat count"
  obtain q r where e: "?s + ?n - 1 = q * 4096 + r" "r < 4096" "(?s + ?n - 1) div 4096 = q"
    using mod_less_divisor [of 4096 "?s + ?n - 1"] by (metis div_mult_mod_eq zero_less_numeral)
  have "?s div 4096 \<le> (?s + ?n - 1) div 4096"
    using assms by (intro div_le_mono) linarith
  then have "?s div 4096 \<le> q" by (simp only: e(3))
  then obtain m where m: "q = ?s div 4096 + m" using le_Suc_ex by blast
  have c: "page_count start count = m + 1"
    unfolding page_count_def e(3) by (simp add: m)
  have "g * 4096 + x + ?n - 1 = (g + m) * 4096 + r \<Longrightarrow> x + ?n = m * 4096 + r + 1" for g x
    using assms by arith
  from this [of "?s div 4096" "?s mod 4096"] have "?s mod 4096 + ?n = m * 4096 + r + 1"
    using e(1) by (simp only: m div_mult_mod_eq)
  with e(2) show "(page_count start count - 1) * 4096 < ?s mod 4096 + ?n"
      "?s mod 4096 + ?n \<le> page_count start count * 4096" "0 < page_count start count"
    unfolding c by simp_all
qed

text \<open>
  The addresses an entry list stands for, when entry \<open>i\<close> lies in the page \<open>i\<close> pages after
  \<open>first\<close>.
\<close>

definition entry_bytes :: "nat \<Rightarrow> sg_entry \<Rightarrow> nat list" where
  "entry_bytes page e =
     [page * 4096 + unat (sg_offset e)..<page * 4096 + unat (sg_offset e) + unat (sg_length e)]"

definition segment_bytes :: "nat \<Rightarrow> sg_entry list \<Rightarrow> nat list" where
  "segment_bytes first es = concat (map (\<lambda>i. entry_bytes (first + i) (es ! i)) [0..<length es])"

lemma upt_append: "a \<le> b \<Longrightarrow> b \<le> c \<Longrightarrow> [a..<b] @ [b..<c] = [a..<c]"
  by (metis le_add_diff_inverse upt_add_eq_append)

lemma contiguous_concat:
  assumes "\<And>i. i < m \<Longrightarrow> b i \<le> b (Suc i)" "\<And>i. i < m \<Longrightarrow> seg i = [b i..<b (Suc i)]"
  shows "concat (map seg [0..<m]) = [b 0..<b m]"
proof -
  have "concat (map seg [0..<m]) = [b 0..<b m] \<and> b 0 \<le> b m"
    using assms
  proof (induction m)
    case (Suc m)
    then have "concat (map seg [0..<m]) = [b 0..<b m]" "b 0 \<le> b m" "seg m = [b m..<b (Suc m)]" "b m \<le> b (Suc m)"
      by auto
    then show ?case by (simp add: upt_append)
  qed simp
  then show ?thesis ..
qed

lemma populate_middle_loop:
  assumes "i + k \<le> length sgl" "i + k \<le> length pages" "k * 4096 \<le> unat count"
  shows "for_loop k i (populate_middle pages) (sgl, count) =
    Inr (take i sgl @ map (\<lambda>j. sg_set_page (pages ! j) 4096 0) [i..<i + k] @ drop (i + k) sgl,
         count - of_nat (k * 4096))"
  using assms
proof (induction k arbitrary: i sgl count)
  case (Suc k)
  let ?e = "sg_set_page (pages ! i) 4096 0"
  have c: "unat (count - 4096) = unat count - 4096"
    using Suc.prems(3) by (simp add: unat_sub word_le_nat_alt)
  have 1: "populate_middle pages i (sgl, count) = Inr (sgl[i := ?e], count - 4096)"
    using Suc.prems by (simp add: populate_middle_def PAGE_SIZE_def)
  have 2: "for_loop k (Suc i) (populate_middle pages) (sgl[i := ?e], count - 4096) =
      Inr (take (Suc i) (sgl[i := ?e]) @ map (\<lambda>j. sg_set_page (pages ! j) 4096 0) [Suc i..<Suc i + k]
        @ drop (Suc i + k) (sgl[i := ?e]), count - 4096 - of_nat (k * 4096))"
    by (rule Suc.IH) (use Suc.prems c in auto)
  have "take (Suc i) (sgl[i := ?e]) = take i sgl @ [?e]"
    using Suc.prems(1) by (simp add: take_Suc_conv_app_nth)
  moreover have "[i..<i + Suc k] = i # [Suc i..<Suc i + k]" by (simp add: upt_rec)
  ultimately show ?case using 1 2 by (simp add: algebra_simps)
qed simp

definition sg_expected :: "nat list \<Rightarrow> u64 \<Rightarrow> u64 \<Rightarrow> nat \<Rightarrow> sg_entry" where
  "sg_expected pages start count i =
     (let N = page_count start count; off = unat start mod 4096 in
      sg_set_page (pages ! i)
        (of_nat (if N = 1 then unat count else if i = 0 then 4096 - off
                 else if i = N - 1 then off + unat count - 4096 * (N - 1) else 4096))
        (of_nat (if i = 0 then off else 0)))"

lemma sgm_populate_result:
  assumes n: "0 < unat count" and N: "N = page_count start count"
    and len: "N \<le> length pages" "N \<le> length sgl"
  shows "sgm_populate pages start count N sgl =
    Inr (map (sg_expected pages start count) [0..<N] @ drop N sgl)"
proof -
  let ?off = "unat start mod 4096" and ?n = "unat count"
  note span = page_count_span [OF n, of start, folded N]
  have off: "offset_in_page start = of_nat ?off"
    by (simp flip: offset_in_page_unat)
  have pos: "0 < length pages" "0 < length sgl" using span(3) len by linarith+
  show ?thesis
  proof (cases "N > 1")
    case False
    with span(3) have N1: "N = 1" by simp
    obtain e es where sgl: "sgl = e # es" using pos(2) by (cases sgl) auto
    have one: "page_count start count = 1" using N N1 by simp
    show ?thesis
      using False pos unfolding N1
      by (simp add: sgm_populate_def sgl sg_expected_def one off sg_set_page_def)
  next
    case True
    then obtain M where M: "N = M + 2" using that [of "N - 2"] by simp
    from pos(2) obtain e es where sgl: "sgl = e # es" by (cases sgl) auto
    let ?e0 = "sg_set_page (pages ! 0) (4096 - of_nat ?off) (of_nat ?off)"
    let ?c = "count - ucast (4096 - of_nat ?off :: u32)"
    have u0: "unat (4096 - of_nat ?off :: u32) = 4096 - ?off"
      by (simp add: unat_sub word_le_nat_alt unat_of_nat_small)
    have uc: "unat (ucast (4096 - of_nat ?off :: u32) :: u64) = 4096 - ?off"
      by (subst unat_ucast_small) (simp_all only: u0, simp)
    have "4096 < ?off + ?n" using span(1) M by simp
    then have c: "unat ?c = ?off + ?n - 4096"
      by (subst unat_sub) (auto simp: word_le_nat_alt uc)
    have room: "M * 4096 \<le> unat ?c"
      unfolding c using span(1) M by simp
    let ?mid = "map (\<lambda>j. sg_set_page (pages ! j) 4096 0) [1..<M + 1]"
    have loop: "for_loop M 1 (populate_middle pages) (?e0 # es, ?c) =
        Inr (?e0 # ?mid @ drop M es, ?c - of_nat (M * 4096))"
      using populate_middle_loop [of 1 M "?e0 # es" pages ?c] room M len by (simp add: sgl)
    let ?last = "?off + ?n - 4096 * (M + 1)"
    have last: "unat (?c - of_nat (M * 4096)) = ?last"
    proof -
      have "unat (?c - of_nat (M * 4096)) = unat ?c - M * 4096"
        by (rule unat_sub_of_nat [OF room])
      then show ?thesis unfolding c by simp
    qed
    have le: "?last \<le> 4096" using span(2) M by simp
    have ul: "ucast (?c - of_nat (M * 4096)) = (of_nat ?last :: u32)"
      by (subst of_nat_unat [symmetric]) (simp only: last)
    let ?l = "sg_set_page (pages ! (M + 1)) (of_nat ?last) 0"
    have "sgm_populate pages start count N sgl =
        array_upd (M + 1) (\<lambda>_. ?l) (?e0 # ?mid @ drop M es)"
      using pos len loop last le ul
      by (simp add: sgm_populate_def off PAGE_SIZE_def sg_set_page_def Let_def sgl M)
    also have "\<dots> = Inr (?e0 # ?mid @ ?l # drop (M + 1) es)"
    proof -
      have "drop M es = es ! M # drop (M + 1) es"
        using len by (simp add: sgl M Cons_nth_drop_Suc)
      then show ?thesis
        using list_update_length [of "?e0 # ?mid" "es ! M" "drop (M + 1) es" ?l] by (simp del: upt_Suc)
    qed
    also have "?e0 # ?mid @ ?l # drop (M + 1) es = map (sg_expected pages start count) [0..<N] @ drop N sgl"
    proof -
      have "[0..<N] = 0 # [1..<M + 1] @ [M + 1]"
        using upt_conv_Cons [of 0 "M + 2"] upt_Suc_append [of 1 "M + 1"]
        unfolding M by (simp del: upt_Suc)
      then show ?thesis
        by (auto simp add: sg_expected_def Let_def sgl M simp flip: N)
    qed
    finally show ?thesis .
  qed
qed

lemma sg_expected_fields:
  assumes "0 < unat count" "i < page_count start count"
  shows "sg_page (sg_expected pages start count i) = pages ! i"
    and "0 < unat (sg_length (sg_expected pages start count i))"
    and "unat (sg_length (sg_expected pages start count i)) \<le> 4096"
    and "entry_bytes (unat start div 4096 + i) (sg_expected pages start count i) =
      [(if i = 0 then unat start else (unat start div 4096 + i) * 4096)..<
       (if i + 1 = page_count start count then unat start + unat count
        else (unat start div 4096 + i + 1) * 4096)]"
proof -
  let ?N = "page_count start count" and ?off = "unat start mod 4096" and ?n = "unat count"
  note span = page_count_span [OF assms(1), of start]
  let ?len = "if ?N = 1 then ?n else if i = 0 then 4096 - ?off
                 else if i = ?N - 1 then ?off + ?n - 4096 * (?N - 1) else 4096"
  have off: "?off < 4096" by simp
  have s: "unat start div 4096 * 4096 + ?off = unat start" by simp
  have d: "unat start + (4096 - ?off) = (unat start div 4096 + 1) * 4096"
  proof -
    have "r < 4096 \<Longrightarrow> q * 4096 + r + (4096 - r) = (q + 1) * 4096" for q r :: nat by simp
    from this [OF off, of "unat start div 4096"] show ?thesis by (simp only: div_mult_mod_eq)
  qed
  have "0 < ?len \<and> ?len \<le> 4096"
    using span off assms by (auto simp: algebra_simps)
  moreover have "unat (of_nat k :: u32) = k" if "k \<le> 4096" for k
    using that by (simp add: unat_of_nat_small)
  ultimately have len: "unat (of_nat ?len :: u32) = ?len" "0 < ?len" "?len \<le> 4096"
    and off': "unat (of_nat (if i = 0 then ?off else 0) :: u32) = (if i = 0 then ?off else 0)"
    using off by (auto simp del: of_nat_unat)
  have e: "sg_expected pages start count i =
      sg_set_page (pages ! i) (of_nat ?len) (of_nat (if i = 0 then ?off else 0))"
    by (simp only: sg_expected_def Let_def)
  show "sg_page (sg_expected pages start count i) = pages ! i"
    by (simp add: e sg_set_page_def)
  show "0 < unat (sg_length (sg_expected pages start count i))"
    "unat (sg_length (sg_expected pages start count i)) \<le> 4096"
    unfolding e sg_set_page_def using len by (simp_all only: sg_entry.simps)
  have ends: "(unat start div 4096 + i) * 4096 + (if i = 0 then ?off else 0) =
      (if i = 0 then unat start else (unat start div 4096 + i) * 4096)"
    using s by simp
  have "(if i = 0 then unat start else (unat start div 4096 + i) * 4096) + ?len =
      (if i + 1 = ?N then unat start + ?n else (unat start div 4096 + i + 1) * 4096)"
    using s d off span assms by (auto simp: algebra_simps)
  then show "entry_bytes (unat start div 4096 + i) (sg_expected pages start count i) =
      [(if i = 0 then unat start else (unat start div 4096 + i) * 4096)..<
       (if i + 1 = ?N then unat start + ?n else (unat start div 4096 + i + 1) * 4096)]"
    unfolding entry_bytes_def e sg_set_page_def
    by (simp only: sg_entry.simps len(1) off' ends)
qed

text \<open>The entries cover the buffer exactly, in order and page by page.\<close>

lemma sgm_populate_covers:
  assumes "0 < unat count"
  shows "segment_bytes (unat start div 4096) (map (sg_expected pages start count) [0..<page_count start count])
    = [unat start..<unat start + unat count]"
proof -
  let ?N = "page_count start count" and ?f = "unat start div 4096"
  define b where "b i = (if i = 0 then unat start else if i = ?N then unat start + unat count
    else (?f + i) * 4096)" for i
  have N: "0 < ?N" using page_count_span(3) [OF assms] .
  have seg: "entry_bytes (?f + i) (sg_expected pages start count i) = [b i..<b (Suc i)]" if "i < ?N" for i
    using sg_expected_fields(4) [OF assms that, of pages] that by (auto simp: b_def)
  have "b i \<le> b (Suc i)" if "i < ?N" for i
  proof -
    have "length (entry_bytes (?f + i) (sg_expected pages start count i)) > 0"
      using sg_expected_fields(2) [OF assms that] by (simp add: entry_bytes_def)
    then show ?thesis unfolding seg [OF that] by simp
  qed
  from contiguous_concat [of ?N b "\<lambda>i. [b i..<b (Suc i)]", OF this]
  have "concat (map (\<lambda>i. [b i..<b (Suc i)]) [0..<?N]) = [b 0..<b ?N]" by simp
  moreover have "segment_bytes ?f (map (sg_expected pages start count) [0..<?N]) =
      concat (map (\<lambda>i. [b i..<b (Suc i)]) [0..<?N])"
    unfolding segment_bytes_def
    by (rule arg_cong [where f = concat], rule map_cong) (simp_all add: seg)
  ultimately show ?thesis using N by (simp add: b_def)
qed

subsection \<open>The two ways to pin a buffer\<close>

definition sgm_wf :: "sg_mapping \<Rightarrow> bool" where
  "sgm_wf sgm \<longleftrightarrow> max_pages sgm = int (length (sgm_pages sgm)) \<and> length (sgm_sgl sgm) = length (sgm_pages sgm)"

lemma sg_create_mapper_wf:
  assumes "sg_create_mapper max_len w = (Some sgm, w')" "unat max_len < 2 ^ 40"
  shows "sgm_wf sgm \<and> mapped_pages sgm = 0 \<and> max_pages sgm = int (unat max_len div 4096 + 2)"
proof -
  have "unat (max_len div 4096 + 2) = unat max_len div 4096 + 2"
    using assms(2) by (subst unat_add_small) (simp_all add: unat_div)
  then have "to_int (max_len div 4096 + 2) = int (unat max_len div 4096 + 2)"
    using assms(2) by (subst to_int_small) simp_all
  then show ?thesis
    using assms(1)
    by (auto simp: sg_create_mapper_def sgm_wf_def PAGE_SIZE_def Let_def split: if_splits prod.splits)
qed

lemma put_pages_log: "w_log (put_pages ps w) = w_log w @ map (\<lambda>p. Call (Put_page p)) ps"
  by (induction ps arbitrary: w) (simp_all add: kcall0_def)

lemma flush_pages_log: "w_log (flush_pages ps w) = w_log w @ map (\<lambda>p. Call (Flush_dcache_page p)) ps"
  by (induction ps arbitrary: w) (simp_all add: kcall0_def)

lemma dirty_pages_log: "w_log (dirty_pages ps w) = w_log w @ map (\<lambda>p. Call (Set_page_dirty p)) ps"
  by (induction ps arbitrary: w) (simp_all add: kcall0_def)

text \<open>What both routines promise when they return the number of pages.\<close>

definition sgm_maps :: "sg_mapping \<Rightarrow> u64 \<Rightarrow> u64 \<Rightarrow> bool" where
  "sgm_maps sgm start count \<longleftrightarrow>
     (let N = page_count start count; es = take N (sgm_sgl sgm) in
      mapped_pages sgm = int N \<and> length es = N
      \<and> segment_bytes (unat start div 4096) es = [unat start..<unat start + unat count]
      \<and> map sg_page es = take N (sgm_pages sgm)
      \<and> (\<forall>e\<in>set es. 0 < unat (sg_length e) \<and> unat (sg_length e) \<le> PAGE_SIZE))"

lemma sgm_populate_maps:
  assumes "0 < unat count" "N = page_count start count" "N \<le> length pages" "N \<le> length sgl"
  shows "\<exists>sgl'. sgm_populate pages start count N sgl = Inr sgl' \<and> length sgl' = length sgl
    \<and> (\<forall>s. sgm_sgl s = sgl' \<longrightarrow> sgm_pages s = pages \<longrightarrow> mapped_pages s = int N \<longrightarrow> sgm_maps s start count)"
proof -
  have "take N (map (sg_expected pages start count) [0..<N] @ drop N sgl) =
      map (sg_expected pages start count) [0..<N]" by simp
  moreover have "map (sg_page \<circ> sg_expected pages start count) [0..<N] = take N pages"
    using assms sg_expected_fields(1) [OF assms(1)] by (intro nth_equalityI) auto
  ultimately show ?thesis
    using sgm_populate_result [OF assms] sgm_populate_covers [OF assms(1), of start pages] assms
      sg_expected_fields(2,3) [OF assms(1), of _ start pages]
    by (auto simp: sgm_maps_def PAGE_SIZE_def Let_def)
qed

text \<open>
  C3: Pinning a user buffer that fits the mapper never faults, whatever the kernel
  answers, provided it pins no more pages than asked. Either every page was pinned and
  the scatterlist covers exactly the bytes of the buffer, in order, each entry within one
  page; or the call fails with ENOMEM, no page stays mapped, and exactly the pages that
  had been pinned are released.
\<close>

theorem sgm_get_user_pages_outcome:
  assumes wf: "sgm_wf sgm" "mapped_pages sgm = 0"
    and buf: "0 < unat count" "unat start + unat count < 2 ^ 64" "unat count < 2 ^ 40"
    and fit: "int (page_count start count) \<le> max_pages sgm"
    and kernel: "got \<le> int (page_count start count)"
      "got = w_kern w (w_log w) (Get_user_pages (unat start) (page_count start count))"
  shows "\<exists>rc sgm' w'. sgm_get_user_pages pinned sgm start count w = Inr (rc, sgm', w') \<and>
    (if got = int (page_count start count)
     then rc = got \<and> sgm_maps sgm' start count \<and> take (nat got) (sgm_pages sgm') = map pinned [0..<nat got]
     else rc = - ENOMEM \<and> mapped_pages sgm' = 0 \<and>
       w_log w' = w_log w @ Call (Get_user_pages (unat start) (page_count start count)) #
         map (\<lambda>p. Call (Put_page p)) (map pinned [0..<nat got]))"
proof -
  let ?N = "page_count start count"
  note nr = nr_pages_eq(1) [OF buf]
  have N: "0 < ?N" by (rule page_count_span(3) [OF buf(1)])
  have room: "?N \<le> length (sgm_pages sgm)" "?N \<le> length (sgm_sgl sgm)"
    using wf fit by (auto simp: sgm_wf_def)
  have nowrap: "\<not> start + count < start" "count \<noteq> 0"
    using buf unat_add_small [of start count] by (auto simp: word_less_nat_alt)
  define w1 where "w1 = emit (Call (Get_user_pages (unat start) ?N)) w"
  have k: "kcall (Get_user_pages (unat start) ?N) w = (got, w1)"
    by (simp add: kcall_def w1_def kernel(2))
  have w1: "w_log w1 = w_log w @ [Call (Get_user_pages (unat start) ?N)]" by (simp add: w1_def)
  let ?pages = "map pinned [0..<nat got] @ replicate (?N - 1 - nat got) 0 @ drop (max (nat got) (?N - 1)) (sgm_pages sgm)"
  have start: "sgm_get_user_pages pinned sgm start count w =
    (let sgl = sg_init_table ?N (sgm_sgl sgm); sgm1 = sgm\<lparr>sgm_sgl := sgl, sgm_pages := ?pages\<rparr>
     in if got < int ?N then
          Inr (- ENOMEM, sgm1\<lparr>mapped_pages := 0\<rparr>, put_pages (take (nat (if got > 0 then got else 0)) ?pages) w1)
        else bindr (bug_on (got \<noteq> int ?N)) (\<lambda>_.
             let w = flush_pages (take ?N ?pages) w1 in
             bindr (sgm_populate ?pages start count ?N sgl) (\<lambda>sgl.
               Inr (int ?N, sgm1\<lparr>sgm_sgl := sgl, mapped_pages := got\<rparr>, w))))"
    using nowrap fit room(1) wf(2) kernel(1)
    by (simp add: sgm_get_user_pages_def nr k Let_def min_absorb1)
  show ?thesis
  proof (cases "got = int ?N")
    case True
    then have pages: "?pages = map pinned [0..<?N] @ drop ?N (sgm_pages sgm)" by simp
    have len: "?N \<le> length ?pages" "?N \<le> length (sg_init_table ?N (sgm_sgl sgm))"
      using room unfolding pages by (simp_all add: sg_init_table_def)
    obtain sgl' where sgl': "sgm_populate ?pages start count ?N (sg_init_table ?N (sgm_sgl sgm)) = Inr sgl'"
        "\<forall>s. sgm_sgl s = sgl' \<longrightarrow> sgm_pages s = ?pages \<longrightarrow> mapped_pages s = int ?N \<longrightarrow> sgm_maps s start count"
      using sgm_populate_maps [OF buf(1) refl len] by blast
    then show ?thesis
      unfolding start Let_def using True pages by simp
  next
    case False
    with kernel(1) have lt: "got < int ?N" by simp
    have "take (nat (if got > 0 then got else 0)) ?pages = map pinned [0..<nat got]" by auto
    then show ?thesis
      unfolding start Let_def using False lt by (simp add: put_pages_log w1)
  qed
qed

definition sample_mapper :: sg_mapping where
  "sample_mapper = \<lparr>sgm_sgl = replicate 3 sg_none, sgm_pages = replicate 3 0, max_pages = 3, mapped_pages = 0\<rparr>"

theorem sgm_get_user_pages_outcome_witness:
  "\<exists>sgm' w'. sgm_get_user_pages (\<lambda>i. i + 7) sample_mapper 0x1800 0x1000 (idle_world\<lparr>w_kern := \<lambda>_ _. 2\<rparr>)
      = Inr (2, sgm', w') \<and> sgm_maps sgm' 0x1800 0x1000"
  using sgm_get_user_pages_outcome [of sample_mapper "0x1000" "0x1800" 2 "idle_world\<lparr>w_kern := \<lambda>_ _. 2\<rparr>" "\<lambda>i. i + 7"]
  by (auto simp: sgm_wf_def sample_mapper_def page_count_def idle_world_def)

lemma kernel_page_loop:
  assumes "for_loop n 0 (kernel_page start) ((pages, False), w) = Inr ((pages', failed), w')"
  shows "length pages' = length pages \<and> (\<not> failed \<longrightarrow> (\<forall>i<n. pages' ! i \<noteq> 0))"
proof -
  let ?P = "\<lambda>j s. length (fst (fst s)) = length pages \<and> (\<not> snd (fst s) \<longrightarrow> (\<forall>i<j. fst (fst s) ! i \<noteq> 0))"
  have "?P (0 + n) ((pages', failed), w')"
    by (rule for_loop_inv [OF assms, where P = ?P])
      (auto simp: kernel_page_def bindr_eq_Inr array_upd_def less_Suc_eq nth_list_update
        split: prod.splits if_splits)
  then show ?thesis by simp
qed

lemma kernel_page_loop_faults:
  assumes "n \<le> length pages" "for_loop n 0 (kernel_page start) ((pages, False), w) = Inl e"
  shows "e = BugOn"
proof -
  have "for_loop k i (kernel_page start) ((pages, fl), w) = Inl e \<Longrightarrow> i + k \<le> length pages \<Longrightarrow> e = BugOn"
    for k i pages fl w
  proof (induction k arbitrary: i pages fl w)
    case (Suc k)
    then show ?case
      by (auto simp: bindr_eq_Inl kernel_page_def bindr_eq_Inr array_upd_def bug_on_def Let_def
          split: if_splits prod.splits)
  qed simp
  from this [of n 0 pages False w] assms show ?thesis by simp
qed

text \<open>
  Mapping a vmalloc()ed kernel buffer that fits the mapper stops at a BUG_ON only if
  the kernel returns a high-memory page. Otherwise it either returns the page count with
  a scatterlist that covers exactly the buffer, over non-null pages, or it fails with
  ENOMEM and nothing mapped.
\<close>

theorem sgm_kernel_pages_outcome:
  assumes wf: "sgm_wf sgm" "mapped_pages sgm = 0"
    and buf: "0 < unat count" "unat start + unat count < 2 ^ 64" "unat count < 2 ^ 40"
    and fit: "int (page_count start count) \<le> max_pages sgm"
  shows "(case sgm_kernel_pages sgm start count w of
      Inl e \<Rightarrow> e = BugOn
    | Inr (rc, sgm', w') \<Rightarrow>
        rc = - ENOMEM \<and> mapped_pages sgm' = 0 \<or>
        rc = int (page_count start count) \<and> sgm_maps sgm' start count
          \<and> (\<forall>p\<in>set (take (page_count start count) (sgm_pages sgm')). p \<noteq> 0))"
proof -
  let ?N = "page_count start count" and ?sgl = "sg_init_table (page_count start count) (sgm_sgl sgm)"
  note nr = nr_pages_eq(1) [OF buf]
  have room: "?N \<le> length (sgm_pages sgm)" "?N \<le> length ?sgl"
    using wf fit by (auto simp: sgm_wf_def sg_init_table_def)
  have nowrap: "\<not> start + count < start" "count \<noteq> 0"
    using buf unat_add_small [of start count] by (auto simp: word_less_nat_alt)
  have start: "sgm_kernel_pages sgm start count w =
    bindr (for_loop ?N 0 (kernel_page start) ((sgm_pages sgm, False), w)) (\<lambda>((pages, failed), w).
      let sgm = sgm\<lparr>sgm_sgl := ?sgl, sgm_pages := pages\<rparr> in
        if failed then Inr (- ENOMEM, sgm\<lparr>mapped_pages := 0\<rparr>, w)
        else let w = flush_pages (take ?N pages) w in
          bindr (sgm_populate pages start count ?N ?sgl) (\<lambda>sgl.
            Inr (int ?N, sgm\<lparr>sgm_sgl := sgl, mapped_pages := int ?N\<rparr>, w)))"
    using nowrap fit room(1) wf(2) by (simp add: sgm_kernel_pages_def nr Let_def)
  show ?thesis
  proof (cases "for_loop ?N 0 (kernel_page start) ((sgm_pages sgm, False), w)")
    case (Inl e)
    then show ?thesis using kernel_page_loop_faults [OF room(1) Inl] by (simp add: start)
  next
    case (Inr r)
    obtain pages failed w2 where r: "r = ((pages, failed), w2)" by (metis prod.exhaust)
    note loop = kernel_page_loop [OF Inr [unfolded r]]
    then have len: "?N \<le> length pages" using room by simp
    obtain sgl' where sgl': "sgm_populate pages start count ?N ?sgl = Inr sgl'"
        "\<forall>s. sgm_sgl s = sgl' \<longrightarrow> sgm_pages s = pages \<longrightarrow> mapped_pages s = int ?N \<longrightarrow> sgm_maps s start count"
      using sgm_populate_maps [OF buf(1) refl len room(2)] by blast
    have "\<forall>p\<in>set (take ?N pages). p \<noteq> 0" if "\<not> failed"
      using that loop len by (auto simp: in_set_conv_nth)
    then show ?thesis
      unfolding start Inr r using sgl' by (simp add: Let_def)
  qed
qed

theorem sgm_kernel_pages_outcome_witness:
  "case sgm_kernel_pages sample_mapper 0x1800 0x1000 (idle_world\<lparr>w_kern := \<lambda>_ c. case c of Page_high_mem _ \<Rightarrow> 0 | _ \<Rightarrow> 1\<rparr>) of
      Inl e \<Rightarrow> e = BugOn
    | Inr (rc, sgm', w') \<Rightarrow> rc = - ENOMEM \<or> sgm_maps sgm' 0x1800 0x1000"
  using sgm_kernel_pages_outcome [of sample_mapper "0x1000" "0x1800" "idle_world\<lparr>w_kern := \<lambda>_ c. case c of Page_high_mem _ \<Rightarrow> 0 | _ \<Rightarrow> 1\<rparr>"]
  by (auto simp: sgm_wf_def sample_mapper_def page_count_def split: sum.splits)

text \<open>
  Releasing a mapping marks every mapped page dirty (when the device wrote to it)
  before it puts every mapped page, each exactly once, and leaves nothing mapped, so that
  the mapper can be destroyed.
\<close>

theorem sgm_put_user_pages_releases:
  "case sgm_put_user_pages sgm dirtied w of (sgm', w') \<Rightarrow>
    let ps = take (nat (mapped_pages sgm)) (sgm_pages sgm) in
    w_log w' = w_log w @ (if dirtied then map (\<lambda>p. Call (Set_page_dirty p)) ps else [])
      @ map (\<lambda>p. Call (Put_page p)) ps
    \<and> mapped_pages sgm' = 0 \<and> (\<exists>w''. sg_destroy_mapper sgm' w' = Inr w'')"
  by (simp add: sgm_put_user_pages_def Let_def sgm_dirty_pages_def put_pages_log dirty_pages_log
      sg_destroy_mapper_def)

end
