(* ===== verification/Xdma_Transfer.thy ===== *)
theory Xdma_Transfer
  imports Xdma_Sgm
begin

unbundle bit_operations_syntax

text \<open>
  A transfer: the buffer it moves, the descriptors that describe it to the engine, and
  its state. The routines of driver/xdma-core.c that build the descriptors from a
  scatterlist, create and destroy a transfer, and change all its descriptors at once.

  The build loop is followed by an invariant (\<open>build_inv\<close>): the descriptors finished so
  far and the block being collected cover exactly the scatterlist entries seen. From it
  come the refinement of the built descriptors to the scatterlist (\<open>describes_upto\<close>) and, with
  the control words set at the end, the complete chain an engine can run (\<open>chain_ok\<close>).
\<close>

subsection \<open>The transfer\<close>

datatype transfer_state =
  TRANSFER_STATE_NEW | TRANSFER_STATE_SUBMITTED | TRANSFER_STATE_COMPLETED | TRANSFER_STATE_FAILED

text \<open>
  \<open>t_desc_virt\<close> is \<open>None\<close> for a null pointer; \<open>t_iocb\<close> the asynchronous request, if any.
  The list entry is the transfer's place in an engine's queue, the wait queue is named by
  the transfer itself.
\<close>

record xdma_transfer =
  t_desc_virt :: "xdma_desc list option"
  t_desc_bus :: u64
  t_desc_adjacent :: nat
  t_desc_num :: nat
  t_dir_to_dev :: bool
  t_iocb :: "nat option"
  t_sgl_nents :: nat
  t_sgm :: "sg_mapping option"
  t_userspace :: bool
  t_state :: transfer_state
  t_cyclic :: bool
  t_last_in_request :: bool
  t_size_of_request :: u64

definition new_transfer :: xdma_transfer where
  "new_transfer = \<lparr>t_desc_virt = None, t_desc_bus = 0, t_desc_adjacent = 0, t_desc_num = 0,
     t_dir_to_dev = False, t_iocb = None, t_sgl_nents = 0, t_sgm = None, t_userspace = False,
     t_state = TRANSFER_STATE_NEW, t_cyclic = False, t_last_in_request = False, t_size_of_request = 0\<rparr>"

text \<open>An operation on the descriptors of a transfer: a null pointer is a fault.\<close>

definition with_descs ::
  "(xdma_desc list \<Rightarrow> xdma_desc list run) \<Rightarrow> xdma_transfer \<Rightarrow> xdma_transfer run" where
  "with_descs f t = (case t_desc_virt t of
       None \<Rightarrow> Inl NullDeref
     | Some ds \<Rightarrow> bindr (f ds) (\<lambda>ds. Inr (t\<lparr>t_desc_virt := Some ds\<rparr>)))"

definition transfer_set_result_addresses :: "u64 \<Rightarrow> xdma_transfer \<Rightarrow> xdma_transfer run" where
  "transfer_set_result_addresses result_bus t =
     with_descs (set_result_addresses (t_desc_num t) result_bus) t"

definition transfer_set_all_control :: "u32 \<Rightarrow> xdma_transfer \<Rightarrow> xdma_transfer run" where
  "transfer_set_all_control control t = with_descs (set_all_control (t_desc_num t) control) t"

text \<open>Index \<open>desc_num - 1\<close> of a transfer without descriptors is outside the array.\<close>

definition xdma_transfer_cyclic :: "xdma_transfer \<Rightarrow> xdma_transfer run" where
  "xdma_transfer_cyclic t =
     bindr (if t_desc_num t = 0 then Inl OutOfBounds
            else with_descs (array_mod (t_desc_num t - 1) (\<lambda>d. Inr (xdma_desc_link d (Some (t_desc_bus t))))) t)
       (\<lambda>t. Inr (t\<lparr>t_cyclic := True\<rparr>))"

definition transfer_perf :: "nat \<Rightarrow> xdma_desc list \<Rightarrow> xdma_desc list run" where
  "transfer_perf lst = array_mod lst (\<lambda>d.
     xdma_desc_control (xdma_desc_link d None) (XDMA_DESC_STOPPED OR XDMA_DESC_EOP OR XDMA_DESC_COMPLETED))"

subsection \<open>Building the descriptors from the scatterlist\<close>

text \<open>
  The locals of \<open>transfer_build\<close>: the descriptor index \<open>j\<close>, the contiguous block being
  collected (\<open>cont_addr\<close>, \<open>cont_len\<close>), the address of the current entry, and the endpoint
  address.
\<close>

record build_state =
  b_j :: nat
  b_cont_addr :: u64
  b_addr :: u64
  b_cont_len :: u32
  b_ep_addr :: u64
  b_desc :: "xdma_desc list"

definition build_step ::
  "bool \<Rightarrow> bool \<Rightarrow> bool \<Rightarrow> bool \<Rightarrow> (u64 \<times> u32) list \<Rightarrow> nat \<Rightarrow> build_state \<Rightarrow> build_state run" where
  "build_step dir_to_dev non_incr_addr force_new_desc userspace sgl i b =
     bindr (array_get sgl (i + 1)) (\<lambda>(next, _).
     bindr (array_get sgl i) (\<lambda>(_, len).
       let cont_len = b_cont_len b + len;
           new_desc = (if next \<noteq> b_addr b + ucast len then True
             else unat cont_len > XDMA_DESC_MAX_BYTES - PAGE_SIZE);
           new_desc = (if force_new_desc \<and> \<not> userspace then True else new_desc)
       in if new_desc then
            bindr (array_mod (b_j b) (\<lambda>d. Inr (xdma_desc_set d (b_cont_addr b) (b_ep_addr b) cont_len dir_to_dev))
                     (b_desc b)) (\<lambda>ds.
              Inr \<lparr>b_j = b_j b + 1, b_cont_addr = next, b_addr = next, b_cont_len = 0,
                   b_ep_addr = (if userspace
                     then if \<not> non_incr_addr then b_ep_addr b + ucast cont_len else b_ep_addr b
                     else b_ep_addr b + ucast cont_len),
                   b_desc = ds\<rparr>)
          else Inr (b\<lparr>b_addr := next, b_cont_len := cont_len\<rparr>)))"

definition transfer_build ::
  "(u64 \<times> u32) list \<Rightarrow> nat \<Rightarrow> xdma_desc list \<Rightarrow> u64 \<Rightarrow> bool \<Rightarrow> bool \<Rightarrow> bool \<Rightarrow> bool
     \<Rightarrow> (nat \<times> xdma_desc list) run" where
  "transfer_build sgl sgl_nents ds ep_addr dir_to_dev non_incr_addr force_new_desc userspace =
     bindr (array_get sgl 0) (\<lambda>(addr, _).
     bindr (for_loop (sgl_nents - 1) 0 (build_step dir_to_dev non_incr_addr force_new_desc userspace sgl)
        \<lparr>b_j = 0, b_cont_addr = addr, b_addr = addr, b_cont_len = 0, b_ep_addr = ep_addr, b_desc = ds\<rparr>) (\<lambda>b.
     bindr (array_get sgl (sgl_nents - 1)) (\<lambda>(_, len).
       let cont_len = b_cont_len b + len in
       bindr (bug_on (b_j b > sgl_nents)) (\<lambda>_.
       bindr (array_mod (b_j b) (\<lambda>d. Inr (xdma_desc_set d (b_cont_addr b) (b_ep_addr b) cont_len dir_to_dev))
                (b_desc b)) (\<lambda>ds.
         Inr (b_j b, ds))))))"

subsection \<open>Creating and destroying a transfer\<close>

text \<open>
  What the kernel supplies: the pages it pins, the content of fresh coherent memory, the
  DMA address and length it maps each scatterlist entry to.
\<close>

record kernel_grants =
  k_pinned :: "nat \<Rightarrow> nat"
  k_fresh :: "nat \<Rightarrow> xdma_desc"
  k_dma :: "nat \<Rightarrow> u64 \<times> u32"

definition finish_descs :: "nat \<Rightarrow> xdma_desc list \<Rightarrow> xdma_desc list run" where
  "finish_descs lst ds = bindr (transfer_perf lst ds) (set_adjacent (lst + 1))"

definition transfer_create ::
  "kernel_grants \<Rightarrow> u64 \<Rightarrow> u64 \<Rightarrow> u64 \<Rightarrow> bool \<Rightarrow> bool \<Rightarrow> bool \<Rightarrow> bool \<Rightarrow> world
     \<Rightarrow> (xdma_transfer option \<times> world) run" where
  "transfer_create k start cnt ep_addr dir_to_dev non_incr_addr force_new_desc userspace w =
     (let (p, w) = kcall (Kzalloc 2) w in
      if p = 0 then Inr (None, w)
      else
        let t = new_transfer\<lparr>t_dir_to_dev := dir_to_dev\<rparr>;
            (sgm, w) = sg_create_mapper cnt w in
        bindr (case sgm of None \<Rightarrow> Inl BugOn | Some sgm \<Rightarrow> Inr sgm) (\<lambda>sgm.
        bindr (if userspace then sgm_get_user_pages (k_pinned k) sgm start cnt w
               else sgm_kernel_pages sgm start cnt w) (\<lambda>(rc, sgm, w).
        bindr (bug_on (rc < 0)) (\<lambda>_.
        bindr (bug_on (mapped_pages sgm = 0)) (\<lambda>_.
          let (nents, w) = kcall Pci_map_sg w; nents = nat nents;
              dma = map (k_dma k) [0..<length (sgm_sgl sgm)] in
          bindr (xdma_desc_alloc (k_fresh k) (int nents) w) (\<lambda>(mem, w).
          bindr (case mem of None \<Rightarrow> Inl NullDeref | Some m \<Rightarrow> Inr m) (\<lambda>(ds, bus).
          bindr (transfer_build dma nents ds ep_addr dir_to_dev non_incr_addr force_new_desc userspace) (\<lambda>(lst, ds).
          bindr (finish_descs lst ds) (\<lambda>ds.
            Inr (Some (t\<lparr>t_sgm := Some sgm, t_userspace := userspace, t_sgl_nents := nents,
                         t_desc_virt := Some ds, t_desc_bus := bus,
                         t_desc_num := lst + 1, t_desc_adjacent := lst + 1\<rparr>), w))))))))))"

definition transfer_destroy :: "xdma_transfer \<Rightarrow> world \<Rightarrow> world run" where
  "transfer_destroy t w =
     bindr (case t_sgm t of
         None \<Rightarrow> Inr w
       | Some sgm \<Rightarrow>
           let w = kcall0 Pci_unmap_sg w;
               (sgm, w) = (if t_userspace t then sgm_put_user_pages sgm (\<not> t_dir_to_dev t) w else (sgm, w))
           in sg_destroy_mapper (sgm\<lparr>mapped_pages := 0\<rparr>) w) (\<lambda>w.
     bindr (xdma_desc_free (int (t_sgl_nents t)) (t_desc_virt t) (t_desc_bus t) w) (\<lambda>w.
       Inr (kcall0 (Kfree 2) w)))"

subsection \<open>The bytes a descriptor list moves\<close>

definition addr_bytes :: "u64 \<Rightarrow> nat \<Rightarrow> u64 list" where
  "addr_bytes a n = map (\<lambda>k. a + of_nat k) [0..<n]"

lemma addr_bytes_0 [simp]: "addr_bytes a 0 = []"
  by (simp add: addr_bytes_def)

lemma addr_bytes_append: "addr_bytes a m @ addr_bytes (a + of_nat m) n = addr_bytes a (m + n)"
proof -
  have "[0..<m + n] = [0..<m] @ map (\<lambda>k. k + m) [0..<n]"
    by (simp add: upt_add_eq_append [of 0] map_add_upt add.commute)
  then show ?thesis by (simp add: addr_bytes_def ac_simps)
qed

text \<open>The host side and the endpoint side of a descriptor.\<close>

definition desc_rc :: "bool \<Rightarrow> xdma_desc \<Rightarrow> u64" where
  "desc_rc dir d = (if dir then join_u64 (d_src_hi d) (d_src_lo d) else join_u64 (d_dst_hi d) (d_dst_lo d))"

definition desc_ep :: "bool \<Rightarrow> xdma_desc \<Rightarrow> u64" where
  "desc_ep dir d = (if dir then join_u64 (d_dst_hi d) (d_dst_lo d) else join_u64 (d_src_hi d) (d_src_lo d))"

definition desc_len :: "xdma_desc \<Rightarrow> nat" where
  "desc_len d = unat (d_bytes d)"

definition rc_bytes :: "bool \<Rightarrow> xdma_desc list \<Rightarrow> u64 list" where
  "rc_bytes dir ds = concat (map (\<lambda>d. addr_bytes (desc_rc dir d) (desc_len d)) ds)"

definition ep_bytes :: "bool \<Rightarrow> xdma_desc list \<Rightarrow> u64 list" where
  "ep_bytes dir ds = concat (map (\<lambda>d. addr_bytes (desc_ep dir d) (desc_len d)) ds)"

definition sgl_bytes :: "(u64 \<times> u32) list \<Rightarrow> u64 list" where
  "sgl_bytes sgl = concat (map (\<lambda>(a, l). addr_bytes a (unat l)) sgl)"

definition sgl_total :: "(u64 \<times> u32) list \<Rightarrow> nat" where
  "sgl_total sgl = (\<Sum>(a, l)\<leftarrow>sgl. unat l)"

lemma desc_set_fields [simp]:
  "desc_rc dir (xdma_desc_set d rc ep len dir) = rc" "desc_ep dir (xdma_desc_set d rc ep len dir) = ep"
  "desc_len (xdma_desc_set d rc ep len dir) = unat len"
  "d_control (xdma_desc_set d rc ep len dir) = d_control d"
  "desc_next (xdma_desc_set d rc ep len dir) = desc_next d"
  "d_next_lo (xdma_desc_set d rc ep len dir) = d_next_lo d"
  by (cases dir; simp add: desc_rc_def desc_ep_def desc_len_def desc_next_def xdma_desc_set_def Let_def)+

text \<open>
  What the loop of \<open>transfer_build\<close> keeps, after \<open>i\<close> entries: the finished descriptors and
  the block being collected cover exactly these entries. An entry has at most \<open>m\<close> bytes; a
  block is closed once it is a page short of the limit, so \<open>longest_desc m\<close> bounds a
  descriptor: for entries of a page it is the limit of the engine.
\<close>

definition longest_desc :: "nat \<Rightarrow> nat" where
  "longest_desc m = XDMA_DESC_MAX_BYTES - PAGE_SIZE + m"

lemma longest_desc_page: "longest_desc PAGE_SIZE = XDMA_DESC_MAX_BYTES"
  by (simp add: longest_desc_def XDMA_DESC_MAX_BYTES_def PAGE_SIZE_def)

definition build_inv ::
  "nat \<Rightarrow> bool \<Rightarrow> bool \<Rightarrow> (u64 \<times> u32) list \<Rightarrow> u64 \<Rightarrow> xdma_desc list \<Rightarrow> nat \<Rightarrow> build_state \<Rightarrow> bool" where
  "build_inv m dir fixed sgl ep ds i b \<longleftrightarrow>
     b_j b \<le> i \<and> length (b_desc b) = length ds
     \<and> b_addr b = fst (sgl ! i) \<and> b_cont_addr b + ucast (b_cont_len b) = b_addr b
     \<and> unat (b_cont_len b) \<le> XDMA_DESC_MAX_BYTES - PAGE_SIZE
     \<and> rc_bytes dir (take (b_j b) (b_desc b)) @ addr_bytes (b_cont_addr b) (unat (b_cont_len b))
         = sgl_bytes (take i sgl)
     \<and> (\<forall>d\<in>set (take (b_j b) (b_desc b)). desc_len d \<le> longest_desc m)
     \<and> (if fixed then b_ep_addr b = ep \<and> (\<forall>d\<in>set (take (b_j b) (b_desc b)). desc_ep dir d = ep)
        else ep_bytes dir (take (b_j b) (b_desc b)) = addr_bytes ep (length (rc_bytes dir (take (b_j b) (b_desc b))))
          \<and> b_ep_addr b = ep + of_nat (length (rc_bytes dir (take (b_j b) (b_desc b)))))
     \<and> map d_control (b_desc b) = map d_control ds \<and> map desc_next (b_desc b) = map desc_next ds
     \<and> map d_next_lo (b_desc b) = map d_next_lo ds"

lemma rc_bytes_snoc: "rc_bytes dir (ds @ [d]) = rc_bytes dir ds @ addr_bytes (desc_rc dir d) (desc_len d)"
  by (simp add: rc_bytes_def)

lemma ep_bytes_snoc: "ep_bytes dir (ds @ [d]) = ep_bytes dir ds @ addr_bytes (desc_ep dir d) (desc_len d)"
  by (simp add: ep_bytes_def)

lemma sgl_bytes_take: "i < length sgl \<Longrightarrow> sgl_bytes (take (Suc i) sgl) =
    sgl_bytes (take i sgl) @ addr_bytes (fst (sgl ! i)) (unat (snd (sgl ! i)))"
  by (simp add: sgl_bytes_def take_Suc_conv_app_nth split: prod.split)

lemma length_addr_bytes [simp]: "length (addr_bytes a n) = n"
  by (simp add: addr_bytes_def)

lemma length_sgl_bytes: "length (sgl_bytes sgl) = sgl_total sgl"
  by (induction sgl) (auto simp: sgl_bytes_def sgl_total_def)

text \<open>Finishing a block: the descriptor \<open>j\<close> is filled and \<open>j\<close> moves on.\<close>

lemma take_list_update_Suc: "j < length xs \<Longrightarrow> take (Suc j) (xs[j := x]) = take j xs @ [x]"
  by (simp add: take_Suc_conv_app_nth)

lemma map_list_update_same: "j < length xs \<Longrightarrow> f x = f (xs ! j) \<Longrightarrow> map f (xs[j := x]) = map f xs"
  by (metis list_update_id map_update)

lemma build_close:
  assumes inv: "build_inv m dir fixed sgl ep ds i b" and i: "i < length sgl"
    and j: "b_j b < length ds" and small: "unat (snd (sgl ! i)) \<le> m" "m + XDMA_DESC_MAX_BYTES \<le> 2 ^ 32"
  defines "len \<equiv> b_cont_len b + snd (sgl ! i)"
  defines "d \<equiv> xdma_desc_set (b_desc b ! b_j b) (b_cont_addr b) (b_ep_addr b) len dir"
  defines "ds' \<equiv> (b_desc b)[b_j b := d]" and "blk \<equiv> take (Suc (b_j b)) ((b_desc b)[b_j b := d])"
  shows "unat len = unat (b_cont_len b) + unat (snd (sgl ! i))"
    and "unat len \<le> longest_desc m"
    and "length ds' = length ds"
    and "rc_bytes dir blk = sgl_bytes (take (Suc i) sgl)"
    and "\<forall>d\<in>set blk. desc_len d \<le> longest_desc m"
    and "if fixed then \<forall>d\<in>set blk. desc_ep dir d = ep
         else ep_bytes dir blk = addr_bytes ep (length (rc_bytes dir blk))
           \<and> b_ep_addr b + ucast len = ep + of_nat (length (rc_bytes dir blk))"
    and "map d_control ds' = map d_control ds" "map desc_next ds' = map desc_next ds"
      "map d_next_lo ds' = map d_next_lo ds"
    and "b_cont_addr b + ucast len = fst (sgl ! i) + ucast (snd (sgl ! i))"
proof -
  have jl: "b_j b < length (b_desc b)" using inv j by (simp add: build_inv_def)
  have blk: "blk = take (b_j b) (b_desc b) @ [d]"
    unfolding blk_def using jl by (rule take_list_update_Suc)
  have le: "unat (b_cont_len b) \<le> XDMA_DESC_MAX_BYTES - PAGE_SIZE"
    using inv by (simp add: build_inv_def)
  show len: "unat len = unat (b_cont_len b) + unat (snd (sgl ! i))"
    unfolding len_def using le small
    by (intro unat_add_small) (simp add: XDMA_DESC_MAX_BYTES_def PAGE_SIZE_def)
  show max: "unat len \<le> longest_desc m"
    unfolding len longest_desc_def using le small(1) by simp
  show "length ds' = length ds" using inv by (simp add: ds'_def build_inv_def)
  have u: "(ucast len :: u64) = of_nat (unat len)"
      "(ucast (b_cont_len b) :: u64) = of_nat (unat (b_cont_len b))"
      "(ucast (snd (sgl ! i)) :: u64) = of_nat (unat (snd (sgl ! i)))"
    by (simp_all only: of_nat_unat)
  have cont: "b_cont_addr b + of_nat (unat (b_cont_len b)) = fst (sgl ! i)"
    using inv unfolding u(2) [symmetric] by (simp add: build_inv_def)
  show "b_cont_addr b + ucast len = fst (sgl ! i) + ucast (snd (sgl ! i))"
    unfolding u(1) u(3) len of_nat_add cont [symmetric] by (simp only: ac_simps)
  show rc: "rc_bytes dir blk = sgl_bytes (take (Suc i) sgl)"
    using inv unfolding build_inv_def blk rc_bytes_snoc sgl_bytes_take [OF i] d_def desc_set_fields
    by (simp add: len cont flip: addr_bytes_append append_assoc)
  show "\<forall>d\<in>set blk. desc_len d \<le> longest_desc m"
    using inv max by (auto simp: blk build_inv_def d_def)
  show "if fixed then \<forall>d\<in>set blk. desc_ep dir d = ep
         else ep_bytes dir blk = addr_bytes ep (length (rc_bytes dir blk))
           \<and> b_ep_addr b + ucast len = ep + of_nat (length (rc_bytes dir blk))"
  proof (cases fixed)
    case True
    then show ?thesis using inv by (auto simp: blk build_inv_def d_def)
  next
    case False
    let ?l = "length (rc_bytes dir (take (b_j b) (b_desc b)))"
    have "ep_bytes dir (take (b_j b) (b_desc b)) = addr_bytes ep ?l" "b_ep_addr b = ep + of_nat ?l"
      using inv False by (simp_all add: build_inv_def)
    then show ?thesis
      using False unfolding blk ep_bytes_snoc rc_bytes_snoc d_def desc_set_fields u(1)
      by (simp only: addr_bytes_append length_append length_addr_bytes of_nat_add if_False ac_simps simp_thms)
  qed
  show "map d_control ds' = map d_control ds" "map desc_next ds' = map desc_next ds"
      "map d_next_lo ds' = map d_next_lo ds"
    using inv jl by (simp_all add: ds'_def build_inv_def map_list_update_same d_def)
qed

lemma build_step_inv:
  assumes inv: "build_inv m dir (us \<and> ni) sgl ep ds i b" and i: "i + 1 < length sgl" "i < length ds"
    and small: "unat (snd (sgl ! i)) \<le> m" "m + XDMA_DESC_MAX_BYTES \<le> 2 ^ 32"
  shows "\<exists>b'. build_step dir ni force us sgl i b = Inr b' \<and> build_inv m dir (us \<and> ni) sgl ep ds (Suc i) b'"
proof -
  let ?len = "b_cont_len b + snd (sgl ! i)" and ?next = "fst (sgl ! (i + 1))"
  have il: "i < length sgl" and j: "b_j b < length ds" "b_j b \<le> i" and jl: "b_j b < length (b_desc b)"
    using inv i by (auto simp: build_inv_def)
  note close = build_close [OF inv il j(1) small]
  let ?d = "xdma_desc_set (b_desc b ! b_j b) (b_cont_addr b) (b_ep_addr b) ?len dir"
  let ?new = "(force \<and> \<not> us) \<or> ?next \<noteq> b_addr b + ucast (snd (sgl ! i))
    \<or> unat ?len > XDMA_DESC_MAX_BYTES - PAGE_SIZE"
  have addr: "b_addr b = fst (sgl ! i)" using inv by (simp add: build_inv_def)
  show ?thesis
  proof (cases ?new)
    case True
    define b' where "b' = \<lparr>b_j = b_j b + 1, b_cont_addr = ?next, b_addr = ?next, b_cont_len = 0,
      b_ep_addr = (if us \<and> ni then b_ep_addr b else b_ep_addr b + ucast ?len),
      b_desc = (b_desc b)[b_j b := ?d]\<rparr>"
    have "build_step dir ni force us sgl i b = Inr b'"
      using True i jl by (auto simp: build_step_def b'_def split_beta Let_def)
    moreover have "build_inv m dir (us \<and> ni) sgl ep ds (Suc i) b'"
      using close j(2) inv unfolding build_inv_def b'_def by (auto simp: XDMA_DESC_MAX_BYTES_def PAGE_SIZE_def)
    ultimately show ?thesis by blast
  next
    case False
    define b' where "b' = b\<lparr>b_addr := ?next, b_cont_len := ?len\<rparr>"
    have "build_step dir ni force us sgl i b = Inr b'"
      using False i by (auto simp: build_step_def b'_def split_beta Let_def)
    moreover have "build_inv m dir (us \<and> ni) sgl ep ds (Suc i) b'"
    proof -
      have cover: "rc_bytes dir (take (b_j b) (b_desc b)) @ addr_bytes (b_cont_addr b) (unat ?len) =
          sgl_bytes (take (Suc i) sgl)"
        using close(4) unfolding take_list_update_Suc [OF jl] rc_bytes_snoc by simp
      show ?thesis
        using inv False close(10) cover unfolding build_inv_def b'_def by (auto simp: addr)
    qed
    ultimately show ?thesis by blast
  qed
qed

text \<open>What the built descriptors promise of the scatterlist they were built from.\<close>

definition describes_upto :: "nat \<Rightarrow> bool \<Rightarrow> bool \<Rightarrow> u64 \<Rightarrow> (u64 \<times> u32) list \<Rightarrow> xdma_desc list \<Rightarrow> bool" where
  "describes_upto m dir fixed ep sgl blk \<longleftrightarrow>
     rc_bytes dir blk = sgl_bytes sgl
     \<and> (\<forall>d\<in>set blk. desc_len d \<le> m)
     \<and> (if fixed then \<forall>d\<in>set blk. desc_ep dir d = ep
        else ep_bytes dir blk = addr_bytes ep (sgl_total sgl))"

abbreviation describes :: "bool \<Rightarrow> bool \<Rightarrow> u64 \<Rightarrow> (u64 \<times> u32) list \<Rightarrow> xdma_desc list \<Rightarrow> bool" where
  "describes \<equiv> describes_upto XDMA_DESC_MAX_BYTES"

lemma transfer_build_upto:
  assumes "1 \<le> n" "n \<le> length sgl" "n \<le> length ds" "\<forall>i<n. unat (snd (sgl ! i)) \<le> m" "m + XDMA_DESC_MAX_BYTES \<le> 2 ^ 32"
  shows "\<exists>j ds'. transfer_build sgl n ds ep dir non_incr force_new userspace = Inr (j, ds') \<and> j < n
    \<and> length ds' = length ds
    \<and> describes_upto (longest_desc m) dir (userspace \<and> non_incr) ep (take n sgl) (take (j + 1) ds')
    \<and> map d_control ds' = map d_control ds \<and> map desc_next ds' = map desc_next ds
    \<and> map d_next_lo ds' = map d_next_lo ds"
proof -
  let ?b0 = "\<lparr>b_j = 0, b_cont_addr = fst (sgl ! 0), b_addr = fst (sgl ! 0), b_cont_len = 0,
    b_ep_addr = ep, b_desc = ds\<rparr>"
  let ?fixed = "userspace \<and> non_incr"
  have "build_inv m dir ?fixed sgl ep ds 0 ?b0"
    by (simp add: build_inv_def rc_bytes_def ep_bytes_def sgl_bytes_def)
  then have "\<exists>b. for_loop (n - 1) 0 (build_step dir non_incr force_new userspace sgl) ?b0 = Inr b
      \<and> build_inv m dir ?fixed sgl ep ds (0 + (n - 1)) b"
    by (rule for_loop_total) (rule build_step_inv; use assms in simp)
  then obtain b where b: "for_loop (n - 1) 0 (build_step dir non_incr force_new userspace sgl) ?b0 = Inr b"
      "build_inv m dir ?fixed sgl ep ds (n - 1) b" by auto
  let ?i = "n - 1"
  have i: "?i < length sgl" "b_j b < length ds" "b_j b \<le> ?i" "unat (snd (sgl ! ?i)) \<le> m"
    using assms b(2) by (auto simp: build_inv_def)
  have jl: "b_j b < length (b_desc b)" using b(2) i by (simp add: build_inv_def)
  note close = build_close [OF b(2) i(1,2,4) assms(5)]
  let ?ds' = "(b_desc b)[b_j b := xdma_desc_set (b_desc b ! b_j b) (b_cont_addr b) (b_ep_addr b)
    (b_cont_len b + snd (sgl ! ?i)) dir]"
  have s0: "0 < length sgl" and nb: "\<not> n < b_j b" using i assms by auto
  have "transfer_build sgl n ds ep dir non_incr force_new userspace = Inr (b_j b, ?ds')"
    using b(1) i s0 jl nb by (simp add: transfer_build_def split_beta)
  moreover have "describes_upto (longest_desc m) dir ?fixed ep (take n sgl) (take (b_j b + 1) ?ds')"
    using close(4-6) assms(1) by (simp add: describes_upto_def length_sgl_bytes split: if_splits)
  ultimately show ?thesis using i close(3,7-9) assms(1) by auto
qed

text \<open>Entries of a page fit; one that the mapping has merged may give a descriptor beyond the limit.\<close>

lemmas transfer_build_total = transfer_build_upto [where m = PAGE_SIZE, unfolded longest_desc_page]

lemma merged_entry_exceeds_limit:
  assumes "XDMA_DESC_MAX_BYTES < unat len" "ds \<noteq> []"
  shows "\<exists>ds'. transfer_build [(addr, len)] 1 ds ep dir non_incr force_new userspace = Inr (0, ds')
    \<and> XDMA_DESC_MAX_BYTES < desc_len (ds' ! 0)"
  using assms by (cases ds) (simp_all add: transfer_build_def array_mod_def array_get_def)

text \<open>
  C2: With scatterlist entries of at most a page, building the descriptors stays inside
  both arrays and never reaches its BUG_ON. The descriptors it fills move exactly the
  bytes of the scatterlist, in order; each is within the size limit of a descriptor; the
  endpoint addresses run on without gap, or stay at the start in the non-incrementing mode
  of user transfers; the chain (control words and next pointers) is left as allocated.
\<close>

theorem transfer_build_refines:
  assumes "1 \<le> n" "n \<le> length sgl" "n \<le> length ds" "\<forall>i<n. unat (snd (sgl ! i)) \<le> PAGE_SIZE"
  shows "\<exists>j ds'. transfer_build sgl n ds ep dir non_incr force_new userspace = Inr (j, ds') \<and> j < n
    \<and> length ds' = length ds
    \<and> describes dir (userspace \<and> non_incr) ep (take n sgl) (take (j + 1) ds')
    \<and> map d_control ds' = map d_control ds \<and> map desc_next ds' = map desc_next ds
    \<and> map d_next_lo ds' = map d_next_lo ds"
  using transfer_build_total [OF assms] by (simp add: XDMA_DESC_MAX_BYTES_def PAGE_SIZE_def)

theorem transfer_build_refines_witness:
  "\<exists>ds'. transfer_build [(0x8000, 0x1000), (0x9000, 0x200)] 2 [zero_desc, zero_desc] 0x40 True False False True
      = Inr (0, ds') \<and> describes True False 0x40 [(0x8000, 0x1000), (0x9000, 0x200)] (take 1 ds')"
proof -
  have "run_ok (\<lambda>(j, _). j = 0)
      (transfer_build [(0x8000, 0x1000), (0x9000, 0x200)] 2 [zero_desc, zero_desc] 0x40 True False False True)"
    by (simp add: run_ok_def transfer_build_def build_step_def Let_def PAGE_SIZE_def XDMA_DESC_MAX_BYTES_def)
  then obtain ds' where r: "transfer_build [(0x8000, 0x1000), (0x9000, 0x200)] 2 [zero_desc, zero_desc] 0x40
      True False False True = Inr (0, ds')"
    by (auto elim!: run_okE)
  have "\<forall>i<2. unat (snd ([(0x8000, 0x1000), (0x9000, 0x200)] ! i :: u64 \<times> u32)) \<le> PAGE_SIZE"
    by (simp add: PAGE_SIZE_def less_2_cases_iff)
  from transfer_build_refines [OF _ _ _ this, of "[zero_desc, zero_desc]" "0x40" True False False True]
  show ?thesis unfolding r by simp
qed

subsection \<open>The finished chain\<close>

definition LAST_FLAGS :: u32 where
  [reg_simps]: "LAST_FLAGS = XDMA_DESC_STOPPED OR XDMA_DESC_EOP OR XDMA_DESC_COMPLETED"

text \<open>
  What the engine finds: \<open>n\<close> linked descriptors at \<open>bus\<close>, only the last of which stops the
  engine, and prefetch counts that stay in the chain and in the page.
\<close>

definition chain_ok :: "nat \<Rightarrow> u64 \<Rightarrow> xdma_desc list \<Rightarrow> bool" where
  "chain_ok n bus ds \<longleftrightarrow> 0 < n \<and> n \<le> length ds \<and> (\<forall>i<n.
     desc_magic (ds ! i) = 0xAD4B0000
     \<and> desc_next (ds ! i) = (if i + 1 < n then bus_at bus (i + 1) else 0)
     \<and> desc_flags (ds ! i) = (if i + 1 < n then 0 else LAST_FLAGS)
     \<and> (i + 1 < n \<longrightarrow> i + 1 + desc_extra_adj (ds ! i) < n)
     \<and> next_page_offset (ds ! i) + 32 * (desc_extra_adj (ds ! i) + 1) \<le> 0x1000)"

lemma last_flags_low: "LAST_FLAGS AND NOT LS_BYTE_MASK = 0"
  by (simp add: reg_simps)

lemma link_last_keeps:
  "desc_rc dir (xdma_desc_link d s) = desc_rc dir d" "desc_ep dir (xdma_desc_link d s) = desc_ep dir d"
  "desc_len (xdma_desc_link d s) = desc_len d" "next_page_offset (xdma_desc_link d None) = 0"
  by (cases s; simp add: xdma_desc_link_def desc_rc_def desc_ep_def desc_len_def next_page_offset_def Let_def)+

lemma control_keeps_addr:
  assumes "xdma_desc_control d f = Inr d'"
  shows "desc_rc dir d' = desc_rc dir d" "desc_ep dir d' = desc_ep dir d" "desc_len d' = desc_len d"
    "next_page_offset d' = next_page_offset d"
  using assms by (auto simp: xdma_desc_control_def bindr_eq_Inr desc_rc_def desc_ep_def desc_len_def next_page_offset_def)

lemma adjacent_keeps_addr:
  "desc_rc dir (xdma_desc_adjacent d a) = desc_rc dir d"
  "desc_ep dir (xdma_desc_adjacent d a) = desc_ep dir d"
  "desc_len (xdma_desc_adjacent d a) = desc_len d"
  "next_page_offset (xdma_desc_adjacent d a) = next_page_offset d"
  by (simp_all add: xdma_desc_adjacent_def desc_rc_def desc_ep_def desc_len_def next_page_offset_def Let_def)

lemma describes_cong:
  assumes "map (\<lambda>d. (desc_rc dir d, desc_ep dir d, desc_len d)) xs =
    map (\<lambda>d. (desc_rc dir d, desc_ep dir d, desc_len d)) ys"
  shows "describes_upto n dir fixed ep sgl xs \<longleftrightarrow> describes_upto n dir fixed ep sgl ys"
proof -
  let ?f = "\<lambda>d. (desc_rc dir d, desc_ep dir d, desc_len d)"
  have 1: "rc_bytes dir zs = concat (map (\<lambda>(r, e, l). addr_bytes r l) (map ?f zs))"
    "ep_bytes dir zs = concat (map (\<lambda>(r, e, l). addr_bytes e l) (map ?f zs))" for zs
    by (simp_all add: rc_bytes_def ep_bytes_def comp_def)
  have 2: "(\<forall>d\<in>set zs. desc_len d \<le> m) \<longleftrightarrow> (\<forall>(r, e, l)\<in>set (map ?f zs). l \<le> m)"
    "(\<forall>d\<in>set zs. desc_ep dir d = ep) \<longleftrightarrow> (\<forall>(r, e, l)\<in>set (map ?f zs). e = ep)" for zs m
    by auto
  show ?thesis unfolding describes_upto_def 1 2 assms ..
qed

lemma bus_at_aligned:
  assumes "unat bus mod 32 = 0"
  shows "unat (bus_at bus i) mod 32 = 0"
proof -
  have "unat (bus + of_nat k) = (unat bus + k) mod 2 ^ 64" for k
    by (simp add: unat_word_ariths unat_of_nat mod_add_right_eq)
  from this [of "32 * i"] have "unat (bus_at bus i) = (unat bus + 32 * i) mod 2 ^ 64"
    by (simp only: bus_at_def DESC_SIZE_def)
  moreover have "x mod 2 ^ 64 mod 32 = x mod 32" for x :: nat by (simp add: mod_mod_cancel)
  ultimately show ?thesis using assms by simp
qed

lemma unat_PCI_DMA_L: "unat (PCI_DMA_L a) = unat a mod 2 ^ 32"
proof -
  have "unat (PCI_DMA_L a) = unat (a AND mask 32)"
    unfolding PCI_DMA_L_def u32_mask
    by (rule unat_ucast_small) (simp add: unat_and_mask)
  then show ?thesis by (simp only: unat_and_mask)
qed

lemma next_offset_of_next:
  assumes "d_next_lo d = PCI_DMA_L a"
  shows "next_page_offset d = unat a mod 4096"
  unfolding next_page_offset_mod assms unat_PCI_DMA_L
  by (simp add: mod_mod_cancel)

lemma finish_descs_chain:
  assumes len: "j < length ds"
    and ctl: "\<And>i. i < j \<Longrightarrow> desc_flags (ds ! i) = 0 \<and> desc_magic (ds ! i) = 0xAD4B0000"
    and nxt: "\<And>i. i < j \<Longrightarrow> d_next_lo (ds ! i) = PCI_DMA_L (bus_at bus (i + 1))
       \<and> desc_next (ds ! i) = bus_at bus (i + 1)"
    and al: "unat bus mod 32 = 0"
  shows "\<exists>ds'. finish_descs j ds = Inr ds' \<and> length ds' = length ds \<and> chain_ok (j + 1) bus ds'
    \<and> map (\<lambda>d. (desc_rc dir d, desc_ep dir d, desc_len d)) ds' =
      map (\<lambda>d. (desc_rc dir d, desc_ep dir d, desc_len d)) ds"
proof -
  obtain d' where d': "xdma_desc_control (xdma_desc_link (ds ! j) None) LAST_FLAGS = Inr d'"
    using control_ok_iff(1) last_flags_low by blast
  note c = control_keeps [OF d'] control_keeps_addr [OF d'] link_fields link_last_keeps
  let ?ds2 = "ds[j := d']"
  let ?ds3 = "map (\<lambda>k. xdma_desc_adjacent (?ds2 ! k) (int (j + 1) - int k - 1)) [0..<j + 1] @ drop (j + 1) ?ds2"
  have fin: "finish_descs j ds = Inr ?ds3"
    using len d' set_adjacent_eq [of "j + 1" ?ds2]
    by (simp add: finish_descs_def transfer_perf_def LAST_FLAGS_def)
  have off: "next_page_offset (?ds2 ! k) mod 32 = 0" if "k \<le> j" for k
  proof (cases "k = j")
    case False
    with that have "k < j" by simp
    then have "next_page_offset (?ds2 ! k) = unat (bus_at bus (k + 1)) mod 4096"
      using nxt next_offset_of_next [of "ds ! k"] len by simp
    then show ?thesis using bus_at_aligned [OF al, of "k + 1"] by (simp add: mod_mod_cancel)
  qed (use len c in simp)
  have nth: "?ds3 ! k = xdma_desc_adjacent (?ds2 ! k) (int j - int k)" if "k \<le> j" for k
    using that by (simp add: nth_append less_Suc_eq_le del: upt_Suc)
  have "chain_ok (j + 1) bus ?ds3"
    unfolding chain_ok_def
  proof (intro conjI allI impI)
    fix k assume "k < j + 1"
    then have k: "k \<le> j" by simp
    note a = adjacent_fields [OF off [OF k], of "int j - int k"]
    show "desc_magic (?ds3 ! k) = 0xAD4B0000"
      unfolding nth [OF k] by (rule a(2))
    show "desc_next (?ds3 ! k) = (if k + 1 < j + 1 then bus_at bus (k + 1) else 0)"
      unfolding nth [OF k] a(4) using k nxt len c by (cases "k = j") auto
    show "desc_flags (?ds3 ! k) = (if k + 1 < j + 1 then 0 else LAST_FLAGS)"
      unfolding nth [OF k] a(3) using k ctl len c by (cases "k = j") auto
    show "k + 1 + desc_extra_adj (?ds3 ! k) < j + 1" if "k + 1 < j + 1"
      unfolding nth [OF k] a(1) using that extra_count_bounds(2) [of "int j - int k"] by linarith
    show "next_page_offset (?ds3 ! k) + 32 * (desc_extra_adj (?ds3 ! k) + 1) \<le> 0x1000"
      unfolding nth [OF k] adjacent_keeps_addr by (rule adjacent_within_page [OF off [OF k]])
  qed (use len in simp_all)
  moreover have "map (\<lambda>d. (desc_rc dir d, desc_ep dir d, desc_len d)) ?ds3 =
      map (\<lambda>d. (desc_rc dir d, desc_ep dir d, desc_len d)) ds"
    (is "map ?f ?ds3 = map ?f ds")
  proof (rule nth_equalityI)
    show l: "length (map ?f ?ds3) = length (map ?f ds)" using len by simp
    fix k assume "k < length (map ?f ?ds3)"
    then have kl: "k < length ds" "k < length ?ds3" using len by simp_all
    have "?f (?ds3 ! k) = ?f (ds ! k)"
    proof (cases "k \<le> j")
      case True
      then show ?thesis
        unfolding nth [OF True] adjacent_keeps_addr using len kl c by (cases "k = j") simp_all
    next
      case False
      then show ?thesis using len kl by (simp add: nth_append)
    qed
    then show "map ?f ?ds3 ! k = map ?f ds ! k"
      using nth_map [OF kl(2), of ?f] nth_map [OF kl(1), of ?f] by (simp only:)
  qed
  ultimately show ?thesis using fin len by (intro exI [of _ ?ds3]) simp
qed

lemma created_upto:
  assumes run: "transfer_create k start cnt ep dir non_incr force_new userspace w = Inr (Some t, w')"
    and aligned: "unat (t_desc_bus t) mod 32 = 0"
    and entries: "\<forall>i < t_sgl_nents t. unat (snd (k_dma k i)) \<le> m" "m + XDMA_DESC_MAX_BYTES \<le> 2 ^ 32"
  shows "\<exists>ds. t_desc_virt t = Some ds \<and> chain_ok (t_desc_num t) (t_desc_bus t) ds
    \<and> describes_upto (longest_desc m) dir (userspace \<and> non_incr) ep (map (k_dma k) [0..<t_sgl_nents t]) (take (t_desc_num t) ds)
    \<and> length ds = t_sgl_nents t \<and> t_state t = TRANSFER_STATE_NEW \<and> \<not> t_cyclic t"
proof -
  from run obtain w1 sgm w2 rc sgm' w3 nents w4 ds0 bus w5 j ds1 ds2 where
      alloc: "xdma_desc_alloc (k_fresh k) (int nents) w4 = Inr (Some (ds0, bus), w5)"
    and build: "transfer_build (map (k_dma k) [0..<length (sgm_sgl sgm')]) nents ds0 ep dir non_incr
        force_new userspace = Inr (j, ds1)"
    and fin: "finish_descs j ds1 = Inr ds2"
    and t: "t = new_transfer\<lparr>t_dir_to_dev := dir, t_sgm := Some sgm', t_userspace := userspace,
        t_sgl_nents := nents, t_desc_virt := Some ds2, t_desc_bus := bus,
        t_desc_num := j + 1, t_desc_adjacent := j + 1\<rparr>"
    unfolding transfer_create_def Let_def
    by (auto simp: bindr_eq_Inr split_beta simp del: int_nat_eq split: if_splits option.splits)
  note al = alloc_nth [OF alloc]
  have n: "1 \<le> nents" "length ds0 = nents" using al(1,2) by simp_all
  let ?dma = "map (k_dma k) [0..<length (sgm_sgl sgm')]"
  have "\<exists>x. array_get ?dma (nents - 1) = Inr x"
    using build by (auto simp: transfer_build_def bindr_eq_Inr)
  then have nd: "nents \<le> length ?dma" using n(1) by (auto simp: array_get_def split: if_splits)
  have small: "\<forall>i<nents. unat (snd (?dma ! i)) \<le> m" using entries(1) nd by (simp add: t)
  obtain j' ds' where b: "transfer_build ?dma nents ds0 ep dir non_incr force_new userspace = Inr (j', ds')"
      "j' < nents" "length ds' = length ds0"
      "describes_upto (longest_desc m) dir (userspace \<and> non_incr) ep (take nents ?dma) (take (j' + 1) ds')"
      "map d_control ds' = map d_control ds0" "map desc_next ds' = map desc_next ds0"
      "map d_next_lo ds' = map d_next_lo ds0"
    using transfer_build_upto [OF n(1) nd _ small entries(2), of ds0 ep dir non_incr force_new userspace] n(2)
    by auto
  then have j: "j' = j" "ds' = ds1" using build by simp_all
  have keep: "d_control (ds1 ! i) = d_control (ds0 ! i)" "desc_next (ds1 ! i) = desc_next (ds0 ! i)"
      "d_next_lo (ds1 ! i) = d_next_lo (ds0 ! i)" if "i < nents" for i
    using b(3,5-7) that n(2) unfolding j by (metis nth_map)+
  have ds0: "desc_flags (ds0 ! i) = 0 \<and> desc_magic (ds0 ! i) = 0xAD4B0000
      \<and> d_next_lo (ds0 ! i) = PCI_DMA_L (bus_at bus (i + 1)) \<and> desc_next (ds0 ! i) = bus_at bus (i + 1)"
    if "i < j" for i
    using al(3) [of i] that b(2) j chained_desc_fields [OF extra_count_bounds(1)]
    by (simp add: chained_desc_def)
  have "\<exists>ds'. finish_descs j ds1 = Inr ds' \<and> length ds' = length ds1 \<and> chain_ok (j + 1) bus ds'
    \<and> map (\<lambda>d. (desc_rc dir d, desc_ep dir d, desc_len d)) ds' =
      map (\<lambda>d. (desc_rc dir d, desc_ep dir d, desc_len d)) ds1"
  proof (rule finish_descs_chain)
    show "j < length ds1" using b n j by simp
    show "unat bus mod 32 = 0" using aligned by (simp add: t)
    fix i assume i: "i < j"
    then have il: "i < nents" using b(2) j by simp
    show "desc_flags (ds1 ! i) = 0 \<and> desc_magic (ds1 ! i) = 0xAD4B0000"
      using ds0 [OF i] keep [OF il] by (simp add: desc_flags_def desc_magic_def)
    show "d_next_lo (ds1 ! i) = PCI_DMA_L (bus_at bus (i + 1)) \<and> desc_next (ds1 ! i) = bus_at bus (i + 1)"
      using ds0 [OF i] keep [OF il] by simp
  qed
  then have f: "length ds2 = length ds1" "chain_ok (j + 1) bus ds2"
      "map (\<lambda>d. (desc_rc dir d, desc_ep dir d, desc_len d)) ds2 =
       map (\<lambda>d. (desc_rc dir d, desc_ep dir d, desc_len d)) ds1"
    using fin by auto
  have "describes_upto (longest_desc m) dir (userspace \<and> non_incr) ep (take nents ?dma) (take (j + 1) ds2)"
    using b(4) unfolding j
    by (subst describes_cong [of dir _ "take (j + 1) ds1"]) (simp_all only: take_map [symmetric] f(3))
  moreover have "take nents ?dma = map (k_dma k) [0..<nents]"
    using nd by (simp add: take_map)
  ultimately show ?thesis
    using f b n j by (simp add: t new_transfer_def)
qed

lemma created_describes:
  assumes "transfer_create k start cnt ep dir non_incr force_new userspace w = Inr (Some t, w')"
    and "unat (t_desc_bus t) mod 32 = 0" and "\<forall>i. unat (snd (k_dma k i)) \<le> PAGE_SIZE"
  shows "\<exists>ds. t_desc_virt t = Some ds \<and> chain_ok (t_desc_num t) (t_desc_bus t) ds
    \<and> describes dir (userspace \<and> non_incr) ep (map (k_dma k) [0..<t_sgl_nents t]) (take (t_desc_num t) ds)
    \<and> length ds = t_sgl_nents t \<and> t_state t = TRANSFER_STATE_NEW \<and> \<not> t_cyclic t"
  using created_upto [OF assms(1,2), of PAGE_SIZE] assms(3)
  by (simp add: longest_desc_page) (simp add: XDMA_DESC_MAX_BYTES_def PAGE_SIZE_def)

text \<open>
  C1: When a transfer is created, its descriptors are a complete chain at a 32-byte
  aligned bus address (only the last one stops the engine and asks for an interrupt) and
  they describe exactly the DMA-mapped scatterlist at the endpoint address, in every
  mode and direction. The kernel may merge entries when it maps them: with entries of at
  most \<open>m\<close> bytes a descriptor has at most \<open>m\<close> minus a page more than the engine's limit, so
  that it is within the limit when nothing was merged. The sum of \<open>m\<close> and the limit has to be
  below four gigabytes, as for every request the driver splits into transfers.
\<close>

theorem transfer_create_describes:
  assumes run: "transfer_create k start cnt ep dir non_incr force_new userspace w = Inr (Some t, w')"
    and aligned: "unat (t_desc_bus t) mod 32 = 0"
    and entries: "\<forall>i < t_sgl_nents t. unat (snd (k_dma k i)) \<le> m" "m + XDMA_DESC_MAX_BYTES \<le> 2 ^ 32"
  shows "\<exists>ds. t_desc_virt t = Some ds \<and> chain_ok (t_desc_num t) (t_desc_bus t) ds
    \<and> describes_upto (longest_desc m) dir (userspace \<and> non_incr) ep (map (k_dma k) [0..<t_sgl_nents t]) (take (t_desc_num t) ds)
    \<and> length ds = t_sgl_nents t \<and> t_state t = TRANSFER_STATE_NEW \<and> \<not> t_cyclic t"
  using assms by (rule created_upto)

definition sample_grants :: kernel_grants where
  "sample_grants = \<lparr>k_pinned = (\<lambda>i. i + 1), k_fresh = (\<lambda>_. zero_desc), k_dma = (\<lambda>i. (0x8000, 0x1000))\<rparr>"

theorem transfer_create_describes_witness:
  "\<exists>t w' ds. transfer_create sample_grants 0x1000 0x1000 0 True False False True idle_world = Inr (Some t, w')
    \<and> t_desc_virt t = Some ds \<and> chain_ok (t_desc_num t) (t_desc_bus t) ds"
proof -
  have "run_ok (\<lambda>(r, _). case r of Some t \<Rightarrow> unat (t_desc_bus t) mod 32 = 0 | None \<Rightarrow> False)
      (transfer_create sample_grants 0x1000 0x1000 0 True False False True idle_world)"
    by code_simp
  then obtain t w' where t: "transfer_create sample_grants 0x1000 0x1000 0 True False False True idle_world
        = Inr (Some t, w')" "unat (t_desc_bus t) mod 32 = 0"
    by (auto elim!: run_okE split: option.splits)
  have "\<forall>i < t_sgl_nents t. unat (snd (k_dma sample_grants i)) \<le> PAGE_SIZE" "PAGE_SIZE + XDMA_DESC_MAX_BYTES \<le> 2 ^ 32"
    by (simp_all add: sample_grants_def PAGE_SIZE_def XDMA_DESC_MAX_BYTES_def)
  from transfer_create_describes [OF t this] t(1) show ?thesis by blast
qed

text \<open>
  A user buffer that cannot be pinned (it wraps around, or the kernel pins fewer
  pages than asked) does not fail the request: creating its transfer runs into a BUG_ON.
\<close>

theorem transfer_create_bad_buffer:
  assumes "w_kern w (w_log w) (Kzalloc 2) \<noteq> 0"
    and "sg_create_mapper cnt (snd (kcall (Kzalloc 2) w)) = (Some sgm, w1)"
    and "sgm_get_user_pages (k_pinned k) sgm start cnt w1 = Inr (rc, sgm', w2)" "rc < 0"
  shows "transfer_create k start cnt ep dir non_incr force_new True w = Inl BugOn"
  using assms by (simp add: transfer_create_def split_beta Let_def)

theorem transfer_create_bad_buffer_witness:
  "transfer_create sample_grants 0xFFFFFFFFFFFFF800 0x1000 0 True False False True idle_world = Inl BugOn"
proof -
  obtain sgm w1 where m: "sg_create_mapper 0x1000 (snd (kcall (Kzalloc 2) idle_world)) = (Some sgm, w1)"
      "mapped_pages sgm = 0"
    by (simp add: sg_create_mapper_def kcall_def idle_world_def Let_def)
  have "sgm_get_user_pages (k_pinned sample_grants) sgm 0xFFFFFFFFFFFFF800 0x1000 w1 = Inr (- EINVAL, sgm, w1)"
    by (simp add: sgm_get_user_pages_def Let_def m(2))
  from transfer_create_bad_buffer [OF _ m(1) this] show ?thesis
    by (simp add: idle_world_def EINVAL_def)
qed

end
