(* ===== verification/Xdma_Engine.thy ===== *)
theory Xdma_Engine
  imports Xdma_Transfer
begin

unbundle bit_operations_syntax

text \<open>
  The DMA engine of driver/xdma-core.c: its record, the heap of transfers, and the
  routines that start it, stop it and queue a transfer on it. One \<open>engine_state\<close> holds
  an engine, the transfers it may name, the world it acts on and the module parameters.
  A routine that the code runs on a null or freed transfer is a fault of the model.

  The lemmas give the frame of every primitive, the control words, what a start writes to
  the device and in which order, and the outcome of queueing a transfer.
\<close>

subsection \<open>The state of an engine\<close>

record xdma_performance =
  p_version :: u32
  p_transfer_size :: u32
  p_stopped :: u32
  p_iterations :: u32
  p_clock_cycle_count :: u64
  p_data_cycle_count :: u64
  p_pending_count :: u64

record xdma_result =
  r_status :: u32
  r_length :: u32

definition MAGIC_ENGINE :: u32 where [reg_simps]: "MAGIC_ENGINE = 0xEEEEEEEE"
definition ENGINE_SHUTDOWN_NONE :: u32 where [reg_simps]: "ENGINE_SHUTDOWN_NONE = 0"
definition ENGINE_SHUTDOWN_REQUEST :: u32 where [reg_simps]: "ENGINE_SHUTDOWN_REQUEST = 1"
definition ENGINE_SHUTDOWN_IDLE :: u32 where [reg_simps]: "ENGINE_SHUTDOWN_IDLE = 2"

text \<open>
  Transfers live in a heap and are named by numbers; the queue \<open>e_transfer_list\<close> is the
  list of their names, first in first out. Pointers that may be null are options
  (\<open>e_rx_buffer\<close> is an address, 0 for null). \<open>e_rx_result\<close> and \<open>e_writeback\<close> are host
  memory the device writes to: the results of the receive ring, and the descriptor count
  of polled mode. \<open>e_lock\<close> tells whether the spin lock is taken.
\<close>

record xdma_engine =
  e_magic :: u32
  e_regs :: iomem
  e_sgdma_regs :: iomem
  e_bypass_offset :: u32
  e_shutdown :: u32
  e_running :: bool
  e_streaming :: bool
  e_non_incr_addr :: bool
  e_dir_to_dev :: bool
  e_addr_align :: u32
  e_len_granularity :: u32
  e_addr_bits :: u32
  e_channel :: nat
  e_number_in_channel :: nat
  e_desc_dequeued :: s32
  e_status :: u32
  e_interrupt_enable_mask_value :: u32
  e_transfer_list :: "nat list"
  e_rx_tail :: nat
  e_rx_head :: nat
  e_rx_overrun :: bool
  e_rx_buffer :: u64
  e_rx_transfer_cyclic :: "nat option"
  e_rx_result :: "xdma_result list option"
  e_rx_result_bus :: u64
  e_writeback :: "u32 option"
  e_poll_mode_bus :: u64
  e_lock :: bool
  e_msix_irq_line :: s32
  e_irq_bitmask :: u32
  e_xdma_perf :: "xdma_performance option"
  e_eop_found :: bool
  e_user_buffer_index :: u32

text \<open>The module parameters and the parts of the device structure an engine reads.\<close>

record module_params =
  poll_mode :: bool
  enable_credit_mp :: bool
  msix_enabled :: bool
  config_bar :: iomem

record engine_state =
  eng :: xdma_engine
  xfers :: "nat \<Rightarrow> xdma_transfer option"
  next_xfer :: nat
  wld :: world
  par :: module_params

definition upd_eng :: "(xdma_engine \<Rightarrow> xdma_engine) \<Rightarrow> engine_state \<Rightarrow> engine_state" where
  "upd_eng f s = s\<lparr>eng := f (eng s)\<rparr>"

definition upd_wld :: "(world \<Rightarrow> world) \<Rightarrow> engine_state \<Rightarrow> engine_state" where
  "upd_wld f s = s\<lparr>wld := f (wld s)\<rparr>"

definition xfer :: "nat \<Rightarrow> engine_state \<Rightarrow> xdma_transfer run" where
  "xfer t s = (case xfers s t of None \<Rightarrow> Inl UseAfterFree | Some x \<Rightarrow> Inr x)"

definition upd_xfer :: "nat \<Rightarrow> (xdma_transfer \<Rightarrow> xdma_transfer run) \<Rightarrow> engine_state \<Rightarrow> engine_state run" where
  "upd_xfer t f s = bindr (xfer t s) (\<lambda>x. bindr (f x) (\<lambda>x. Inr (s\<lparr>xfers := (xfers s)(t \<mapsto> x)\<rparr>)))"

definition free_xfer :: "nat \<Rightarrow> engine_state \<Rightarrow> engine_state run" where
  "free_xfer t s = bindr (xfer t s) (\<lambda>x. bindr (transfer_destroy x (wld s)) (\<lambda>w.
     Inr (s\<lparr>xfers := (xfers s)(t := None), wld := w\<rparr>)))"

definition set_transfer_state :: "transfer_state \<Rightarrow> nat \<Rightarrow> engine_state \<Rightarrow> engine_state run" where
  "set_transfer_state st t = upd_xfer t (\<lambda>x. Inr (x\<lparr>t_state := st\<rparr>))"

definition spin_lock :: "engine_state \<Rightarrow> engine_state run" where
  "spin_lock s = (if e_lock (eng s) then Inl Deadlock else Inr (upd_eng (e_lock_update (\<lambda>_. True)) s))"

definition spin_unlock :: "engine_state \<Rightarrow> engine_state" where
  "spin_unlock s = upd_eng (e_lock_update (\<lambda>_. False)) s"

definition read_reg :: "iomem \<Rightarrow> engine_state \<Rightarrow> u32 \<times> engine_state" where
  "read_reg a s = (let (v, w) = read_register a (wld s) in (v, s\<lparr>wld := w\<rparr>))"

definition write_reg :: "u32 \<Rightarrow> iomem \<Rightarrow> engine_state \<Rightarrow> engine_state" where
  "write_reg v a s = upd_wld (write_register v a) s"

definition wake_up :: "waitq \<Rightarrow> engine_state \<Rightarrow> engine_state" where
  "wake_up q s = upd_wld (emit (Wake q)) s"

subsection \<open>Starting and stopping\<close>

definition engine_status_read :: "bool \<Rightarrow> engine_state \<Rightarrow> u32 \<times> engine_state" where
  "engine_status_read clear s =
     (let (v, s) = read_reg (e_regs (eng s) + er (if clear then R_status_rc else R_status)) s
      in (v, upd_eng (e_status_update (\<lambda>_. v)) s))"

definition stop_control :: "engine_state \<Rightarrow> u32" where
  "stop_control s =
     (let w = XDMA_CTRL_IE_DESC_ALIGN_MISMATCH OR XDMA_CTRL_IE_MAGIC_STOPPED OR XDMA_CTRL_IE_READ_ERROR
            OR XDMA_CTRL_IE_DESC_ERROR in
      if poll_mode (par s) then w OR XDMA_CTRL_POLL_MODE_WB
      else let w = w OR XDMA_CTRL_IE_DESC_STOPPED OR XDMA_CTRL_IE_DESC_COMPLETED in
        if e_streaming (eng s) \<and> \<not> e_dir_to_dev (eng s) \<or> e_xdma_perf (eng s) \<noteq> None
        then w OR XDMA_CTRL_IE_IDLE_STOPPED else w)"

definition xdma_engine_stop :: "engine_state \<Rightarrow> engine_state" where
  "xdma_engine_stop s = write_reg (stop_control s) (e_regs (eng s) + er R_control) s"

definition engine_cyclic_stop :: "engine_state \<Rightarrow> (nat option \<times> engine_state) run" where
  "engine_cyclic_stop s = (case e_transfer_list (eng s) of
       [] \<Rightarrow> Inr (None, s)
     | t # _ \<Rightarrow>
         let s = xdma_engine_stop s in
         bindr (xfer t s) (\<lambda>x.
           if t_cyclic x then
             bindr (upd_xfer t (\<lambda>x.
                 if t_desc_num x = 0 then Inl OutOfBounds
                 else with_descs (array_mod (t_desc_num x - 1)
                   (\<lambda>d. xdma_desc_control d (XDMA_DESC_COMPLETED OR XDMA_DESC_STOPPED))) (x\<lparr>t_cyclic := True\<rparr>)) s)
               (\<lambda>s. Inr (Some t, s))
           else Inr (Some t, s)))"

definition start_control :: "engine_state \<Rightarrow> u32" where
  "start_control s =
     (let w = XDMA_CTRL_RUN_STOP OR XDMA_CTRL_IE_READ_ERROR OR XDMA_CTRL_IE_DESC_ERROR
            OR XDMA_CTRL_IE_DESC_ALIGN_MISMATCH OR XDMA_CTRL_IE_MAGIC_STOPPED in
      if poll_mode (par s) then w OR XDMA_CTRL_POLL_MODE_WB
      else let w = w OR XDMA_CTRL_IE_DESC_STOPPED OR XDMA_CTRL_IE_DESC_COMPLETED;
               w = (if e_streaming (eng s) \<and> \<not> e_dir_to_dev (eng s) then w OR XDMA_CTRL_IE_IDLE_STOPPED else w);
               w = (if e_xdma_perf (eng s) \<noteq> None then w OR XDMA_CTRL_IE_IDLE_STOPPED else w)
           in if e_non_incr_addr (eng s) then w OR XDMA_CTRL_NON_INCR_ADDR else w)"

definition engine_start_mode_config :: "engine_state \<Rightarrow> engine_state" where
  "engine_start_mode_config s =
     (let s = (if e_xdma_perf (eng s) \<noteq> None
        then write_reg (XDMA_CTRL_IE_DESC_STOPPED OR XDMA_CTRL_IE_DESC_COMPLETED
               OR XDMA_CTRL_IE_DESC_ALIGN_MISMATCH OR XDMA_CTRL_IE_MAGIC_STOPPED OR XDMA_CTRL_IE_IDLE_STOPPED
               OR XDMA_CTRL_IE_READ_ERROR OR XDMA_CTRL_IE_DESC_ERROR)
               (e_regs (eng s) + er R_interrupt_enable_mask) s
        else s);
          s = write_reg (start_control s) (e_regs (eng s) + er R_control) s
      in snd (read_reg (e_regs (eng s) + er R_status) s))"

definition engine_start :: "engine_state \<Rightarrow> (nat \<times> engine_state) run" where
  "engine_start s =
     bindr (bug_on (e_running (eng s))) (\<lambda>_.
     case e_transfer_list (eng s) of
       [] \<Rightarrow> Inl BugOn
     | t # _ \<Rightarrow>
       let s = upd_eng (\<lambda>e. e\<lparr>e_shutdown := ENGINE_SHUTDOWN_NONE, e_desc_dequeued := 0\<rparr>) s in
       bindr (xfer t s) (\<lambda>x.
         let sg = e_sgdma_regs (eng s);
             s = write_reg (PCI_DMA_L (t_desc_bus x)) (sg + sr R_first_desc_lo) s;
             s = write_reg (PCI_DMA_H (t_desc_bus x)) (sg + sr R_first_desc_hi) s;
             extra_adj = (if t_desc_adjacent x > 0
               then min (int (t_desc_adjacent x) - 1) MAX_EXTRA_ADJ else 0);
             s = write_reg (of_int extra_adj) (sg + sr R_first_desc_adjacent) s;
             s = engine_start_mode_config s
         in Inr (t, upd_eng (e_running_update (\<lambda>_. True)) s)))"

subsection \<open>Queueing\<close>

text \<open>The result is 0, or -1 when the engine is shutting down.\<close>

definition transfer_queue :: "nat \<Rightarrow> engine_state \<Rightarrow> (int \<times> engine_state) run" where
  "transfer_queue t s =
     bindr (xfer t s) (\<lambda>x.
     bindr (bug_on (t_desc_num x = 0)) (\<lambda>_.
     bindr (spin_lock s) (\<lambda>s.
     if e_shutdown (eng s) AND ENGINE_SHUTDOWN_REQUEST \<noteq> 0 then Inr (-1, spin_unlock s)
     else
       bindr (set_transfer_state TRANSFER_STATE_SUBMITTED t s) (\<lambda>s.
       let s = upd_eng (e_transfer_list_update (\<lambda>q. q @ [t])) s in
       bindr (if \<not> e_running (eng s) then bindr (engine_start s) (\<lambda>(_, s). Inr s) else Inr s) (\<lambda>s.
         Inr (0, spin_unlock s))))))"

subsection \<open>Frames\<close>

lemma upd_eng_sel [simp]:
  "eng (upd_eng f s) = f (eng s)" "xfers (upd_eng f s) = xfers s" "wld (upd_eng f s) = wld s"
  "par (upd_eng f s) = par s" "next_xfer (upd_eng f s) = next_xfer s"
  by (simp_all add: upd_eng_def)

lemma upd_wld_sel [simp]:
  "eng (upd_wld g s) = eng s" "xfers (upd_wld g s) = xfers s" "wld (upd_wld g s) = g (wld s)"
  "par (upd_wld g s) = par s" "next_xfer (upd_wld g s) = next_xfer s"
  by (simp_all add: upd_wld_def)

lemma read_reg_sel [simp]:
  "fst (read_reg a s) = w_dev (wld s) (w_log (wld s)) a" "eng (snd (read_reg a s)) = eng s"
  "xfers (snd (read_reg a s)) = xfers s" "par (snd (read_reg a s)) = par s"
  "next_xfer (snd (read_reg a s)) = next_xfer s" "wld (snd (read_reg a s)) = emit (Rd a) (wld s)"
  by (simp_all add: read_reg_def read_register_def split_beta)

lemma write_reg_sel [simp]:
  "eng (write_reg v a s) = eng s" "xfers (write_reg v a s) = xfers s"
  "wld (write_reg v a s) = emit (Wr a v) (wld s)" "par (write_reg v a s) = par s"
  "next_xfer (write_reg v a s) = next_xfer s"
  by (simp_all add: write_reg_def write_register_def)

lemma wake_up_sel [simp]:
  "eng (wake_up q s) = eng s" "xfers (wake_up q s) = xfers s" "wld (wake_up q s) = emit (Wake q) (wld s)"
  "par (wake_up q s) = par s" "next_xfer (wake_up q s) = next_xfer s"
  by (simp_all add: wake_up_def)

lemma engine_stop_sel [simp]:
  "eng (xdma_engine_stop s) = eng s" "xfers (xdma_engine_stop s) = xfers s"
  "wld (xdma_engine_stop s) = emit (Wr (e_regs (eng s) + er R_control) (stop_control s)) (wld s)"
  "par (xdma_engine_stop s) = par s" "next_xfer (xdma_engine_stop s) = next_xfer s"
  by (simp_all add: xdma_engine_stop_def)

lemma status_read_sel [simp]:
  "eng (snd (engine_status_read c s)) = (eng s)\<lparr>e_status := w_dev (wld s) (w_log (wld s))
     (e_regs (eng s) + er (if c then R_status_rc else R_status))\<rparr>"
  "xfers (snd (engine_status_read c s)) = xfers s" "par (snd (engine_status_read c s)) = par s"
  "next_xfer (snd (engine_status_read c s)) = next_xfer s"
  "wld (snd (engine_status_read c s)) =
     emit (Rd (e_regs (eng s) + er (if c then R_status_rc else R_status))) (wld s)"
  by (simp_all add: engine_status_read_def split_beta)

lemma mode_config_sel [simp]:
  "eng (engine_start_mode_config s) = eng s" "xfers (engine_start_mode_config s) = xfers s"
  "par (engine_start_mode_config s) = par s" "next_xfer (engine_start_mode_config s) = next_xfer s"
  "extends (wld s) (wld (engine_start_mode_config s))"
  by (auto simp: engine_start_mode_config_def Let_def)

lemma engine_state_eqI:
  "eng s = eng t \<Longrightarrow> xfers s = xfers t \<Longrightarrow> next_xfer s = next_xfer t \<Longrightarrow> wld s = wld t \<Longrightarrow> par s = par t
    \<Longrightarrow> s = t" for s t :: engine_state
  by (cases s; cases t) simp

lemma upd_xfer_Some [simp]:
  "xfers s t = Some x \<Longrightarrow> upd_xfer t f s = bindr (f x) (\<lambda>x. Inr (s\<lparr>xfers := (xfers s)(t \<mapsto> x)\<rparr>))"
  by (simp add: upd_xfer_def xfer_def)

lemma xfer_Some [simp]: "xfers s t = Some x \<Longrightarrow> xfer t s = Inr x"
  by (simp add: xfer_def)

subsection \<open>The control words\<close>

text \<open>
  The word that stops an engine never has the run bit, the word that starts it always
  has; every error condition stays enabled in both; and of the two only the polled start
  asks for write-backs in place of completion interrupts.
\<close>

theorem control_words:
  "stop_control s AND XDMA_CTRL_RUN_STOP = 0 \<and> start_control s AND XDMA_CTRL_RUN_STOP = XDMA_CTRL_RUN_STOP
   \<and> (let errs = XDMA_CTRL_IE_READ_ERROR OR XDMA_CTRL_IE_DESC_ERROR OR XDMA_CTRL_IE_MAGIC_STOPPED
        OR XDMA_CTRL_IE_DESC_ALIGN_MISMATCH in
      start_control s AND errs = errs \<and> stop_control s AND errs = errs)
   \<and> (start_control s AND XDMA_CTRL_POLL_MODE_WB \<noteq> 0) = poll_mode (par s)
   \<and> (start_control s AND XDMA_CTRL_IE_DESC_COMPLETED \<noteq> 0) = (\<not> poll_mode (par s))"
  by (auto simp: stop_control_def start_control_def Let_def reg_simps bit.conj_disj_distrib2 and.assoc)

text \<open>
  The start word asks for non-incrementing addresses exactly when the engine is set to
  that mode and the driver is not polling: in polled mode the setting is lost.
\<close>

theorem start_control_non_incr:
  "start_control s AND XDMA_CTRL_NON_INCR_ADDR \<noteq> 0 \<longleftrightarrow> e_non_incr_addr (eng s) \<and> \<not> poll_mode (par s)"
  by (auto simp: start_control_def Let_def reg_simps bit.conj_disj_distrib2 and.assoc)

subsection \<open>Starting an engine\<close>

lemma mode_config_writes:
  "writes (w_log (wld (engine_start_mode_config s))) = writes (w_log (wld s))
    @ (if e_xdma_perf (eng s) = None then []
       else [(e_regs (eng s) + er R_interrupt_enable_mask,
              XDMA_CTRL_IE_DESC_STOPPED OR XDMA_CTRL_IE_DESC_COMPLETED OR XDMA_CTRL_IE_DESC_ALIGN_MISMATCH
                OR XDMA_CTRL_IE_MAGIC_STOPPED OR XDMA_CTRL_IE_IDLE_STOPPED OR XDMA_CTRL_IE_READ_ERROR
                OR XDMA_CTRL_IE_DESC_ERROR)])
    @ [(e_regs (eng s) + er R_control, start_control s)]"
proof -
  have "start_control (write_reg v a s) = start_control s" for v a
    by (simp add: start_control_def Let_def)
  then show ?thesis by (simp add: engine_start_mode_config_def Let_def)
qed

definition first_adjacent :: "xdma_transfer \<Rightarrow> u32" where
  "first_adjacent x = of_int (if t_desc_adjacent x > 0
     then min (int (t_desc_adjacent x) - 1) MAX_EXTRA_ADJ else 0)"

text \<open>What a start leaves behind.\<close>

definition started :: "engine_state \<Rightarrow> nat \<Rightarrow> xdma_transfer \<Rightarrow> engine_state \<Rightarrow> bool" where
  "started s t x s' \<longleftrightarrow>
     eng s' = (eng s)\<lparr>e_shutdown := ENGINE_SHUTDOWN_NONE, e_desc_dequeued := 0, e_running := True\<rparr>
     \<and> xfers s' = xfers s \<and> par s' = par s \<and> next_xfer s' = next_xfer s \<and> extends (wld s) (wld s')
     \<and> (\<exists>mid. writes (w_log (wld s')) = writes (w_log (wld s))
         @ [(e_sgdma_regs (eng s) + sr R_first_desc_lo, PCI_DMA_L (t_desc_bus x)),
            (e_sgdma_regs (eng s) + sr R_first_desc_hi, PCI_DMA_H (t_desc_bus x)),
            (e_sgdma_regs (eng s) + sr R_first_desc_adjacent, first_adjacent x)]
         @ mid @ [(e_regs (eng s) + er R_control, start_control s)]
         \<and> map fst mid = (if e_xdma_perf (eng s) = None then [] else [e_regs (eng s) + er R_interrupt_enable_mask]))"

lemma start_control_cong:
  "par s = par t \<Longrightarrow> e_streaming (eng s) = e_streaming (eng t) \<Longrightarrow> e_dir_to_dev (eng s) = e_dir_to_dev (eng t)
    \<Longrightarrow> e_xdma_perf (eng s) = e_xdma_perf (eng t) \<Longrightarrow> e_non_incr_addr (eng s) = e_non_incr_addr (eng t)
    \<Longrightarrow> start_control s = start_control t"
  by (simp add: start_control_def Let_def)

lemma engine_start_ok:
  assumes "\<not> e_running (eng s)" "e_transfer_list (eng s) = t # q" "xfers s t = Some x"
  shows "\<exists>s'. engine_start s = Inr (t, s') \<and> started s t x s'"
proof -
  define s1 where "s1 = upd_eng (\<lambda>e. e\<lparr>e_shutdown := ENGINE_SHUTDOWN_NONE, e_desc_dequeued := 0\<rparr>) s"
  let ?sg = "e_sgdma_regs (eng s)"
  define s2 where "s2 = write_reg (first_adjacent x) (?sg + sr R_first_desc_adjacent)
    (write_reg (PCI_DMA_H (t_desc_bus x)) (?sg + sr R_first_desc_hi)
      (write_reg (PCI_DMA_L (t_desc_bus x)) (?sg + sr R_first_desc_lo) s1))"
  let ?s' = "upd_eng (e_running_update (\<lambda>_. True)) (engine_start_mode_config s2)"
  have "engine_start s = Inr (t, ?s')"
    using assms by (simp add: engine_start_def s1_def s2_def Let_def first_adjacent_def)
  moreover have "started s t x ?s'"
  proof -
    have sc: "start_control s2 = start_control s"
      by (rule start_control_cong) (simp_all add: s2_def s1_def)
    have ext: "extends (wld s) (wld s2)" by (auto simp: s2_def s1_def)
    have w: "writes (w_log (wld s2)) = writes (w_log (wld s))
        @ [(?sg + sr R_first_desc_lo, PCI_DMA_L (t_desc_bus x)),
           (?sg + sr R_first_desc_hi, PCI_DMA_H (t_desc_bus x)),
           (?sg + sr R_first_desc_adjacent, first_adjacent x)]"
      by (simp add: s2_def s1_def)
    have e: "eng s2 = (eng s)\<lparr>e_shutdown := ENGINE_SHUTDOWN_NONE, e_desc_dequeued := 0\<rparr>"
        "xfers s2 = xfers s" "par s2 = par s" "next_xfer s2 = next_xfer s"
      by (simp_all add: s2_def s1_def)
    show ?thesis
      unfolding started_def
      using extends_trans [OF ext mode_config_sel(5)]
      by (auto simp: e mode_config_writes w sc)
  qed
  ultimately show ?thesis by blast
qed

lemma start_control_bits:
  "bit (start_control s) 0"
  "start_control s AND (XDMA_CTRL_IE_READ_ERROR OR XDMA_CTRL_IE_DESC_ERROR OR XDMA_CTRL_IE_MAGIC_STOPPED OR XDMA_CTRL_IE_DESC_ALIGN_MISMATCH)
    = XDMA_CTRL_IE_READ_ERROR OR XDMA_CTRL_IE_DESC_ERROR OR XDMA_CTRL_IE_MAGIC_STOPPED OR XDMA_CTRL_IE_DESC_ALIGN_MISMATCH"
  "start_control s AND XDMA_CTRL_IE_DESC_STOPPED \<noteq> 0 \<longleftrightarrow> \<not> poll_mode (par s)"
  "start_control s AND XDMA_CTRL_IE_DESC_COMPLETED \<noteq> 0 \<longleftrightarrow> \<not> poll_mode (par s)"
  "start_control s AND XDMA_CTRL_POLL_MODE_WB \<noteq> 0 \<longleftrightarrow> poll_mode (par s)"
proof -
  show "bit (start_control s) 0"
    by (simp add: start_control_def Let_def XDMA_CTRL_RUN_STOP_def bit_simps)
  show "start_control s AND XDMA_CTRL_IE_DESC_STOPPED \<noteq> 0 \<longleftrightarrow> \<not> poll_mode (par s)"
    by (auto simp: start_control_def Let_def reg_simps bit.conj_disj_distrib2 and.assoc)
qed (use control_words [of s] in \<open>simp_all add: Let_def\<close>)

text \<open>
  C13: Starting an idle engine with a queued transfer writes, in this order, the two halves
  of the bus address of that transfer's first descriptor, its adjacent count, the interrupt
  mask when a performance test runs, and the control word, and nothing else. The control
  word has the run bit, bit 0, and enables every error; it enables the interrupts for
  stopped and completed descriptors or, when the driver polls, the write-back instead. The
  engine is then running, with no descriptor accounted for, and the queue is unchanged.
\<close>

theorem engine_start_programs:
  assumes "\<not> e_running (eng s)" "e_transfer_list (eng s) = t # q" "xfers s t = Some x"
  shows "\<exists>s' mid v. engine_start s = Inr (t, s')
    \<and> eng s' = (eng s)\<lparr>e_shutdown := ENGINE_SHUTDOWN_NONE, e_desc_dequeued := 0, e_running := True\<rparr>
    \<and> xfers s' = xfers s \<and> par s' = par s
    \<and> writes (w_log (wld s')) = writes (w_log (wld s))
         @ [(e_sgdma_regs (eng s) + sr R_first_desc_lo, PCI_DMA_L (t_desc_bus x)),
            (e_sgdma_regs (eng s) + sr R_first_desc_hi, PCI_DMA_H (t_desc_bus x)),
            (e_sgdma_regs (eng s) + sr R_first_desc_adjacent, first_adjacent x)]
         @ mid @ [(e_regs (eng s) + er R_control, v)]
    \<and> map fst mid = (if e_xdma_perf (eng s) = None then [] else [e_regs (eng s) + er R_interrupt_enable_mask])
    \<and> bit v 0
    \<and> v AND (XDMA_CTRL_IE_READ_ERROR OR XDMA_CTRL_IE_DESC_ERROR OR XDMA_CTRL_IE_MAGIC_STOPPED OR XDMA_CTRL_IE_DESC_ALIGN_MISMATCH)
        = XDMA_CTRL_IE_READ_ERROR OR XDMA_CTRL_IE_DESC_ERROR OR XDMA_CTRL_IE_MAGIC_STOPPED OR XDMA_CTRL_IE_DESC_ALIGN_MISMATCH
    \<and> (v AND XDMA_CTRL_IE_DESC_STOPPED \<noteq> 0) = (\<not> poll_mode (par s)) \<and> (v AND XDMA_CTRL_IE_DESC_COMPLETED \<noteq> 0) = (\<not> poll_mode (par s))
    \<and> (v AND XDMA_CTRL_POLL_MODE_WB \<noteq> 0) = poll_mode (par s)
    \<and> join_u64 (PCI_DMA_H (t_desc_bus x)) (PCI_DMA_L (t_desc_bus x)) = t_desc_bus x
    \<and> (0 < t_desc_adjacent x \<longrightarrow> unat (first_adjacent x) < t_desc_adjacent x \<and> unat (first_adjacent x) \<le> 15)"
proof -
  have adj: "unat (first_adjacent x) < t_desc_adjacent x \<and> unat (first_adjacent x) \<le> 15" if "0 < t_desc_adjacent x"
  proof -
    define k where "k = min (t_desc_adjacent x - 1) 15"
    have "first_adjacent x = of_nat k"
      using that by (auto simp: first_adjacent_def MAX_EXTRA_ADJ_def k_def min_def of_nat_diff)
    moreover have "unat (of_nat k :: u32) = k" by (rule unat_of_nat_small) (simp add: k_def)
    ultimately show ?thesis using that by (simp add: k_def)
  qed
  obtain s' mid where s': "engine_start s = Inr (t, s')"
    "eng s' = (eng s)\<lparr>e_shutdown := ENGINE_SHUTDOWN_NONE, e_desc_dequeued := 0, e_running := True\<rparr>" "xfers s' = xfers s" "par s' = par s"
    and w: "writes (w_log (wld s')) = writes (w_log (wld s))
         @ [(e_sgdma_regs (eng s) + sr R_first_desc_lo, PCI_DMA_L (t_desc_bus x)),
            (e_sgdma_regs (eng s) + sr R_first_desc_hi, PCI_DMA_H (t_desc_bus x)),
            (e_sgdma_regs (eng s) + sr R_first_desc_adjacent, first_adjacent x)]
         @ mid @ [(e_regs (eng s) + er R_control, start_control s)]"
      "map fst mid = (if e_xdma_perf (eng s) = None then [] else [e_regs (eng s) + er R_interrupt_enable_mask])"
    using engine_start_ok [OF assms] by (auto simp: started_def)
  show ?thesis
    by (rule exI [of _ s'], rule exI [of _ mid], rule exI [of _ "start_control s"]) (simp add: s' w adj start_control_bits)
qed

text \<open>
  The two ways a start cannot happen are BUG_ONs: the engine is running already, or
  nothing is queued.
\<close>

theorem engine_start_faults:
  "engine_start s = Inl BugOn \<longleftrightarrow> e_running (eng s) \<or> e_transfer_list (eng s) = []"
  by (auto simp: engine_start_def xfer_def Let_def bindr_eq_Inl split: list.splits option.splits)

subsection \<open>The outcome of queueing\<close>

lemma set_state_ok:
  "xfers s t = Some x \<Longrightarrow> set_transfer_state st t s = Inr (s\<lparr>xfers := (xfers s)(t \<mapsto> x\<lparr>t_state := st\<rparr>)\<rparr>)"
  by (simp add: set_transfer_state_def)

lemma queue_outcome:
  assumes "xfers s t = Some x" "0 < t_desc_num x" "\<not> e_lock (eng s)"
    and "\<forall>u\<in>set (e_transfer_list (eng s)). xfers s u \<noteq> None"
  shows "\<exists>rc s'. transfer_queue t s = Inr (rc, s') \<and> \<not> e_lock (eng s') \<and>
    (if e_shutdown (eng s) AND ENGINE_SHUTDOWN_REQUEST \<noteq> 0 then rc = -1 \<and> s' = s
     else rc = 0 \<and> e_transfer_list (eng s') = e_transfer_list (eng s) @ [t]
       \<and> xfers s' = (xfers s)(t \<mapsto> x\<lparr>t_state := TRANSFER_STATE_SUBMITTED\<rparr>)
       \<and> e_running (eng s') \<and> (e_running (eng s) \<longrightarrow> wld s' = wld s))"
proof (cases "e_shutdown (eng s) AND ENGINE_SHUTDOWN_REQUEST \<noteq> 0")
  case True
  then have "transfer_queue t s = Inr (-1, spin_unlock (upd_eng (e_lock_update (\<lambda>_. True)) s))"
    using assms by (simp add: transfer_queue_def spin_lock_def)
  moreover have "spin_unlock (upd_eng (e_lock_update (\<lambda>_. True)) s) = s"
    using assms(3) by (intro engine_state_eqI) (simp_all add: spin_unlock_def)
  ultimately show ?thesis using True assms(3) by simp
next
  case False
  let ?x = "x\<lparr>t_state := TRANSFER_STATE_SUBMITTED\<rparr>"
  define s1 where "s1 = upd_eng (e_lock_update (\<lambda>_. True)) s"
  define s2 where "s2 = upd_eng (e_transfer_list_update (\<lambda>q. q @ [t])) (s1\<lparr>xfers := (xfers s1)(t \<mapsto> ?x)\<rparr>)"
  have q: "transfer_queue t s = bindr (if \<not> e_running (eng s2) then bindr (engine_start s2) (\<lambda>(_, s). Inr s) else Inr s2)
      (\<lambda>s. Inr (0, spin_unlock s))"
    using assms False set_state_ok [of s1 t x TRANSFER_STATE_SUBMITTED]
    by (simp add: transfer_queue_def spin_lock_def s2_def s1_def)
  show ?thesis
  proof (cases "e_running (eng s)")
    case True
    then have "transfer_queue t s = Inr (0, spin_unlock s2)" unfolding q by (simp add: s2_def s1_def)
    then show ?thesis using True False by (simp add: s2_def s1_def spin_unlock_def)
  next
    case idle: False
    obtain u r where u: "e_transfer_list (eng s2) = u # r"
      by (cases "e_transfer_list (eng s)") (auto simp: s2_def s1_def)
    then have "u \<in> set (e_transfer_list (eng s)) \<or> u = t"
      by (cases "e_transfer_list (eng s)") (auto simp: s2_def s1_def)
    then obtain y where "xfers s2 u = Some y"
      using assms(4) by (cases "u = t") (auto simp: s2_def s1_def)
    with engine_start_ok [of s2 u r y] u idle obtain s3 where
        s3: "engine_start s2 = Inr (u, s3)" "started s2 u y s3"
      by (auto simp: s2_def s1_def)
    then have "transfer_queue t s = Inr (0, spin_unlock s3)"
      using idle unfolding q by (simp add: s2_def s1_def)
    then show ?thesis using s3(2) idle False by (simp add: started_def s2_def s1_def spin_unlock_def)
  qed
qed

text \<open>
  Queueing a transfer with descriptors on an unlocked engine always returns with the
  lock released. If the engine is shutting down the transfer is refused and nothing but
  the lock was touched; otherwise it is submitted at the tail of the queue, and an idle
  engine is started on the head of the queue, which exists and is allocated.
\<close>

theorem transfer_queue_outcome:
  assumes "xfers s t = Some x" "0 < t_desc_num x" "\<not> e_lock (eng s)"
    and "\<forall>u\<in>set (e_transfer_list (eng s)). xfers s u \<noteq> None"
  shows "\<exists>rc s'. transfer_queue t s = Inr (rc, s') \<and> \<not> e_lock (eng s') \<and>
    (if e_shutdown (eng s) AND ENGINE_SHUTDOWN_REQUEST \<noteq> 0 then rc = -1 \<and> s' = s
     else rc = 0 \<and> e_transfer_list (eng s') = e_transfer_list (eng s) @ [t]
       \<and> xfers s' = (xfers s)(t \<mapsto> x\<lparr>t_state := TRANSFER_STATE_SUBMITTED\<rparr>)
       \<and> e_running (eng s') \<and> (e_running (eng s) \<longrightarrow> wld s' = wld s))"
  using assms by (rule queue_outcome)

text \<open>
  Queueing takes the engine lock once and only there can it hang: with the lock held
  by the caller it deadlocks, and a transfer without descriptors is a BUG_ON.
\<close>

theorem transfer_queue_faults:
  assumes "xfers s t = Some x"
  shows "t_desc_num x = 0 \<longrightarrow> transfer_queue t s = Inl BugOn"
    and "0 < t_desc_num x \<and> e_lock (eng s) \<longrightarrow> transfer_queue t s = Inl Deadlock"
  using assms by (auto simp: transfer_queue_def spin_lock_def)

subsection \<open>Concrete runs\<close>

definition sample_engine :: xdma_engine where
  "sample_engine = \<lparr>e_magic = MAGIC_ENGINE, e_regs = 0x10000, e_sgdma_regs = 0x14000, e_bypass_offset = 0,
     e_shutdown = 0, e_running = False, e_streaming = False, e_non_incr_addr = False, e_dir_to_dev = True,
     e_addr_align = 1, e_len_granularity = 1, e_addr_bits = 64, e_channel = 0, e_number_in_channel = 0,
     e_desc_dequeued = 0, e_status = 0, e_interrupt_enable_mask_value = 0, e_transfer_list = [],
     e_rx_tail = 0, e_rx_head = 0, e_rx_overrun = False, e_rx_buffer = 0, e_rx_transfer_cyclic = None,
     e_rx_result = None, e_rx_result_bus = 0, e_writeback = None, e_poll_mode_bus = 0, e_lock = False,
     e_msix_irq_line = 0, e_irq_bitmask = 1, e_xdma_perf = None, e_eop_found = False, e_user_buffer_index = 0\<rparr>"

definition sample_params :: module_params where
  "sample_params = \<lparr>poll_mode = False, enable_credit_mp = False, msix_enabled = False, config_bar = 0x10000\<rparr>"

definition sample_transfer :: "nat \<Rightarrow> xdma_transfer" where
  "sample_transfer n = new_transfer\<lparr>t_desc_virt := Some (replicate n zero_desc), t_desc_bus := 0x123456789000,
     t_desc_num := n, t_desc_adjacent := n\<rparr>"

text \<open>Transfer 7 has one descriptor, transfer 8 has two.\<close>

definition sample_state :: engine_state where
  "sample_state = \<lparr>eng = sample_engine, xfers = [7 \<mapsto> sample_transfer 1, 8 \<mapsto> sample_transfer 2],
     next_xfer = 9, wld = idle_world, par = sample_params\<rparr>"

text \<open>The engine runs both transfers, and the device reports status \<open>v\<close> and count \<open>n\<close>.\<close>

definition sample_running :: "u32 \<Rightarrow> u32 \<Rightarrow> engine_state" where
  "sample_running v n = sample_state\<lparr>eng := sample_engine\<lparr>e_running := True, e_transfer_list := [7, 8]\<rparr>,
     wld := idle_world\<lparr>w_dev := (\<lambda>_ a. if a = 0x10048 then n else if a = 0x10044 then v else 0)\<rparr>\<rparr>"

theorem engine_start_programs_witness:
  "\<exists>s' v. engine_start (sample_state\<lparr>eng := sample_engine\<lparr>e_transfer_list := [8]\<rparr>\<rparr>) = Inr (8, s')
    \<and> e_running (eng s') \<and> last (writes (w_log (wld s'))) = (0x10000 + er R_control, v) \<and> bit v 0"
proof -
  let ?s = "sample_state\<lparr>eng := sample_engine\<lparr>e_transfer_list := [8]\<rparr>\<rparr>"
  have "\<not> e_running (eng ?s)" "e_transfer_list (eng ?s) = [8]" "xfers ?s 8 = Some (sample_transfer 2)" "e_regs (eng ?s) = 0x10000"
    by (simp_all add: sample_state_def sample_engine_def)
  from engine_start_programs [OF this(1-3)] this(4) show ?thesis by fastforce
qed

theorem transfer_queue_outcome_witness:
  "\<exists>s'. transfer_queue 8 sample_state = Inr (0, s') \<and> e_transfer_list (eng s') = [8] \<and> e_running (eng s')"
  using transfer_queue_outcome [of sample_state 8 "sample_transfer 2"]
  by (auto simp: sample_state_def sample_engine_def sample_transfer_def)

theorem transfer_queue_faults_witness:
  "transfer_queue 8 (sample_state\<lparr>eng := sample_engine\<lparr>e_lock := True\<rparr>\<rparr>) = Inl Deadlock"
  using transfer_queue_faults [of "sample_state\<lparr>eng := sample_engine\<lparr>e_lock := True\<rparr>\<rparr>" 8 "sample_transfer 2"]
  by (simp add: sample_state_def sample_engine_def sample_transfer_def)

end
