(* ===== verification/Xdma_Service.thy ===== *)
theory Xdma_Service
  imports Xdma_Engine
begin

unbundle bit_operations_syntax

text \<open>
  The service routine of an engine (engine_service in driver/xdma-core.c), which the
  interrupt and the polling paths run when the device has completed descriptors: it
  retires completed transfers, reports errors, and starts the engine again.

  The loop over the queue is a refinement of \<open>retire\<close>, which says on numbers which
  transfers a descriptor count completes. From it come the outcome of an interrupt with
  no error, of one with an error, and of one that finds the engine busy; the runs into a
  BUG_ON; and what an interrupt takes from the queue whatever the device answers.
\<close>

subsection \<open>Completion of transfers\<close>

definition engine_service_shutdown :: "engine_state \<Rightarrow> engine_state" where
  "engine_service_shutdown s =
     wake_up Wq_shutdown (upd_eng (e_running_update (\<lambda>_. False)) (xdma_engine_stop s))"

text \<open>The result is the transfer, or \<open>None\<close> when it was asynchronous and is gone.\<close>

definition engine_transfer_completion :: "nat \<Rightarrow> engine_state \<Rightarrow> (nat option \<times> engine_state) run" where
  "engine_transfer_completion t s =
     bindr (xfer t s) (\<lambda>x.
       case t_iocb x of
         Some iocb \<Rightarrow>
           if t_last_in_request x
           then bindr (free_xfer t s) (\<lambda>s.
                  Inr (None, upd_wld (emit (Aio_complete iocb (t_size_of_request x))) s))
           else Inr (Some t, wake_up (Wq_transfer t) s)
       | None \<Rightarrow> Inr (Some t, wake_up (Wq_transfer t) s))"

text \<open>
  The loop of \<open>engine_service_transfer_list\<close>. The first argument is the queue; in every
  round the current transfer is its head, as the code picks it again after each removal.
  The result is the transfer the loop stopped at and the descriptors left to account for.
\<close>

definition complete_head :: "nat \<Rightarrow> nat list \<Rightarrow> nat \<Rightarrow> engine_state \<Rightarrow> engine_state run" where
  "complete_head t q num s =
     bindr (set_transfer_state TRANSFER_STATE_COMPLETED t
       (upd_eng (\<lambda>e. e\<lparr>e_transfer_list := q, e_desc_dequeued := e_desc_dequeued e + of_nat num\<rparr>) s)) (\<lambda>s.
     bindr (engine_transfer_completion t s) (\<lambda>(_, s). Inr s))"

fun service_transfer_list ::
  "nat list \<Rightarrow> u32 \<Rightarrow> engine_state \<Rightarrow> (nat option \<times> u32 \<times> engine_state) run" where
  "service_transfer_list [] desc_completed s = Inr (None, desc_completed, s)"
| "service_transfer_list (t # q) desc_completed s =
     bindr (xfer t s) (\<lambda>x.
       if \<not> t_cyclic x \<and> desc_completed > of_nat (t_desc_num x) then
         bindr (complete_head t q (t_desc_num x) s)
           (service_transfer_list q (desc_completed - of_nat (t_desc_num x)))
       else Inr (Some t, desc_completed, s))"

definition engine_service_transfer_list ::
  "nat option \<Rightarrow> u32 \<Rightarrow> engine_state \<Rightarrow> (nat option \<times> u32 \<times> engine_state) run" where
  "engine_service_transfer_list transfer desc_completed s =
     bindr (bug_on (transfer = None)) (\<lambda>_. service_transfer_list (e_transfer_list (eng s)) desc_completed s)"

definition engine_err_handle :: "nat \<Rightarrow> engine_state \<Rightarrow> engine_state run" where
  "engine_err_handle t s =
     (let s = (if e_status (eng s) AND XDMA_STAT_BUSY \<noteq> 0
               then snd (read_reg (e_regs (eng s) + er R_status) s) else s) in
      bindr (set_transfer_state TRANSFER_STATE_FAILED t s) (\<lambda>s. Inr (xdma_engine_stop s)))"

definition err_flags :: u32 where
  [reg_simps]: "err_flags = XDMA_STAT_MAGIC_STOPPED OR XDMA_STAT_ALIGN_MISMATCH OR XDMA_STAT_READ_ERROR
     OR XDMA_STAT_DESC_ERROR"

text \<open>\<open>list_del(engine->transfer_list.next)\<close> removes the head of the queue.\<close>

definition engine_service_final_transfer ::
  "nat option \<Rightarrow> u32 \<Rightarrow> engine_state \<Rightarrow> (nat option \<times> engine_state) run" where
  "engine_service_final_transfer transfer desc_completed s = (case transfer of
       None \<Rightarrow> Inl BugOn
     | Some t \<Rightarrow>
       if e_status (eng s) AND err_flags \<noteq> 0
       then bindr (engine_err_handle t s) (\<lambda>s. Inr (Some t, s))
       else
         bindr (xfer t s) (\<lambda>x.
         bindr (set_transfer_state (if desc_completed < of_nat (t_desc_num x)
                  then TRANSFER_STATE_FAILED else TRANSFER_STATE_COMPLETED) t s) (\<lambda>s.
         let s = upd_eng (\<lambda>e. e\<lparr>e_transfer_list := tl (e_transfer_list e),
                   e_desc_dequeued := e_desc_dequeued e + of_nat (t_desc_num x)\<rparr>) s in
         engine_transfer_completion t s)))"

definition engine_service_perf :: "u32 \<Rightarrow> engine_state \<Rightarrow> engine_state" where
  "engine_service_perf desc_completed s = (case e_xdma_perf (eng s) of
       None \<Rightarrow> s
     | Some p \<Rightarrow>
       let s = (if e_status (eng s) AND XDMA_STAT_DESC_COMPLETED \<noteq> 0
                then upd_eng (\<lambda>e. e\<lparr>e_xdma_perf := Some (p\<lparr>p_iterations := desc_completed\<rparr>)\<rparr>) s else s)
       in if e_status (eng s) AND XDMA_STAT_DESC_STOPPED \<noteq> 0
          then wake_up Wq_perf (upd_eng (e_xdma_perf_update (map_option (p_stopped_update (\<lambda>_. 1)))) s)
          else s)"

definition engine_service_resume :: "engine_state \<Rightarrow> engine_state run" where
  "engine_service_resume s =
     (if \<not> e_running (eng s) then
        if e_shutdown (eng s) AND ENGINE_SHUTDOWN_REQUEST \<noteq> 0
        then Inr (wake_up Wq_shutdown
               (upd_eng (\<lambda>e. e\<lparr>e_shutdown := e_shutdown e OR ENGINE_SHUTDOWN_IDLE\<rparr>) s))
        else if e_transfer_list (eng s) \<noteq> [] then bindr (engine_start s) (\<lambda>(_, s). Inr s)
        else Inr s
      else Inr s)"

subsection \<open>The service routine\<close>

text \<open>
  \<open>desc_writeback\<close> is 0 from the interrupt path, the written-back count in polled mode.
  The code reads the queue again for its first transfer; the writeback memory of polled
  mode is cleared before the engine may start again.
\<close>

definition service_prepare :: "u32 \<Rightarrow> engine_state \<Rightarrow> u32 \<times> engine_state" where
  "service_prepare desc_writeback s =
     (let desc_count = desc_writeback AND WB_COUNT_MASK;
          err_flag = desc_writeback AND WB_ERR_MASK;
          s = (if desc_count = 0 \<or> err_flag \<noteq> 0 then snd (engine_status_read True s) else s);
          s = (if e_running (eng s) \<and> e_status (eng s) AND XDMA_STAT_BUSY = 0 \<or> desc_count \<noteq> 0
               then engine_service_shutdown s else s)
      in if desc_count = 0 then read_reg (e_regs (eng s) + er R_completed_desc_count) s
         else (desc_count, s))"

definition clear_writeback :: "engine_state \<Rightarrow> engine_state run" where
  "clear_writeback s =
     (if poll_mode (par s)
      then if e_writeback (eng s) = None then Inl NullDeref
        else Inr (upd_eng (e_writeback_update (\<lambda>_. Some 0)) s)
      else Inr s)"

definition service_queue :: "u32 \<Rightarrow> engine_state \<Rightarrow> engine_state run" where
  "service_queue desc_count s =
     (let transfer = (case e_transfer_list (eng s) of [] \<Rightarrow> None | t # _ \<Rightarrow> Some t);
          s = (if transfer \<noteq> None then engine_service_perf desc_count s else s)
      in bindr (engine_service_transfer_list transfer (desc_count - e_desc_dequeued (eng s)) s)
           (\<lambda>(transfer, desc_count, s).
         bindr (engine_service_final_transfer transfer desc_count s) (\<lambda>(_, s).
         bindr (clear_writeback s) engine_service_resume)))"

definition engine_service :: "u32 \<Rightarrow> engine_state \<Rightarrow> (int \<times> engine_state) run" where
  "engine_service desc_writeback s =
     (let rc = (if desc_writeback AND WB_ERR_MASK \<noteq> 0 then -1 else 0) in
      if \<not> e_running (eng s)
      then Inr (0, if desc_writeback = 0 then snd (engine_status_read True s) else s)
      else
        let (desc_count, s) = service_prepare desc_writeback s
        in bindr (service_queue desc_count s) (\<lambda>s. Inr (rc, s)))"

subsection \<open>Retiring completed transfers\<close>

text \<open>
  The specification of the service loop, on numbers: with \<open>c\<close> descriptors completed, the
  longest prefix of the queue all of whose descriptors are done, but for the last
  transfer they reach; the rest of the queue; and what is left of \<open>c\<close>.
\<close>

fun retire :: "(nat \<Rightarrow> nat) \<Rightarrow> nat list \<Rightarrow> nat \<Rightarrow> nat list \<times> nat list \<times> nat" where
  "retire num [] c = ([], [], c)"
| "retire num (t # q) c =
    (if num t < c then let (d, r, c') = retire num q (c - num t) in (t # d, r, c') else ([], t # q, c))"

lemma retire_cong: "(\<And>t. t \<in> set q \<Longrightarrow> num t = num' t) \<Longrightarrow> retire num q c = retire num' q c"
  by (induction q arbitrary: c) simp_all

lemma retire_split:
  "retire num q c = (d, r, c') \<Longrightarrow> q = d @ r \<and> sum_list (map num d) + c' = c
    \<and> (r \<noteq> [] \<longrightarrow> c' \<le> num (hd r)) \<and> (d \<noteq> [] \<longrightarrow> 0 < c')"
proof (induction q arbitrary: c d)
  case (Cons t q)
  show ?case
  proof (cases "num t < c")
    case True
    then obtain d0 where d0: "retire num q (c - num t) = (d0, r, c')" "d = t # d0"
      using Cons.prems by (auto split: prod.splits)
    from Cons.IH [OF d0(1)] True d0(2) show ?thesis by auto
  next
    case False
    then show ?thesis using Cons.prems by auto
  qed
qed simp

lemma retire_exact:
  assumes "c = sum_list (map num d) + n" "0 < n" "n \<le> num l"
  shows "retire num (d @ l # r) c = (d, l # r, n)"
  using assms by (induction d arbitrary: c) auto

lemma retire_exhausted: "sum_list (map num q) < c \<Longrightarrow> retire num q c = (q, [], c - sum_list (map num q))"
  by (induction q arbitrary: c) auto

text \<open>What completion does to a transfer, and the notice it gives.\<close>

definition finished :: "transfer_state \<Rightarrow> xdma_transfer \<Rightarrow> xdma_transfer option" where
  "finished st x = (if t_iocb x \<noteq> None \<and> t_last_in_request x then None else Some (x\<lparr>t_state := st\<rparr>))"

definition notice :: "nat \<Rightarrow> xdma_transfer \<Rightarrow> event" where
  "notice t x = (if t_iocb x \<noteq> None \<and> t_last_in_request x
     then Aio_complete (the (t_iocb x)) (t_size_of_request x) else Wake (Wq_transfer t))"

definition is_notice :: "event \<Rightarrow> bool" where
  "is_notice e = (case e of Wake (Wq_transfer _) \<Rightarrow> True | Aio_complete _ _ \<Rightarrow> True | _ \<Rightarrow> False)"

definition notices :: "world \<Rightarrow> event list" where
  "notices w = filter is_notice (w_log w)"

lemma notices_emit [simp]: "notices (emit e w) = notices w @ (if is_notice e then [e] else [])"
  by (simp add: notices_def)

lemma is_notice_simps [simp]:
  "\<not> is_notice (Call c)" "\<not> is_notice (Rd a)" "\<not> is_notice (Wr a v)" "is_notice (Aio_complete i n)"
  "is_notice (Wake (Wq_transfer t))" "\<not> is_notice (Wake Wq_shutdown)" "\<not> is_notice (Wake Wq_perf)"
  by (simp_all add: is_notice_def)

lemma dirty_pages_world: "extends w (dirty_pages ps w)" "notices (dirty_pages ps w) = notices w"
  by (induction ps w rule: dirty_pages.induct)
    (auto simp: kcall0_def intro: extends_trans [rotated])

lemma put_pages_world: "extends w (put_pages ps w)" "notices (put_pages ps w) = notices w"
  by (induction ps w rule: put_pages.induct)
    (auto simp: kcall0_def intro: extends_trans [rotated])

lemma transfer_destroy_ok:
  assumes "t_desc_virt x \<noteq> None"
  shows "\<exists>w'. transfer_destroy x w = Inr w' \<and> extends w w' \<and> notices w' = notices w"
proof -
  have "\<exists>sgm' w'. sgm_put_user_pages sgm d w = (sgm', w') \<and> extends w w' \<and> notices w' = notices w" for sgm d w
    using put_pages_world dirty_pages_world extends_trans [OF dirty_pages_world(1) put_pages_world(1)]
    by (auto simp: sgm_put_user_pages_def sgm_dirty_pages_def Let_def)
  note put = this
  show ?thesis
  proof (cases "t_sgm x")
    case None
    then show ?thesis using assms
      by (auto simp: transfer_destroy_def xdma_desc_free_def kcall0_def)
  next
    case (Some sgm)
    obtain sgm' w1 where p: "(if t_userspace x then sgm_put_user_pages sgm (\<not> t_dir_to_dev x) (kcall0 Pci_unmap_sg w)
          else (sgm, kcall0 Pci_unmap_sg w)) = (sgm', w1)"
        "extends (kcall0 Pci_unmap_sg w) w1" "notices w1 = notices (kcall0 Pci_unmap_sg w)"
      using put [of sgm "\<not> t_dir_to_dev x" "kcall0 Pci_unmap_sg w"] by (cases "t_userspace x") auto
    have "extends w (kcall0 Pci_unmap_sg w)" by (auto simp: kcall0_def)
    then have "extends w w1" using p(2) by (rule extends_trans)
    then show ?thesis
      using Some assms p(1,3)
      by (auto simp: transfer_destroy_def xdma_desc_free_def sg_destroy_mapper_def kcall0_def Let_def)
  qed
qed

lemma completion_ok:
  assumes "xfers s t = Some x" "t_desc_virt x \<noteq> None"
  shows "\<exists>r s'. engine_transfer_completion t s = Inr (r, s')
    \<and> eng s' = eng s \<and> par s' = par s \<and> next_xfer s' = next_xfer s
    \<and> xfers s' = (xfers s)(t := finished (t_state x) x)
    \<and> extends (wld s) (wld s') \<and> notices (wld s') = notices (wld s) @ [notice t x]"
proof (cases "t_iocb x \<noteq> None \<and> t_last_in_request x")
  case True
  then obtain i where i: "t_iocb x = Some i" by auto
  from transfer_destroy_ok [OF assms(2)] obtain w' where w':
    "transfer_destroy x (wld s) = Inr w'" "extends (wld s) w'" "notices w' = notices (wld s)" by blast
  show ?thesis
    using True i assms w'
    by (auto simp: engine_transfer_completion_def free_xfer_def finished_def notice_def)
next
  case False
  then have "engine_transfer_completion t s = Inr (Some t, wake_up (Wq_transfer t) s)"
    using assms(1) by (auto simp: engine_transfer_completion_def split: option.split)
  moreover have "(xfers s)(t := finished (t_state x) x) = xfers s"
    using False assms(1) by (auto simp: finished_def)
  ultimately show ?thesis using False by (auto simp: notice_def)
qed

subsection \<open>The loop refines its specification\<close>

text \<open>The transfers a service routine may meet: allocated, with descriptors, not cyclic.\<close>

definition plain_queue :: "(nat \<Rightarrow> xdma_transfer option) \<Rightarrow> nat list \<Rightarrow> bool" where
  "plain_queue h q \<longleftrightarrow> distinct q \<and> (\<forall>t\<in>set q. \<exists>x. h t = Some x \<and> \<not> t_cyclic x
     \<and> t_desc_virt x \<noteq> None \<and> 0 < t_desc_num x \<and> t_desc_num x < 2 ^ 32)"

definition num_of :: "(nat \<Rightarrow> xdma_transfer option) \<Rightarrow> nat \<Rightarrow> nat" where
  "num_of h t = t_desc_num (the (h t))"

text \<open>The state after the transfers \<open>d\<close> were retired as completed and \<open>r\<close> is left.\<close>

definition retired :: "engine_state \<Rightarrow> nat list \<Rightarrow> nat list \<Rightarrow> engine_state \<Rightarrow> bool" where
  "retired s d r s' \<longleftrightarrow>
     eng s' = (eng s)\<lparr>e_transfer_list := r,
       e_desc_dequeued := e_desc_dequeued (eng s) + of_nat (sum_list (map (num_of (xfers s)) d))\<rparr>
     \<and> par s' = par s \<and> next_xfer s' = next_xfer s
     \<and> xfers s' = (\<lambda>t. if t \<in> set d then finished TRANSFER_STATE_COMPLETED (the (xfers s t)) else xfers s t)
     \<and> extends (wld s) (wld s')
     \<and> notices (wld s') = notices (wld s) @ map (\<lambda>t. notice t (the (xfers s t))) d"

lemma notice_state [simp]: "notice t (x\<lparr>t_state := st\<rparr>) = notice t x"
  by (simp add: notice_def)

lemma finished_state [simp]: "finished st (x\<lparr>t_state := st'\<rparr>) = finished st x"
  by (simp add: finished_def)

text \<open>One round: the head of the queue is retired.\<close>

lemma complete_head_ok:
  assumes "xfers s t = Some x" "t_desc_virt x \<noteq> None"
  shows "\<exists>s'. complete_head t q n s = Inr s'
    \<and> eng s' = (eng s)\<lparr>e_transfer_list := q, e_desc_dequeued := e_desc_dequeued (eng s) + of_nat n\<rparr>
    \<and> par s' = par s \<and> next_xfer s' = next_xfer s
    \<and> xfers s' = (xfers s)(t := finished TRANSFER_STATE_COMPLETED x)
    \<and> extends (wld s) (wld s') \<and> notices (wld s') = notices (wld s) @ [notice t x]"
proof -
  let ?s1 = "upd_eng (\<lambda>e. e\<lparr>e_transfer_list := q, e_desc_dequeued := e_desc_dequeued e + of_nat n\<rparr>) s"
  let ?s2 = "?s1\<lparr>xfers := (xfers ?s1)(t \<mapsto> x\<lparr>t_state := TRANSFER_STATE_COMPLETED\<rparr>)\<rparr>"
  have "set_transfer_state TRANSFER_STATE_COMPLETED t ?s1 = Inr ?s2"
    by (rule set_state_ok) (simp add: assms(1))
  moreover have "xfers ?s2 t = Some (x\<lparr>t_state := TRANSFER_STATE_COMPLETED\<rparr>)"
      "t_desc_virt (x\<lparr>t_state := TRANSFER_STATE_COMPLETED\<rparr>) \<noteq> None"
    using assms(2) by simp_all
  ultimately show ?thesis using completion_ok [of ?s2 t] by (fastforce simp: complete_head_def)
qed

lemma u32_less_of_nat:
  "a < 2 ^ 32 \<Longrightarrow> b < 2 ^ 32 \<Longrightarrow> (of_nat a :: u32) < of_nat b \<longleftrightarrow> a < b"
  by (simp add: word_less_nat_alt unat_of_nat_small)

lemma service_list_retires:
  assumes "plain_queue (xfers s) q" "e_transfer_list (eng s) = q" "c < 2 ^ 32"
    "retire (num_of (xfers s)) q c = (d, r, c')"
  shows "\<exists>s'. service_transfer_list q (of_nat c) s
      = Inr (case r of [] \<Rightarrow> None | t # _ \<Rightarrow> Some t, of_nat c', s') \<and> retired s d r s'"
  using assms
proof (induction q arbitrary: s c d)
  case Nil
  then show ?case by (auto simp: retired_def)
next
  case (Cons t q)
  from Cons.prems(1) obtain x where x: "xfers s t = Some x" "\<not> t_cyclic x" "t_desc_virt x \<noteq> None"
      "t_desc_num x < 2 ^ 32"
    and t: "t \<notin> set q" by (auto simp: plain_queue_def)
  have num: "num_of (xfers s) t = t_desc_num x" by (simp add: num_of_def x)
  show ?case
  proof (cases "t_desc_num x < c")
    case False
    then have "d = []" "r = t # q" "c' = c" using Cons.prems(4) by (simp_all add: num)
    moreover have "\<not> (of_nat (t_desc_num x) :: u32) < of_nat c"
      using False u32_less_of_nat [OF x(4) Cons.prems(3)] by simp
    ultimately show ?thesis using x Cons.prems(2) by (auto simp: retired_def)
  next
    case True
    then have gt: "(of_nat (t_desc_num x) :: u32) < of_nat c"
      using u32_less_of_nat [OF x(4) Cons.prems(3)] by simp
    obtain d0 where d0: "retire (num_of (xfers s)) q (c - t_desc_num x) = (d0, r, c')" "d = t # d0"
      using True Cons.prems(4) by (auto simp: num split: prod.splits)
    from complete_head_ok [OF x(1,3), of q "t_desc_num x"] obtain s1 where
        s1: "complete_head t q (t_desc_num x) s = Inr s1"
        "eng s1 = (eng s)\<lparr>e_transfer_list := q, e_desc_dequeued := e_desc_dequeued (eng s) + of_nat (t_desc_num x)\<rparr>"
        "par s1 = par s" "next_xfer s1 = next_xfer s" "xfers s1 = (xfers s)(t := finished TRANSFER_STATE_COMPLETED x)"
        "extends (wld s) (wld s1)" "notices (wld s1) = notices (wld s) @ [notice t x]"
      by blast
    have same: "xfers s1 u = xfers s u" if "u \<in> set q" for u using that t s1(5) by auto
    have lt: "c - t_desc_num x < 2 ^ 32" using Cons.prems(3) by simp
    have pq: "plain_queue (xfers s1) q"
      using Cons.prems(1) same by (auto simp: plain_queue_def)
    have "retire (num_of (xfers s1)) q (c - t_desc_num x) = (d0, r, c')"
      using d0(1) retire_cong [of q "num_of (xfers s1)" "num_of (xfers s)"] same by (simp add: num_of_def)
    then obtain s' where s': "service_transfer_list q (of_nat (c - t_desc_num x)) s1
        = Inr (case r of [] \<Rightarrow> None | t # _ \<Rightarrow> Some t, of_nat c', s')" "retired s1 d0 r s'"
      using Cons.IH [OF pq _ lt] s1(2) by auto
    have dq: "set d0 \<subseteq> set q" using retire_split [OF d0(1)] by auto
    have "service_transfer_list (t # q) (of_nat c) s = service_transfer_list q (of_nat (c - t_desc_num x)) s1"
      using x gt s1(1) True by (simp add: of_nat_diff)
    moreover have "retired s d r s'"
      unfolding retired_def
    proof (intro conjI)
      have nums: "map (num_of (xfers s1)) d0 = map (num_of (xfers s)) d0"
        using dq same by (auto simp: num_of_def)
      have nts: "map (\<lambda>t. notice t (the (xfers s1 t))) d0 = map (\<lambda>t. notice t (the (xfers s t))) d0"
        using dq same by auto
      show "eng s' = (eng s)\<lparr>e_transfer_list := r,
       e_desc_dequeued := e_desc_dequeued (eng s) + of_nat (sum_list (map (num_of (xfers s)) d))\<rparr>"
        using s'(2) unfolding retired_def nums s1(2) by (simp add: d0(2) num ac_simps)
      show "par s' = par s" "next_xfer s' = next_xfer s"
        using s'(2) s1 by (simp_all add: retired_def)
      show "xfers s' = (\<lambda>t. if t \<in> set d then finished TRANSFER_STATE_COMPLETED (the (xfers s t)) else xfers s t)"
        using s'(2) t dq x(1) by (auto simp: retired_def s1(5) d0(2) fun_eq_iff)
      show "extends (wld s) (wld s')"
        using s'(2) s1(6) by (auto simp: retired_def intro: extends_trans)
      show "notices (wld s') = notices (wld s) @ map (\<lambda>t. notice t (the (xfers s t))) d"
        using s'(2) unfolding retired_def nts s1(7) by (simp add: d0(2) x(1))
    qed
    ultimately show ?thesis using s'(1) by auto
  qed
qed

lemma final_transfer_ok:
  fixes c :: u32
  assumes "xfers s l = Some x" "t_desc_virt x \<noteq> None" "e_transfer_list (eng s) = l # r"
    "e_status (eng s) AND err_flags = 0"
  defines "st \<equiv> if c < of_nat (t_desc_num x) then TRANSFER_STATE_FAILED else TRANSFER_STATE_COMPLETED"
  shows "\<exists>o1 s'. engine_service_final_transfer (Some l) c s = Inr (o1, s')
    \<and> eng s' = (eng s)\<lparr>e_transfer_list := r, e_desc_dequeued := e_desc_dequeued (eng s) + of_nat (t_desc_num x)\<rparr>
    \<and> par s' = par s \<and> next_xfer s' = next_xfer s \<and> xfers s' = (xfers s)(l := finished st x)
    \<and> extends (wld s) (wld s') \<and> notices (wld s') = notices (wld s) @ [notice l x]"
proof -
  let ?s1 = "s\<lparr>xfers := (xfers s)(l \<mapsto> x\<lparr>t_state := st\<rparr>)\<rparr>"
  let ?s2 = "upd_eng (\<lambda>e. e\<lparr>e_transfer_list := tl (e_transfer_list e),
                   e_desc_dequeued := e_desc_dequeued e + of_nat (t_desc_num x)\<rparr>) ?s1"
  have "engine_service_final_transfer (Some l) c s = engine_transfer_completion l ?s2"
    using assms by (simp add: engine_service_final_transfer_def set_state_ok Let_def)
  moreover have "xfers ?s2 l = Some (x\<lparr>t_state := st\<rparr>)" "t_desc_virt (x\<lparr>t_state := st\<rparr>) \<noteq> None"
    using assms(2) by simp_all
  ultimately show ?thesis using completion_ok [of ?s2 l] assms(3) by fastforce
qed

subsection \<open>The service routine from the interrupt path\<close>

text \<open>
  The registers the routine reads, assumed not to change while it runs: the status \<open>v\<close>
  and the number \<open>n\<close> of descriptors completed in this run.
\<close>

definition device_says :: "engine_state \<Rightarrow> u32 \<Rightarrow> u32 \<Rightarrow> bool" where
  "device_says s v n \<longleftrightarrow> (\<forall>es.
     w_dev (wld s) (w_log (wld s) @ es) (e_regs (eng s) + er R_status_rc) = v
     \<and> w_dev (wld s) (w_log (wld s) @ es) (e_regs (eng s) + er R_completed_desc_count) = n)"

text \<open>The state when the transfers are looked at: status read, engine shut down unless busy.\<close>

definition serviced :: "engine_state \<Rightarrow> u32 \<Rightarrow> engine_state \<Rightarrow> bool" where
  "serviced s v s' \<longleftrightarrow>
     eng s' = (eng s)\<lparr>e_status := v, e_running := (v AND XDMA_STAT_BUSY \<noteq> 0)\<rparr>
     \<and> xfers s' = xfers s \<and> par s' = par s \<and> next_xfer s' = next_xfer s
     \<and> extends (wld s) (wld s') \<and> notices (wld s') = notices (wld s)"

lemma service_prepare_interrupt:
  assumes "e_running (eng s)" "device_says s v n"
  shows "\<exists>s1. service_prepare 0 s = (n, s1) \<and> serviced s v s1"
proof -
  define s1 where "s1 = snd (engine_status_read True s)"
  define s2 where "s2 = (if v AND XDMA_STAT_BUSY = 0 then engine_service_shutdown s1 else s1)"
  have dev: "w_dev (wld s) (w_log (wld s)) (e_regs (eng s) + er R_status_rc) = v"
    "w_dev (wld s) (w_log (wld s) @ es) (e_regs (eng s) + er R_completed_desc_count) = n" for es
    using assms(2) unfolding device_says_def by (metis append_Nil2)+
  have st: "e_status (eng s1) = v" "e_running (eng s1)" using dev(1) assms(1) by (simp_all add: s1_def)
  have s2: "eng s2 = (eng s)\<lparr>e_status := v, e_running := (v AND XDMA_STAT_BUSY \<noteq> 0)\<rparr>"
      "xfers s2 = xfers s" "par s2 = par s" "next_xfer s2 = next_xfer s"
      "extends (wld s) (wld s2)" "notices (wld s2) = notices (wld s)"
      "w_dev (wld s2) = w_dev (wld s)" "\<exists>es. w_log (wld s2) = w_log (wld s) @ es"
    using dev(1) assms(1) by (auto simp: s2_def s1_def engine_service_shutdown_def)
  from s2(8) obtain es where es: "w_log (wld s2) = w_log (wld s) @ es" ..
  let ?s3 = "snd (read_reg (e_regs (eng s2) + er R_completed_desc_count) s2)"
  have "fst (read_reg (e_regs (eng s2) + er R_completed_desc_count) s2) = n"
    using dev(2) [of es] by (simp add: s2(1,7) es)
  moreover have "service_prepare 0 s = read_reg (e_regs (eng s2) + er R_completed_desc_count) s2"
    using st by (simp add: service_prepare_def Let_def s2_def flip: s1_def)
  ultimately have "service_prepare 0 s = (n, ?s3)" by (simp add: prod_eq_iff)
  moreover have "serviced s v ?s3" using s2 by (simp add: serviced_def)
  ultimately show ?thesis by blast
qed

lemma resume_cases:
  assumes "e_shutdown (eng s) AND ENGINE_SHUTDOWN_REQUEST = 0"
    and "e_transfer_list (eng s) \<noteq> [] \<Longrightarrow> xfers s (hd (e_transfer_list (eng s))) \<noteq> None"
  shows "\<exists>s'. engine_service_resume s = Inr s' \<and>
    (if e_running (eng s) \<or> e_transfer_list (eng s) = [] then s' = s
     else started s (hd (e_transfer_list (eng s))) (the (xfers s (hd (e_transfer_list (eng s))))) s')"
proof (cases "e_running (eng s) \<or> e_transfer_list (eng s) = []")
  case True
  then show ?thesis using assms(1) by (auto simp: engine_service_resume_def)
next
  case False
  then obtain t q where q: "e_transfer_list (eng s) = t # q" by (cases "e_transfer_list (eng s)") auto
  with assms(2) obtain x where "xfers s t = Some x" by auto
  with engine_start_ok [of s t q x] False q assms(1) show ?thesis
    by (auto simp: engine_service_resume_def)
qed

lemma perf_none [simp]: "e_xdma_perf (eng s) = None \<Longrightarrow> engine_service_perf n s = s"
  by (simp add: engine_service_perf_def)

lemma plain_queueD:
  "plain_queue h q \<Longrightarrow> t \<in> set q \<Longrightarrow> \<exists>x. h t = Some x \<and> \<not> t_cyclic x \<and> t_desc_virt x \<noteq> None
     \<and> 0 < t_desc_num x \<and> t_desc_num x < 2 ^ 32"
  by (auto simp: plain_queue_def)

text \<open>
  What servicing the queue does when it reaches the transfer \<open>l\<close>: everything before \<open>l\<close>
  is completed, \<open>l\<close> ends in state \<open>st\<close>, each is noticed once and in order, and an engine
  that stopped is started again on the next transfer, if there is one.
\<close>

definition queue_serviced ::
  "engine_state \<Rightarrow> nat list \<Rightarrow> nat \<Rightarrow> transfer_state \<Rightarrow> nat list \<Rightarrow> engine_state \<Rightarrow> bool" where
  "queue_serviced s d l st r s' \<longleftrightarrow>
     xfers s' = (\<lambda>t. if t \<in> set d then finished TRANSFER_STATE_COMPLETED (the (xfers s t))
                  else if t = l then finished st (the (xfers s t)) else xfers s t)
     \<and> e_transfer_list (eng s') = r
     \<and> notices (wld s') = notices (wld s) @ map (\<lambda>t. notice t (the (xfers s t))) (d @ [l])
     \<and> par s' = par s \<and> next_xfer s' = next_xfer s
     \<and> (let e = (eng s)\<lparr>e_transfer_list := r,
             e_desc_dequeued := e_desc_dequeued (eng s) + of_nat (sum_list (map (num_of (xfers s)) (d @ [l])))\<rparr> in
        if e_running (eng s) \<or> r = [] then eng s' = e
        else \<exists>s4. eng s4 = e \<and> started s4 (hd r) (the (xfers s (hd r))) s')"

lemma queue_serviced_running:
  assumes "queue_serviced s d l st r s'" "\<not> e_running (eng s)"
  shows "e_running (eng s') = (r \<noteq> [])"
proof (cases "r = []")
  case True
  then show ?thesis using assms by (simp add: queue_serviced_def)
next
  case False
  then obtain s4 x where "started s4 (hd r) x s'" using assms by (auto simp: queue_serviced_def Let_def)
  then show ?thesis using False by (simp add: started_def)
qed

lemma notices_writes: "extends w w' \<Longrightarrow> \<exists>es. notices w' = notices w @ es"
  by (auto simp: extends_def notices_def)

lemma mode_config_notices [simp]: "notices (wld (engine_start_mode_config s)) = notices (wld s)"
  by (simp add: engine_start_mode_config_def Let_def)

lemma engine_start_notices:
  "engine_start s = Inr (t, s') \<Longrightarrow> notices (wld s') = notices (wld s)"
  by (auto simp: engine_start_def bindr_eq_Inr Let_def xfer_def split: list.splits option.splits)

lemma resume_notices:
  "engine_service_resume s = Inr s' \<Longrightarrow> notices (wld s') = notices (wld s)"
  by (auto simp: engine_service_resume_def bindr_eq_Inr engine_start_notices split: if_splits)

lemma service_queue_ok:
  assumes pq: "plain_queue (xfers s) q" and q: "e_transfer_list (eng s) = q"
    and s: "e_xdma_perf (eng s) = None" "\<not> poll_mode (par s)" "e_status (eng s) AND err_flags = 0"
      "e_shutdown (eng s) AND ENGINE_SHUTDOWN_REQUEST = 0"
    and c: "retire (num_of (xfers s)) q (unat (n - e_desc_dequeued (eng s))) = (d, l # r, c')"
  shows "\<exists>s'. service_queue n s = Inr s' \<and> queue_serviced s d l
    (if c' < num_of (xfers s) l then TRANSFER_STATE_FAILED else TRANSFER_STATE_COMPLETED) r s'"
proof -
  let ?c = "unat (n - e_desc_dequeued (eng s))"
  let ?st = "if c' < num_of (xfers s) l then TRANSFER_STATE_FAILED else TRANSFER_STATE_COMPLETED"
  have split: "q = d @ l # r" using retire_split [OF c] by simp
  then have "q \<noteq> []" by simp
  then obtain h q' where hq: "q = h # q'" by (meson neq_Nil_conv)
  have lt: "?c < 2 ^ 32" using unat_less_2p [of "n - e_desc_dequeued (eng s)"] by simp
  from service_list_retires [OF pq q lt c] obtain s1 where
    s1: "service_transfer_list q (n - e_desc_dequeued (eng s)) s = Inr (Some l, of_nat c', s1)"
      "retired s d (l # r) s1"
    by auto
  have dl: "distinct (d @ l # r)" using pq split by (simp add: plain_queue_def)
  then have l: "l \<notin> set d" by auto
  from plain_queueD [OF pq, of l] obtain x where
    x: "xfers s l = Some x" "t_desc_virt x \<noteq> None" "t_desc_num x < 2 ^ 32" by (auto simp: split)
  have x1: "xfers s1 l = Some x" using s1(2) l x(1) by (simp add: retired_def)
  have c': "c' \<le> ?c" using retire_split [OF c] by linarith
  have st: "(if (of_nat c' :: u32) < of_nat (t_desc_num x) then TRANSFER_STATE_FAILED
      else TRANSFER_STATE_COMPLETED) = ?st"
    using u32_less_of_nat [of c' "t_desc_num x"] c' lt x by (simp add: num_of_def)
  have e1: "e_transfer_list (eng s1) = l # r" "e_status (eng s1) = e_status (eng s)"
    using s1(2) by (simp_all add: retired_def)
  from final_transfer_ok [OF x1 x(2) e1(1), of "of_nat c'"] s(3) obtain o1 s2 where
    s2: "engine_service_final_transfer (Some l) (of_nat c') s1 = Inr (o1, s2)"
      "eng s2 = (eng s1)\<lparr>e_transfer_list := r, e_desc_dequeued := e_desc_dequeued (eng s1) + of_nat (t_desc_num x)\<rparr>"
      "par s2 = par s1" "next_xfer s2 = next_xfer s1" "xfers s2 = (xfers s1)(l := finished ?st x)"
      "notices (wld s2) = notices (wld s1) @ [notice l x]"
    unfolding st e1(2) by blast
  have par: "par s2 = par s" using s1(2) s2 by (simp add: retired_def)
  have e2: "e_shutdown (eng s2) = e_shutdown (eng s)" "e_transfer_list (eng s2) = r"
      "e_running (eng s2) = e_running (eng s)" "e_regs (eng s2) = e_regs (eng s)"
      "e_sgdma_regs (eng s2) = e_sgdma_regs (eng s)" "e_lock (eng s2) = e_lock (eng s)"
    using s1(2) s2(2) by (simp_all add: retired_def)
  have x2: "xfers s2 = (\<lambda>t. if t \<in> set d then finished TRANSFER_STATE_COMPLETED (the (xfers s t))
                  else if t = l then finished ?st (the (xfers s t)) else xfers s t)"
    using s1(2) l x(1) by (auto simp: s2(5) retired_def fun_eq_iff)
  have rest: "xfers s2 t = xfers s t" if "t \<in> set r" for t
    using that dl by (auto simp: x2)
  have "xfers s2 (hd r) \<noteq> None" if "r \<noteq> []"
    using plain_queueD [OF pq, of "hd r"] that rest [of "hd r"] by (auto simp: split)
  then have nx: "e_transfer_list (eng s2) \<noteq> [] \<Longrightarrow> xfers s2 (hd (e_transfer_list (eng s2))) \<noteq> None"
    by (simp add: e2)
  from resume_cases [OF _ nx] s(4) obtain s3 where s3: "engine_service_resume s2 = Inr s3"
    "if e_running (eng s2) \<or> e_transfer_list (eng s2) = [] then s3 = s2
     else started s2 (hd (e_transfer_list (eng s2))) (the (xfers s2 (hd (e_transfer_list (eng s2))))) s3"
    unfolding e2(1) by blast
  have run: "service_queue n s = Inr s3"
    using s1(1) s2(1) s3(1) hq q s(1,2) par
    by (simp add: service_queue_def engine_service_transfer_list_def clear_writeback_def)
  have fr: "xfers s3 = xfers s2" "e_transfer_list (eng s3) = e_transfer_list (eng s2)" "par s3 = par s2"
      "next_xfer s3 = next_xfer s2"
    using s3(2) by (auto simp: started_def split: if_splits)
  have nx2: "next_xfer s2 = next_xfer s" using s1(2) s2 by (simp add: retired_def)
  have e3: "eng s2 = (eng s)\<lparr>e_transfer_list := r,
      e_desc_dequeued := e_desc_dequeued (eng s) + of_nat (sum_list (map (num_of (xfers s)) (d @ [l])))\<rparr>"
    using s1(2) s2(2) x(1) by (simp add: retired_def num_of_def)
  have nt: "notices (wld s3) = notices (wld s) @ map (\<lambda>t. notice t (the (xfers s t))) (d @ [l])"
    using resume_notices [OF s3(1)] s2(6) s1(2) x(1) by (simp add: retired_def)
  have "queue_serviced s d l ?st r s3"
    unfolding queue_serviced_def
  proof (intro conjI)
    show "let e = (eng s)\<lparr>e_transfer_list := r,
             e_desc_dequeued := e_desc_dequeued (eng s) + of_nat (sum_list (map (num_of (xfers s)) (d @ [l])))\<rparr> in
        if e_running (eng s) \<or> r = [] then eng s3 = e
        else \<exists>s4. eng s4 = e \<and> started s4 (hd r) (the (xfers s (hd r))) s3"
      using s3(2) e2 rest [of "hd r"] e3 unfolding Let_def by (cases "r = []") auto
  qed (use fr nt x2 e2 par nx2 in simp_all)
  with run show ?thesis by blast
qed

lemma service_retires_prefix:
  assumes running: "e_running (eng s)" and irq: "\<not> poll_mode (par s)" and noperf: "e_xdma_perf (eng s) = None"
    and open': "e_shutdown (eng s) AND ENGINE_SHUTDOWN_REQUEST = 0"
    and dev: "device_says s v n" "v AND err_flags = 0"
    and q: "e_transfer_list (eng s) = d @ l # r" "plain_queue (xfers s) (d @ l # r)"
    and count: "unat (n - e_desc_dequeued (eng s)) = sum_list (map (num_of (xfers s)) (d @ [l]))"
  shows "\<exists>s1 s'. engine_service 0 s = Inr (0, s') \<and> serviced s v s1
    \<and> queue_serviced s1 d l TRANSFER_STATE_COMPLETED r s'
    \<and> (v AND XDMA_STAT_BUSY = 0 \<longrightarrow> e_running (eng s') = (r \<noteq> []))"
proof -
  from service_prepare_interrupt [OF running dev(1)] obtain s1 where
    s1: "service_prepare 0 s = (n, s1)" "serviced s v s1" by blast
  have e1: "xfers s1 = xfers s" "e_transfer_list (eng s1) = d @ l # r" "e_xdma_perf (eng s1) = None"
      "\<not> poll_mode (par s1)" "e_status (eng s1) AND err_flags = 0"
      "e_shutdown (eng s1) AND ENGINE_SHUTDOWN_REQUEST = 0" "e_desc_dequeued (eng s1) = e_desc_dequeued (eng s)"
    using s1(2) assms by (simp_all add: serviced_def)
  have l: "0 < num_of (xfers s) l"
    using plain_queueD [OF q(2), of l] by (auto simp: num_of_def)
  have "retire (num_of (xfers s1)) (d @ l # r) (unat (n - e_desc_dequeued (eng s1))) =
      (d, l # r, num_of (xfers s) l)"
    unfolding e1 by (rule retire_exact) (use count l in simp_all)
  from service_queue_ok [OF _ e1(2-6) this] q(2) e1(1) obtain s' where
    s': "service_queue n s1 = Inr s'" "queue_serviced s1 d l TRANSFER_STATE_COMPLETED r s'"
    by auto
  have "engine_service 0 s = Inr (0, s')"
    using running s1(1) s'(1) by (simp add: engine_service_def)
  moreover have "e_running (eng s') = (r \<noteq> [])" if "v AND XDMA_STAT_BUSY = 0"
  proof -
    have "\<not> e_running (eng s1)" using that s1(2) by (simp add: serviced_def)
    with s'(2) show ?thesis by (rule queue_serviced_running)
  qed
  ultimately show ?thesis using s1(2) s'(2) by blast
qed

text \<open>
  C7: An interrupt whose status shows no error retires the completed transfers: with the
  descriptors newly completed adding up to a prefix of the queue, exactly the transfers of
  that prefix are completed and removed, each waiter is woken or request completed once
  and in queue order, nothing else changes, and the engine, if it stopped, is programmed
  and started on the first transfer left, or stays idle when there is none.
\<close>

theorem engine_service_retires_prefix:
  assumes running: "e_running (eng s)" and irq: "\<not> poll_mode (par s)" and noperf: "e_xdma_perf (eng s) = None"
    and open': "e_shutdown (eng s) AND ENGINE_SHUTDOWN_REQUEST = 0"
    and dev: "device_says s v n" "v AND err_flags = 0"
    and q: "e_transfer_list (eng s) = d @ l # r" "plain_queue (xfers s) (d @ l # r)"
    and count: "unat (n - e_desc_dequeued (eng s)) = sum_list (map (num_of (xfers s)) (d @ [l]))"
  shows "\<exists>s1 s'. engine_service 0 s = Inr (0, s') \<and> serviced s v s1
    \<and> queue_serviced s1 d l TRANSFER_STATE_COMPLETED r s'
    \<and> (v AND XDMA_STAT_BUSY = 0 \<longrightarrow> e_running (eng s') = (r \<noteq> []))"
  using assms by (rule service_retires_prefix)

lemma service_queue_overrun:
  assumes "plain_queue (xfers s) q" "e_transfer_list (eng s) = q" "e_xdma_perf (eng s) = None"
    "q = [] \<or> sum_list (map (num_of (xfers s)) q) < unat (n - e_desc_dequeued (eng s))"
  shows "service_queue n s = Inl BugOn"
proof (cases q)
  case Nil
  then show ?thesis using assms(2) by (simp add: service_queue_def engine_service_transfer_list_def)
next
  case (Cons h q')
  let ?c = "unat (n - e_desc_dequeued (eng s))"
  have lt: "?c < 2 ^ 32" using unat_less_2p [of "n - e_desc_dequeued (eng s)"] by simp
  have "sum_list (map (num_of (xfers s)) q) < ?c" using assms(4) Cons by simp
  from service_list_retires [OF assms(1,2) lt retire_exhausted [OF this]] obtain s1 m where
    "service_transfer_list q (n - e_desc_dequeued (eng s)) s = Inr (None, m, s1)"
    by auto
  then show ?thesis
    using Cons assms(2,3)
    by (simp add: service_queue_def engine_service_transfer_list_def engine_service_final_transfer_def)
qed

text \<open>
  The service routine reaches a BUG_ON when the device reports more descriptors than
  the queue holds, in particular when the engine runs with an empty queue: the count is
  not bounded before the loop consumes the queue.
\<close>

theorem engine_service_overcount_bug:
  assumes "e_running (eng s)" "e_xdma_perf (eng s) = None" "device_says s v n"
    and "plain_queue (xfers s) (e_transfer_list (eng s))"
    and "e_transfer_list (eng s) = [] \<or>
      sum_list (map (num_of (xfers s)) (e_transfer_list (eng s))) < unat (n - e_desc_dequeued (eng s))"
  shows "engine_service 0 s = Inl BugOn"
proof -
  from service_prepare_interrupt [OF assms(1,3)] obtain s1 where
    s1: "service_prepare 0 s = (n, s1)" "serviced s v s1" by blast
  then have "service_queue n s1 = Inl BugOn"
    using assms by (intro service_queue_overrun) (auto simp: serviced_def)
  then show ?thesis using assms(1) s1(1) by (simp add: engine_service_def)
qed

text \<open>
  C15: An interrupt with an error status marks the transfer it reached as failed but leaves
  it at the head of the queue, wakes nobody for it, and starts the idle engine again on
  that same failed transfer.
\<close>

theorem engine_service_error_restarts:
  assumes running: "e_running (eng s)" and irq: "\<not> poll_mode (par s)" and noperf: "e_xdma_perf (eng s) = None"
    and open': "e_shutdown (eng s) AND ENGINE_SHUTDOWN_REQUEST = 0"
    and dev: "device_says s v n" "v AND err_flags \<noteq> 0" "v AND XDMA_STAT_BUSY = 0"
    and q: "e_transfer_list (eng s) = l # r" "plain_queue (xfers s) (l # r)"
    and count: "unat (n - e_desc_dequeued (eng s)) \<le> num_of (xfers s) l"
  shows "\<exists>s' s4. engine_service 0 s = Inr (0, s') \<and> e_transfer_list (eng s') = l # r
    \<and> map_option t_state (xfers s' l) = Some TRANSFER_STATE_FAILED
    \<and> notices (wld s') = notices (wld s) \<and> started s4 l (the (xfers s' l)) s' \<and> e_running (eng s')"
proof -
  from service_prepare_interrupt [OF running dev(1)] obtain s1 where
    s1: "service_prepare 0 s = (n, s1)" "serviced s v s1" by blast
  have e1: "xfers s1 = xfers s" "e_transfer_list (eng s1) = l # r" "e_xdma_perf (eng s1) = None"
      "\<not> poll_mode (par s1)" "e_status (eng s1) = v" "e_running (eng s1) = False"
      "e_shutdown (eng s1) AND ENGINE_SHUTDOWN_REQUEST = 0" "e_desc_dequeued (eng s1) = e_desc_dequeued (eng s)"
      "notices (wld s1) = notices (wld s)"
    using s1(2) assms by (simp_all add: serviced_def)
  from plain_queueD [OF q(2), of l] obtain x where x: "xfers s1 l = Some x" "\<not> t_cyclic x" "t_desc_num x < 2 ^ 32"
    by (auto simp: e1(1))
  let ?c = "n - e_desc_dequeued (eng s)"
  have c: "\<not> of_nat (t_desc_num x) < ?c"
    using count x(1,3) by (simp add: num_of_def e1(1) word_less_nat_alt unat_of_nat_small)
  let ?x = "x\<lparr>t_state := TRANSFER_STATE_FAILED\<rparr>"
  let ?s2 = "xdma_engine_stop (s1\<lparr>xfers := (xfers s1)(l \<mapsto> ?x)\<rparr>)"
  have nb: "e_status (eng s1) AND XDMA_STAT_BUSY = 0" using dev(3) e1(5) by simp
  have "engine_err_handle l s1 = Inr ?s2"
    using nb x(1) by (simp add: engine_err_handle_def Let_def set_state_ok)
  then have final: "engine_service_final_transfer (Some l) ?c s1 = Inr (Some l, ?s2)"
    using dev(2) e1(5) by (simp add: engine_service_final_transfer_def)
  have "e_transfer_list (eng ?s2) \<noteq> [] \<Longrightarrow> xfers ?s2 (hd (e_transfer_list (eng ?s2))) \<noteq> None"
    using e1(2) by simp
  from resume_cases [OF _ this] e1(7) obtain s3 where s3: "engine_service_resume ?s2 = Inr s3"
    "if e_running (eng ?s2) \<or> e_transfer_list (eng ?s2) = [] then s3 = ?s2
     else started ?s2 (hd (e_transfer_list (eng ?s2))) (the (xfers ?s2 (hd (e_transfer_list (eng ?s2))))) s3"
    by fastforce
  have "service_queue n s1 = Inr s3"
    using e1 c x final s3(1)
    by (simp add: service_queue_def engine_service_transfer_list_def clear_writeback_def)
  then have run: "engine_service 0 s = Inr (0, s3)"
    using running s1(1) by (simp add: engine_service_def)
  have st: "started ?s2 l ?x s3" using s3(2) e1(2,6) by simp
  have "notices (wld s3) = notices (wld s)"
    using resume_notices [OF s3(1)] e1(9) by simp
  then show ?thesis
    using run st e1(2) by (intro exI [of _ s3] exI [of _ ?s2]) (auto simp: started_def)
qed

text \<open>
  C16: An interrupt that finds the engine still busy, no error and the first transfer only
  partly done (a descriptor-completed interrupt in the middle of a transfer) fails that
  transfer: it is taken off the queue as FAILED and its waiter woken, while the device
  goes on moving its data and the driver believes the engine running.
\<close>

theorem engine_service_busy_fails_transfer:
  assumes "e_running (eng s)" "\<not> poll_mode (par s)" "e_xdma_perf (eng s) = None"
    "e_shutdown (eng s) AND ENGINE_SHUTDOWN_REQUEST = 0"
    and dev: "device_says s v n" "v AND err_flags = 0" "v AND XDMA_STAT_BUSY \<noteq> 0"
    and q: "e_transfer_list (eng s) = l # r" "plain_queue (xfers s) (l # r)"
    and part: "unat (n - e_desc_dequeued (eng s)) < num_of (xfers s) l"
  shows "\<exists>s'. engine_service 0 s = Inr (0, s') \<and> e_transfer_list (eng s') = r \<and> e_running (eng s')
    \<and> xfers s' = (xfers s)(l := finished TRANSFER_STATE_FAILED (the (xfers s l)))
    \<and> notices (wld s') = notices (wld s) @ [notice l (the (xfers s l))]"
proof -
  from service_prepare_interrupt [OF assms(1) dev(1)] obtain s1 where
    s1: "service_prepare 0 s = (n, s1)" "serviced s v s1" by blast
  have e1: "xfers s1 = xfers s" "e_transfer_list (eng s1) = l # r" "e_xdma_perf (eng s1) = None"
      "\<not> poll_mode (par s1)" "e_status (eng s1) AND err_flags = 0"
      "e_shutdown (eng s1) AND ENGINE_SHUTDOWN_REQUEST = 0" "e_desc_dequeued (eng s1) = e_desc_dequeued (eng s)"
      "e_running (eng s1)" "notices (wld s1) = notices (wld s)"
    using s1(2) assms by (simp_all add: serviced_def)
  have "retire (num_of (xfers s1)) (l # r) (unat (n - e_desc_dequeued (eng s1))) =
      ([], l # r, unat (n - e_desc_dequeued (eng s1)))"
    using part by (simp add: e1)
  from service_queue_ok [OF _ e1(2-6) this] q(2) e1(1) part obtain s' where
    s': "service_queue n s1 = Inr s'" "queue_serviced s1 [] l TRANSFER_STATE_FAILED r s'"
    by (auto simp: e1(7))
  have "engine_service 0 s = Inr (0, s')"
    using assms(1) s1(1) s'(1) by (simp add: engine_service_def)
  then show ?thesis
    using s'(2) e1 by (auto simp: queue_serviced_def fun_eq_iff)
qed

subsection \<open>What an interrupt takes from the queue\<close>

text \<open>Whatever the device answers: the steps of the routine that leave the queue alone.\<close>

lemma engine_start_frame:
  "engine_start s = Inr (t, s') \<Longrightarrow> e_transfer_list (eng s') = e_transfer_list (eng s) \<and> xfers s' = xfers s
     \<and> e_lock (eng s') = e_lock (eng s) \<and> par s' = par s \<and> next_xfer s' = next_xfer s"
  by (auto simp: engine_start_def bindr_eq_Inr Let_def xfer_def split: list.splits option.splits)

lemma upd_xfer_frame: "upd_xfer t f s = Inr s' \<Longrightarrow> eng s' = eng s \<and> par s' = par s \<and> wld s' = wld s"
  by (auto simp: upd_xfer_def bindr_eq_Inr)

lemma completion_frame: "engine_transfer_completion t s = Inr (r, s') \<Longrightarrow> eng s' = eng s \<and> par s' = par s"
  by (auto simp: engine_transfer_completion_def free_xfer_def bindr_eq_Inr split: option.splits if_splits)

lemma plain_queue_snoc: "plain_queue h (q @ [t]) \<longleftrightarrow> plain_queue h q \<and> t \<notin> set q \<and> (\<exists>x. h t = Some x
    \<and> \<not> t_cyclic x \<and> t_desc_virt x \<noteq> None \<and> 0 < t_desc_num x \<and> t_desc_num x < 2 ^ 32)"
  by (auto simp: plain_queue_def)

lemma perf_frame [simp]:
  "xfers (engine_service_perf n s) = xfers s"
  "e_transfer_list (eng (engine_service_perf n s)) = e_transfer_list (eng s)"
  "e_lock (eng (engine_service_perf n s)) = e_lock (eng s)"
  "e_desc_dequeued (eng (engine_service_perf n s)) = e_desc_dequeued (eng s)"
  "e_status (eng (engine_service_perf n s)) = e_status (eng s)"
  "notices (wld (engine_service_perf n s)) = notices (wld s)"
  by (auto simp: engine_service_perf_def Let_def split: option.split)

lemma prepare_frame:
  "xfers (snd (service_prepare w s)) = xfers s"
  "e_transfer_list (eng (snd (service_prepare w s))) = e_transfer_list (eng s)"
  "e_lock (eng (snd (service_prepare w s))) = e_lock (eng s)"
  "notices (wld (snd (service_prepare w s))) = notices (wld s)"
  by (simp_all add: service_prepare_def Let_def engine_service_shutdown_def)

lemma prepare_status:
  "e_status (eng (snd (service_prepare 0 s))) = w_dev (wld s) (w_log (wld s)) (e_regs (eng s) + er R_status_rc)"
  by (simp add: service_prepare_def Let_def engine_service_shutdown_def)

lemma resume_frame:
  "engine_service_resume s = Inr s' \<Longrightarrow> e_transfer_list (eng s') = e_transfer_list (eng s) \<and> xfers s' = xfers s
     \<and> e_lock (eng s') = e_lock (eng s)"
  by (auto simp: engine_service_resume_def bindr_eq_Inr split: if_splits dest!: engine_start_frame)

lemma clear_writeback_frame:
  "clear_writeback s = Inr s' \<Longrightarrow> e_transfer_list (eng s') = e_transfer_list (eng s) \<and> xfers s' = xfers s
     \<and> e_lock (eng s') = e_lock (eng s) \<and> wld s' = wld s"
  by (auto simp: clear_writeback_def split: if_splits)

text \<open>
  With no error in the status, what is taken from the queue is a prefix of it, and each
  transfer of the prefix gets its notice, in order; those that stay are as they were.
\<close>

definition takes_prefix :: "engine_state \<Rightarrow> engine_state \<Rightarrow> bool" where
  "takes_prefix s s' \<longleftrightarrow> e_lock (eng s') = e_lock (eng s)
     \<and> (\<forall>t\<in>set (e_transfer_list (eng s')). xfers s' t = xfers s t)
     \<and> (\<exists>d. e_transfer_list (eng s) = d @ e_transfer_list (eng s')
          \<and> notices (wld s') = notices (wld s) @ map (\<lambda>t. notice t (the (xfers s t))) d)"

lemma takes_nothing:
  "e_lock (eng s') = e_lock (eng s) \<Longrightarrow> e_transfer_list (eng s') = e_transfer_list (eng s) \<Longrightarrow> xfers s' = xfers s
    \<Longrightarrow> notices (wld s') = notices (wld s) \<Longrightarrow> takes_prefix s s'"
  by (simp add: takes_prefix_def)

lemma service_queue_takes:
  assumes run: "service_queue n s = Inr s'" and pq: "plain_queue (xfers s) (e_transfer_list (eng s))"
    and ok: "e_status (eng s) AND err_flags = 0"
  shows "takes_prefix s s'"
proof -
  let ?q = "e_transfer_list (eng s)"
  let ?s1 = "if ?q \<noteq> [] then engine_service_perf n s else s"
  let ?c = "unat (n - e_desc_dequeued (eng ?s1))"
  have q1: "e_transfer_list (eng ?s1) = ?q" "xfers ?s1 = xfers s" "e_lock (eng ?s1) = e_lock (eng s)"
    "e_desc_dequeued (eng ?s1) = e_desc_dequeued (eng s)" "e_status (eng ?s1) = e_status (eng s)" "notices (wld ?s1) = notices (wld s)"
    by simp_all
  have lt: "?c < 2 ^ 32" using unat_less_2p [of "n - e_desc_dequeued (eng ?s1)"] by simp
  obtain d r c' where ret: "retire (num_of (xfers ?s1)) ?q ?c = (d, r, c')" by (metis prod.exhaust)
  have pq1: "plain_queue (xfers ?s1) ?q" using pq by auto
  from service_list_retires [OF pq1 q1(1) lt ret] obtain s2 where
    s2: "service_transfer_list ?q (n - e_desc_dequeued (eng s)) ?s1
      = Inr (case r of [] \<Rightarrow> None | t # _ \<Rightarrow> Some t, of_nat c', s2)" "retired ?s1 d r s2"
    by (auto simp: q1(4))
  have split: "?q = d @ r" using retire_split [OF ret] by simp
  have body: "service_queue n s = bindr (engine_service_final_transfer (case r of [] \<Rightarrow> None | t # _ \<Rightarrow> Some t) (of_nat c') s2)
      (\<lambda>(_, s). bindr (clear_writeback s) engine_service_resume)" if "?q \<noteq> []"
    using that s2(1) by (auto simp: service_queue_def engine_service_transfer_list_def Let_def split: list.split)
  have ne: "?q \<noteq> []"
    using run by (auto simp: service_queue_def engine_service_transfer_list_def)
  then obtain l r' where r: "r = l # r'"
    using run body by (cases r) (auto simp: engine_service_final_transfer_def)
  from run body [OF ne] obtain o1 s3 s4 where
    s3: "engine_service_final_transfer (Some l) (of_nat c') s2 = Inr (o1, s3)"
    and s4: "clear_writeback s3 = Inr s4" "engine_service_resume s4 = Inr s'"
    by (auto simp: r bindr_eq_Inr)
  have dist: "distinct (d @ l # r')" using pq split r by (simp add: plain_queue_def)
  have s2x: "xfers s2 t = xfers s t" if "t \<in> set r" for t
    using that dist s2(2) q1(2) by (auto simp: retired_def r)
  have s2e: "e_transfer_list (eng s2) = l # r'" "e_lock (eng s2) = e_lock (eng s)" "e_status (eng s2) = e_status (eng s)"
      "notices (wld s2) = notices (wld s) @ map (\<lambda>t. notice t (the (xfers s t))) d"
    using s2(2) q1 by (simp_all add: retired_def r)
  obtain x where x: "xfers s l = Some x" "t_desc_virt x \<noteq> None"
    using plain_queueD [OF pq, of l] by (auto simp: split r)
  have x2: "xfers s2 l = Some x" using s2x [of l] x(1) by (simp add: r)
  have st: "e_status (eng s2) AND err_flags = 0" using ok s2e(3) by simp
  from final_transfer_ok [OF x2 x(2) s2e(1) st, of "of_nat c'"] s3
  have e3: "e_transfer_list (eng s3) = r'" "e_lock (eng s3) = e_lock (eng s2)"
      "\<And>t. t \<noteq> l \<Longrightarrow> xfers s3 t = xfers s2 t" "notices (wld s3) = notices (wld s2) @ [notice l x]"
    by auto
  have "xfers s3 t = xfers s t" if "t \<in> set r'" for t
    using that e3(3) [of t] s2x [of t] dist by (auto simp: r)
  moreover have "notices (wld s3) = notices (wld s) @ map (\<lambda>t. notice t (the (xfers s t))) (d @ [l])"
    using e3(4) s2e(4) x(1) by simp
  moreover note f = clear_writeback_frame [OF s4(1)] resume_frame [OF s4(2)] resume_notices [OF s4(2)]
  moreover have "?q = (d @ [l]) @ e_transfer_list (eng s')" using split r f e3(1) by simp
  ultimately show ?thesis unfolding takes_prefix_def using e3(1,2) s2e(2) by auto
qed

lemma engine_service_takes:
  assumes run: "engine_service 0 s = Inr (rc, s')" and pq: "plain_queue (xfers s) (e_transfer_list (eng s))"
    and ok: "w_dev (wld s) (w_log (wld s)) (e_regs (eng s) + er R_status_rc) AND err_flags = 0"
  shows "takes_prefix s s'"
proof (cases "e_running (eng s)")
  case False
  then have "s' = snd (engine_status_read True s)" using run by (simp add: engine_service_def)
  then show ?thesis by (intro takes_nothing) simp_all
next
  case True
  obtain n s1 where s1: "service_prepare 0 s = (n, s1)" by (metis prod.exhaust)
  have f: "xfers s1 = xfers s" "e_transfer_list (eng s1) = e_transfer_list (eng s)" "e_lock (eng s1) = e_lock (eng s)"
      "notices (wld s1) = notices (wld s)" "e_status (eng s1) AND err_flags = 0"
    using prepare_frame [of 0 s] prepare_status [of s] ok by (simp_all add: s1)
  have "service_queue n s1 = Inr s'"
    using run True s1 by (auto simp: engine_service_def bindr_eq_Inr Let_def)
  from service_queue_takes [OF this _ f(5)] pq f show ?thesis by (simp add: takes_prefix_def)
qed

lemma transfer_queue_frame:
  assumes "transfer_queue t s = Inr (rc, s')"
  shows "\<not> e_lock (eng s') \<and> notices (wld s') = notices (wld s) \<and> (\<exists>x. xfers s t = Some x \<and> 0 < t_desc_num x
    \<and> (rc \<noteq> 0 \<and> e_transfer_list (eng s') = e_transfer_list (eng s) \<and> xfers s' = xfers s
       \<or> rc = 0 \<and> e_transfer_list (eng s') = e_transfer_list (eng s) @ [t]
         \<and> xfers s' = (xfers s)(t \<mapsto> x\<lparr>t_state := TRANSFER_STATE_SUBMITTED\<rparr>)))"
proof -
  have n: "notices (wld v) = notices (wld u) \<and> e_transfer_list (eng v) = e_transfer_list (eng u) \<and> xfers v = xfers u"
    if "engine_start u = Inr (k, v)" for k u v
    using engine_start_notices [OF that] engine_start_frame that by blast
  show ?thesis using assms
    by (auto simp: transfer_queue_def bindr_eq_Inr Let_def spin_lock_def spin_unlock_def xfer_def
      set_transfer_state_def upd_xfer_def split: if_splits option.splits dest!: n)
qed

subsection \<open>Concrete runs\<close>

lemma sample_running_facts:
  "e_running (eng (sample_running v n))" "\<not> poll_mode (par (sample_running v n))"
  "e_xdma_perf (eng (sample_running v n)) = None"
  "e_shutdown (eng (sample_running v n)) AND ENGINE_SHUTDOWN_REQUEST = 0"
  "device_says (sample_running v n) v n" "e_transfer_list (eng (sample_running v n)) = [7, 8]"
  "plain_queue (xfers (sample_running v n)) [7, 8]" "e_desc_dequeued (eng (sample_running v n)) = 0"
  "num_of (xfers (sample_running v n)) 7 = 1" "num_of (xfers (sample_running v n)) 8 = 2"
  by (simp_all add: sample_running_def sample_state_def sample_engine_def sample_params_def device_says_def
      plain_queue_def sample_transfer_def new_transfer_def num_of_def)

lemma sample_status:
  "XDMA_STAT_MAGIC_STOPPED AND err_flags \<noteq> 0" "XDMA_STAT_MAGIC_STOPPED AND XDMA_STAT_BUSY = 0"
  "XDMA_STAT_BUSY AND err_flags = 0" "XDMA_STAT_BUSY \<noteq> 0"
  by (simp_all add: reg_simps)

theorem engine_service_retires_prefix_witness:
  "\<exists>s'. engine_service 0 (sample_running 0 1) = Inr (0, s') \<and> e_transfer_list (eng s') = [8] \<and> e_running (eng s')"
  using engine_service_retires_prefix [of "sample_running 0 1" 0 1 "[]" 7 "[8]"]
  by (auto simp: sample_running_facts queue_serviced_def sample_status)

theorem engine_service_overcount_bug_witness:
  "engine_service 0 (sample_running 0 4) = Inl BugOn"
  by (rule engine_service_overcount_bug [of _ 0 4]) (simp_all add: sample_running_facts)

theorem engine_service_error_restarts_witness:
  "\<exists>s'. engine_service 0 (sample_running XDMA_STAT_MAGIC_STOPPED 0) = Inr (0, s')
    \<and> e_transfer_list (eng s') = [7, 8] \<and> e_running (eng s')
    \<and> map_option t_state (xfers s' 7) = Some TRANSFER_STATE_FAILED"
  using engine_service_error_restarts [of "sample_running XDMA_STAT_MAGIC_STOPPED 0" XDMA_STAT_MAGIC_STOPPED 0 7 "[8]"]
  by (auto simp: sample_running_facts sample_status)

theorem engine_service_busy_fails_transfer_witness:
  "\<exists>s'. engine_service 0 (sample_running XDMA_STAT_BUSY 0) = Inr (0, s')
    \<and> e_transfer_list (eng s') = [8] \<and> e_running (eng s')"
  using engine_service_busy_fails_transfer [of "sample_running XDMA_STAT_BUSY 0" XDMA_STAT_BUSY 0 7 "[8]"]
  by (auto simp: sample_running_facts sample_status)

end
