(* ===== verification/Xdma_Ring.thy ===== *)
theory Xdma_Ring
  imports Xdma_Service
begin

unbundle bit_operations_syntax

text \<open>
  Packet reception of a streaming engine in driver/xdma-core.c: the ring the device fills
  (engine_ring_process on the interrupt side, complete_cyclic on the reader's side), the
  interrupt and polling entry points that choose between the ring and \<open>engine_service\<close>,
  and the character device operations that set the ring up, read from it and tear it down.

  The ring is described from both sides by the slots ahead of an index: those the device
  may fill before it meets the reader, and those the reader may take. The lemmas give the
  exact effect of the two loops, that both return, where the copies to the user come from,
  and the runs that go wrong.
\<close>

subsection \<open>The receive ring\<close>

definition ring_advance :: "engine_state \<Rightarrow> engine_state" where
  "ring_advance s =
     (let tail = (e_rx_tail (eng s) + 1) mod RX_BUF_PAGES
      in upd_eng (\<lambda>e. e\<lparr>e_rx_tail := tail, e_rx_overrun := e_rx_overrun e \<or> tail = e_rx_head e\<rparr>) s)"

text \<open>
  The loop of \<open>engine_ring_process\<close>, with a bound on its rounds; \<open>ring_process_returns\<close>
  shows that one round more than the ring has slots is enough.
\<close>

fun ring_loop :: "nat \<Rightarrow> nat \<Rightarrow> engine_state \<Rightarrow> (nat \<times> engine_state) run" where
  "ring_loop 0 eop_count s = Inl NoReturn"
| "ring_loop (Suc k) eop_count s = (case e_rx_result (eng s) of
       None \<Rightarrow> Inl BugOn
     | Some results \<Rightarrow>
       bindr (array_get results (e_rx_tail (eng s))) (\<lambda>r.
         if r_status r \<noteq> 0 \<and> \<not> e_rx_overrun (eng s)
         then ring_loop k (if r_status r AND RX_STATUS_EOP \<noteq> 0 then eop_count + 1 else eop_count) (ring_advance s)
         else Inr (eop_count, s)))"

definition engine_ring_process :: "engine_state \<Rightarrow> (nat \<times> engine_state) run" where
  "engine_ring_process s = ring_loop (RX_BUF_PAGES + 1) 0 s"

text \<open>On an empty queue the entry the code computes is not the cyclic transfer.\<close>

definition engine_transfer_dequeue :: "engine_state \<Rightarrow> engine_state run" where
  "engine_transfer_dequeue s = (case e_transfer_list (eng s) of
       [] \<Rightarrow> Inl BugOn
     | t # q \<Rightarrow> bindr (bug_on (e_rx_transfer_cyclic (eng s) \<noteq> Some t)) (\<lambda>_.
         Inr (upd_eng (e_transfer_list_update (\<lambda>_. q)) s)))"

definition stop_if_idle :: "engine_state \<Rightarrow> engine_state run" where
  "stop_if_idle s =
     (if e_running (eng s) \<and> e_status (eng s) AND XDMA_STAT_BUSY = 0
      then bindr (if e_transfer_list (eng s) \<noteq> [] then engine_transfer_dequeue s else Inr s)
             (\<lambda>s. Inr (engine_service_shutdown s))
      else Inr s)"

text \<open>
  The polling loop of a cyclic transfer. The device writes the write-back word and the
  ring while it runs: the argument lists what they hold in each round, and a list that
  ends before the loop does is a loop that has not returned.
\<close>

fun cyclic_poll :: "(u32 \<times> xdma_result list) list \<Rightarrow> engine_state \<Rightarrow> (int \<times> nat \<times> engine_state) run" where
  "cyclic_poll [] s = Inl NoReturn"
| "cyclic_poll ((wb, results) # obs) s =
     (if e_writeback (eng s) = None then Inl NullDeref
      else let s = upd_eng (\<lambda>e. e\<lparr>e_writeback := Some wb, e_rx_result := Some results\<rparr>) s in
        if wb AND WB_ERR_MASK \<noteq> 0 then Inr (-1, 0, s)
        else bindr (engine_ring_process s) (\<lambda>(eop_count, s).
          if eop_count = 0 then cyclic_poll obs s else Inr (0, eop_count, s)))"

definition check_magic :: "engine_state \<Rightarrow> unit run" where
  "check_magic s = bug_on (e_magic (eng s) \<noteq> MAGIC_ENGINE)"

definition engine_service_cyclic_polled ::
  "(u32 \<times> xdma_result list) list \<Rightarrow> engine_state \<Rightarrow> (int \<times> engine_state) run" where
  "engine_service_cyclic_polled obs s =
     bindr (check_magic s) (\<lambda>_.
     bindr (cyclic_poll obs s) (\<lambda>(rc, eop_count, s).
       if eop_count = 0
       then bindr (stop_if_idle (snd (engine_status_read True s))) (\<lambda>s. Inr (rc, s))
       else Inr (rc, s)))"

definition wake_cyclic :: "engine_state \<Rightarrow> engine_state run" where
  "wake_cyclic s = (case e_rx_transfer_cyclic (eng s) of
       None \<Rightarrow> Inl NullDeref
     | Some t \<Rightarrow> bindr (xfer t s) (\<lambda>_. Inr (wake_up (Wq_transfer t) s)))"

definition engine_service_cyclic_interrupt :: "engine_state \<Rightarrow> (int \<times> engine_state) run" where
  "engine_service_cyclic_interrupt s =
     bindr (check_magic s) (\<lambda>_.
     bindr (engine_ring_process (snd (engine_status_read True s))) (\<lambda>(eop_count, s).
     bindr (if enable_credit_mp (par s) then wake_cyclic s
            else if eop_count > 0
            then wake_cyclic (upd_eng (e_eop_found_update (\<lambda>_. True)) s)
            else Inr s) (\<lambda>s.
     bindr (stop_if_idle s) (\<lambda>s. Inr (0, s)))))"

definition engine_service_cyclic ::
  "(u32 \<times> xdma_result list) list \<Rightarrow> engine_state \<Rightarrow> (int \<times> engine_state) run" where
  "engine_service_cyclic obs s =
     bindr (check_magic s) (\<lambda>_.
       if poll_mode (par s) then engine_service_cyclic_polled obs s
       else engine_service_cyclic_interrupt s)"

subsection \<open>The interrupt and the polling paths\<close>

definition engine_service_work ::
  "(u32 \<times> xdma_result list) list \<Rightarrow> engine_state \<Rightarrow> engine_state run" where
  "engine_service_work obs s =
     bindr (check_magic s) (\<lambda>_.
     bindr (spin_lock s) (\<lambda>s.
     bindr (if e_rx_transfer_cyclic (eng s) \<noteq> None then engine_service_cyclic obs s else engine_service 0 s)
       (\<lambda>(_, s).
       let s = (if msix_enabled (par s)
         then write_reg (e_interrupt_enable_mask_value (eng s)) (e_regs (eng s) + er R_interrupt_enable_mask_w1s) s
         else upd_wld (channel_interrupts_enable (config_bar (par s)) (e_irq_bitmask (eng s))) s)
       in Inr (spin_unlock s))))"

text \<open>
  The polling loop of \<open>engine_service_wb_monitor\<close>: in each round the written-back word and
  whether the time is over.
\<close>

fun wb_loop :: "u32 \<Rightarrow> (u32 \<times> bool) list \<Rightarrow> u32 run" where
  "wb_loop expected_wb [] = Inl NoReturn"
| "wb_loop expected_wb ((desc_wb, late) # obs) =
     (if desc_wb AND WB_ERR_MASK \<noteq> 0 then Inr desc_wb
      else if desc_wb = expected_wb then Inr desc_wb
      else if late then Inr (if desc_wb AND WB_COUNT_MASK > expected_wb then expected_wb OR WB_ERR_MASK else desc_wb)
      else wb_loop expected_wb obs)"

definition engine_service_wb_monitor :: "u32 \<Rightarrow> (u32 \<times> bool) list \<Rightarrow> engine_state \<Rightarrow> u32 run" where
  "engine_service_wb_monitor expected_wb obs s =
     (if expected_wb = 0 then Inr 0
      else if e_writeback (eng s) = None then Inl NullDeref
      else wb_loop expected_wb obs)"

definition engine_service_poll ::
  "(u32 \<times> bool) list \<Rightarrow> (u32 \<times> xdma_result list) list \<Rightarrow> u32 \<Rightarrow> engine_state \<Rightarrow> (int \<times> engine_state) run" where
  "engine_service_poll wobs cobs expected_desc_count s =
     bindr (check_magic s) (\<lambda>_.
       if expected_desc_count AND WB_COUNT_MASK \<noteq> expected_desc_count then Inr (-1, s)
       else
         bindr (engine_service_wb_monitor expected_desc_count wobs s) (\<lambda>desc_wb.
         bindr (spin_lock s) (\<lambda>s.
         bindr (if e_rx_transfer_cyclic (eng s) \<noteq> None then engine_service_cyclic cobs s
                else engine_service desc_wb s) (\<lambda>(rc, s).
           Inr (rc, spin_unlock s)))))"

subsection \<open>Reading packets\<close>

definition EIO :: int where "EIO = 5"
definition EBUSY :: int where "EBUSY = 16"
definition ERESTARTSYS :: int where "ERESTARTSYS = 512"

text \<open>
  One round of \<open>transfer_monitor_cyclic\<close>: polling, or waiting for the interrupt side.
  What happens while the reader waits, and what the wait returns, is the argument.
\<close>

type_synonym waiting = "engine_state \<Rightarrow> (int \<times> engine_state) run"

definition monitor_round :: "waiting \<Rightarrow> waiting" where
  "monitor_round wait s =
     (if poll_mode (par s) then bindr (wait s) (\<lambda>(rc, s). Inr (if rc \<noteq> 0 then - ERESTARTSYS else 0, s))
      else wait s)"

definition head_status :: "engine_state \<Rightarrow> u32 run" where
  "head_status s = (case e_rx_result (eng s) of
       None \<Rightarrow> Inl BugOn
     | Some results \<Rightarrow> bindr (array_get results (e_rx_head (eng s))) (\<lambda>r. Inr (r_status r)))"

fun monitor_cyclic_loop :: "waiting list \<Rightarrow> int \<Rightarrow> waiting" where
  "monitor_cyclic_loop [] rc s = Inl NoReturn"
| "monitor_cyclic_loop (wait # ws) rc s =
     (let rc = rc + 1 in
      if rc = 100 then Inr (rc, s)
      else bindr (monitor_round wait s) (\<lambda>(rc, s).
        bindr (head_status s) (\<lambda>st. if st = 0 then monitor_cyclic_loop ws rc s else Inr (rc, s))))"

definition transfer_monitor_cyclic :: "waiting list \<Rightarrow> waiting" where
  "transfer_monitor_cyclic ws s =
     (if e_rx_result (eng s) = None then Inl BugOn else monitor_cyclic_loop ws 0 s)"

text \<open>\<open>buf\<close> is the user buffer; the copy stops at the first \<open>copy_to_user\<close> that is not complete.\<close>

function copy_cyclic_loop :: "u64 \<Rightarrow> nat \<Rightarrow> nat \<Rightarrow> engine_state \<Rightarrow> int option \<times> engine_state" where
  "copy_cyclic_loop buf remaining head s =
     (if remaining = 0 then (None, s)
      else
        let copy = min remaining RX_BUF_BLOCK;
            (rc, w) = kcall (Copy_to_user (buf + ucast (e_user_buffer_index (eng s)))
              (e_rx_buffer (eng s) + of_nat (head * RX_BUF_BLOCK)) copy) (wld s);
            s = s\<lparr>wld := w\<rparr>
        in if rc \<noteq> 0 then (Some rc, s)
           else copy_cyclic_loop buf (remaining - copy) ((head + 1) mod RX_BUF_PAGES)
             (upd_eng (\<lambda>e. e\<lparr>e_user_buffer_index := e_user_buffer_index e + of_nat copy\<rparr>) s))"
  by auto
termination
  by (relation "measure (\<lambda>(buf, remaining, head, s). remaining)") (auto simp: RX_BUF_BLOCK_def)

declare copy_cyclic_loop.simps [simp del]

definition copy_cyclic_to_user :: "nat \<Rightarrow> nat \<Rightarrow> u64 \<Rightarrow> engine_state \<Rightarrow> (int \<times> engine_state) run" where
  "copy_cyclic_to_user pkt_length head buf s =
     bindr (bug_on (buf = 0)) (\<lambda>_.
       Inr (case copy_cyclic_loop buf pkt_length head s of
              (Some rc, s) \<Rightarrow> (rc, s)
            | (None, s) \<Rightarrow> (int pkt_length, s)))"

definition result_fault :: "xdma_result \<Rightarrow> bool" where
  "result_fault r \<longleftrightarrow> drop_bit 16 (r_status r) \<noteq> C2H_WB \<or> unat (r_length r) > RX_BUF_BLOCK \<or> r_length r = 0"

text \<open>
  The loop of \<open>complete_cyclic\<close>, with a bound on its rounds; the result is the fault flag,
  the packet length and the number of credits.
\<close>

fun complete_loop :: "nat \<Rightarrow> nat \<Rightarrow> nat \<Rightarrow> engine_state \<Rightarrow> (bool \<times> nat \<times> nat \<times> engine_state) run" where
  "complete_loop 0 pkt_length num_credit s = Inl NoReturn"
| "complete_loop (Suc k) pkt_length num_credit s =
     (if e_rx_head (eng s) \<noteq> e_rx_tail (eng s) \<or> e_rx_overrun (eng s) then
        case e_rx_result (eng s) of
          None \<Rightarrow> Inl BugOn
        | Some results \<Rightarrow>
          bindr (array_get results (e_rx_head (eng s))) (\<lambda>r.
            let fault = result_fault r;
                eop = (\<not> fault \<and> r_status r AND RX_STATUS_EOP \<noteq> 0);
                pkt_length = (if fault then pkt_length else pkt_length + unat (r_length r));
                num_credit = (if fault then num_credit else num_credit + 1);
                s = upd_eng (\<lambda>e. e\<lparr>e_eop_found := e_eop_found e \<or> eop,
                      e_rx_result := Some (results[e_rx_head e := r\<lparr>r_status := 0, r_length := 0\<rparr>]),
                      e_rx_head := (e_rx_head e + 1) mod RX_BUF_PAGES\<rparr>) s
            in if fault \<or> eop then Inr (fault, pkt_length, num_credit, s)
               else complete_loop k pkt_length num_credit s)
      else Inr (False, pkt_length, num_credit, s))"

definition complete_cyclic :: "u64 \<Rightarrow> engine_state \<Rightarrow> (int \<times> engine_state) run" where
  "complete_cyclic buf s =
     (if e_rx_result (eng s) = None then Inl BugOn
      else
        bindr (spin_lock s) (\<lambda>s.
        let head = e_rx_head (eng s) in
        bindr (complete_loop (RX_BUF_PAGES + 1) 0 0 s) (\<lambda>(fault, pkt_length, num_credit, s).
        let s = spin_unlock s in
        if fault then Inr (- EIO, s)
        else
          bindr (copy_cyclic_to_user pkt_length head buf s) (\<lambda>(rc, s).
          let s = upd_eng (e_rx_overrun_update (\<lambda>_. False)) s
          in Inr (rc, if rc > 0 then write_reg (of_nat num_credit) (e_sgdma_regs (eng s) + sr R_credits) s
                      else s)))))"

text \<open>The rounds of \<open>char_sgdma_read_cyclic\<close>, each with what its monitor waits for.\<close>

fun read_cyclic_loop :: "waiting list list \<Rightarrow> u64 \<Rightarrow> int \<Rightarrow> engine_state \<Rightarrow> (int \<times> engine_state) run" where
  "read_cyclic_loop [] buf rc_len s = Inl NoReturn"
| "read_cyclic_loop (ws # wss) buf rc_len s =
     bindr (transfer_monitor_cyclic ws s) (\<lambda>(rc, s).
       if rc \<noteq> 0 then Inr (rc, s)
       else bindr (complete_cyclic buf s) (\<lambda>(n, s).
         if e_eop_found (eng s)
         then Inr (rc_len + n, if enable_credit_mp (par s)
                then upd_eng (e_eop_found_update (\<lambda>_. False)) s else s)
         else read_cyclic_loop wss buf (rc_len + n) s))"

definition char_sgdma_read_cyclic :: "waiting list list \<Rightarrow> u64 \<Rightarrow> engine_state \<Rightarrow> (int \<times> engine_state) run" where
  "char_sgdma_read_cyclic wss buf s =
     bindr (check_magic s) (\<lambda>_.
     bindr (bug_on (e_rx_transfer_cyclic (eng s) = None)) (\<lambda>_.
       read_cyclic_loop wss buf 0 (upd_eng (e_user_buffer_index_update (\<lambda>_. 0)) s)))"

subsection \<open>Opening and closing a streaming receiver\<close>

text \<open>The memory of the result ring, 0 when there is none, and its initial content.\<close>

definition RX_RESULT_BUF_SIZE :: nat where "RX_RESULT_BUF_SIZE = RX_BUF_PAGES * RESULT_SIZE"

definition cyclic_transfer_setup ::
  "kernel_grants \<Rightarrow> xdma_result list \<Rightarrow> engine_state \<Rightarrow> (int \<times> engine_state) run" where
  "cyclic_transfer_setup k results s =
     bindr (spin_lock s) (\<lambda>s.
     let s = upd_eng (\<lambda>e. e\<lparr>e_rx_tail := 0, e_rx_head := 0, e_rx_overrun := False, e_eop_found := False,
               e_user_buffer_index := 0\<rparr>) s in
     if e_rx_buffer (eng s) \<noteq> 0 then Inr (- EBUSY, s)
     else
       let buf = w_addr (wld s) (w_log (wld s));
           s = upd_eng (e_rx_buffer_update (\<lambda>_. buf)) (upd_wld (kcall0 (Vmalloc RX_BUF_SIZE)) s) in
       if buf = 0 then Inr (- ENOMEM, s)
       else
         bindr (transfer_create k buf (of_nat RX_BUF_SIZE) 0 (e_dir_to_dev (eng s)) False True False (wld s))
           (\<lambda>(x, w).
         let t = next_xfer s;
             s = (case x of
                    None \<Rightarrow> upd_eng (e_rx_transfer_cyclic_update (\<lambda>_. None)) (s\<lparr>wld := w\<rparr>)
                  | Some x \<Rightarrow> upd_eng (e_rx_transfer_cyclic_update (\<lambda>_. Some t))
                      (s\<lparr>wld := w, xfers := (xfers s)(t \<mapsto> x), next_xfer := t + 1\<rparr>));
             bus = w_addr (wld s) (w_log (wld s));
             (virt, w) = kcall (Pci_alloc_consistent RX_RESULT_BUF_SIZE) (wld s);
             s = upd_eng (\<lambda>e. e\<lparr>e_rx_result := (if virt = 0 then None else Some results), e_rx_result_bus := bus\<rparr>)
                   (s\<lparr>wld := w\<rparr>)
         in if virt = 0 then
              bindr (if x = None then Inl NullDeref else free_xfer t s) (\<lambda>s.
                let s = upd_wld (kcall0 Vfree) (upd_eng (e_rx_transfer_cyclic_update (\<lambda>_. None)) s)
                in Inr (- ENOMEM, spin_unlock (upd_eng (e_rx_buffer_update (\<lambda>_. 0)) s)))
            else
              bindr (if x = None then Inl NullDeref
                     else upd_xfer t (\<lambda>x.
                       bindr (transfer_set_result_addresses bus x) (\<lambda>x.
                       bindr (transfer_set_all_control (XDMA_DESC_EOP OR XDMA_DESC_COMPLETED) x)
                         xdma_transfer_cyclic)) s) (\<lambda>s.
              let s = spin_unlock s;
                  s = (if enable_credit_mp (par s)
                       then write_reg 128 (e_sgdma_regs (eng s) + sr R_credits) s else s)
              in bindr (transfer_queue t s) (\<lambda>(_, s). Inr (0, s)))))"

definition char_sgdma_open ::
  "kernel_grants \<Rightarrow> xdma_result list \<Rightarrow> engine_state \<Rightarrow> (int \<times> engine_state) run" where
  "char_sgdma_open k results s =
     bindr (check_magic s) (\<lambda>_.
       if e_streaming (eng s) \<and> \<not> e_dir_to_dev (eng s) then cyclic_transfer_setup k results s
       else Inr (0, s))"

text \<open>Polling until the engine is idle; the argument bounds the rounds.\<close>

fun poll_idle :: "nat \<Rightarrow> engine_state \<Rightarrow> engine_state run" where
  "poll_idle 0 s = Inl NoReturn"
| "poll_idle (Suc k) s =
     (let s = snd (engine_status_read True s) in
      if e_status (eng s) AND XDMA_STAT_BUSY \<noteq> 0 then poll_idle k s else Inr s)"

definition cyclic_shutdown_polled :: "nat \<Rightarrow> engine_state \<Rightarrow> (int \<times> engine_state) run" where
  "cyclic_shutdown_polled rounds s =
     bindr (spin_lock s) (\<lambda>s.
     bindr (poll_idle rounds s) (\<lambda>s.
     bindr (stop_if_idle s) (\<lambda>s. Inr (0, spin_unlock s))))"

definition cyclic_shutdown_interrupt :: "waiting \<Rightarrow> engine_state \<Rightarrow> (int \<times> engine_state) run" where
  "cyclic_shutdown_interrupt wait s =
     bindr (wait s) (\<lambda>(rc, s).
       if rc \<noteq> 0 then Inr (rc, s) else if e_running (eng s) then Inr (- EINVAL, s) else Inr (rc, s))"

definition cyclic_transfer_teardown :: "nat \<Rightarrow> waiting \<Rightarrow> engine_state \<Rightarrow> (int \<times> engine_state) run" where
  "cyclic_transfer_teardown rounds wait s =
     bindr (engine_cyclic_stop s) (\<lambda>(_, s).
     bindr (spin_lock s) (\<lambda>s.
     let s = spin_unlock s in
     bindr (if poll_mode (par s) then cyclic_shutdown_polled rounds s else cyclic_shutdown_interrupt wait s)
       (\<lambda>(rc, s).
     bindr (spin_lock s) (\<lambda>s.
     bindr (case e_rx_transfer_cyclic (eng s) of
              None \<Rightarrow> Inr s
            | Some t \<Rightarrow> bindr (free_xfer t s) (\<lambda>s.
                Inr (upd_eng (e_rx_transfer_cyclic_update (\<lambda>_. None)) s))) (\<lambda>s.
     let s = (if e_rx_buffer (eng s) \<noteq> 0
              then upd_eng (e_rx_buffer_update (\<lambda>_. 0)) (upd_wld (kcall0 Vfree) s) else s);
         s = (if e_rx_result (eng s) \<noteq> None
              then upd_eng (e_rx_result_update (\<lambda>_. None))
                (upd_wld (kcall0 (Pci_free_consistent (e_rx_result_bus (eng s)) RX_RESULT_BUF_SIZE)) s) else s)
     in Inr (rc, spin_unlock s))))))"

definition char_sgdma_close :: "nat \<Rightarrow> waiting \<Rightarrow> engine_state \<Rightarrow> (int \<times> engine_state) run" where
  "char_sgdma_close rounds wait s =
     bindr (check_magic s) (\<lambda>_.
       if e_streaming (eng s) \<and> \<not> e_dir_to_dev (eng s) then cyclic_transfer_teardown rounds wait s
       else Inr (0, s))"

subsection \<open>The slots between two indices\<close>

text \<open>
  \<open>slots i j rs\<close> are the slots of the ring from index \<open>i\<close> up to index \<open>j\<close>, going round at
  the end; when the indices meet they are all the slots.
\<close>

definition slots :: "nat \<Rightarrow> nat \<Rightarrow> 'a list \<Rightarrow> 'a list" where
  "slots i j rs = (if i < j then drop i (take j rs) else drop i rs @ take j rs)"

lemma slots_step:
  assumes "i < length rs" "j < length rs"
  shows "slots i j rs = rs ! i #
    (if (i + 1) mod length rs = j then [] else slots ((i + 1) mod length rs) j rs)"
proof (cases "i < j")
  case True
  then have "drop i (take j rs) = rs ! i # drop (Suc i) (take j rs)"
    using assms by (subst Cons_nth_drop_Suc [symmetric]) simp_all
  moreover have "(i + 1) mod length rs = Suc i" using True assms by simp
  ultimately show ?thesis using True by (auto simp: slots_def)
next
  case False
  have d: "drop i rs = rs ! i # drop (Suc i) rs" using assms by (simp add: Cons_nth_drop_Suc)
  show ?thesis
  proof (cases "Suc i < length rs")
    case True
    then show ?thesis using False d by (simp add: slots_def)
  next
    case end': False
    then have "length rs = Suc i" using assms by simp
    then show ?thesis using False d by (auto simp: slots_def)
  qed
qed

lemma slots_length: "i < length rs \<Longrightarrow> j < length rs \<Longrightarrow> 0 < length (slots i j rs) \<and> length (slots i j rs) \<le> length rs"
  by (auto simp: slots_def)

lemma slots_update:
  assumes "i < length rs" "j < length rs" "(i + 1) mod length rs \<noteq> j"
  shows "slots ((i + 1) mod length rs) j (rs[i := x]) = slots ((i + 1) mod length rs) j rs"
proof (cases "Suc i < length rs")
  case True
  then show ?thesis using assms by (auto simp: slots_def take_update_swap list_update_beyond)
next
  case False
  then have "length rs = Suc i" using assms by simp
  then show ?thesis using assms by (auto simp: slots_def take_update_swap list_update_beyond)
qed

subsection \<open>The interrupt side\<close>

definition ring_of :: "xdma_result list \<Rightarrow> engine_state \<Rightarrow> bool" where
  "ring_of rs s \<longleftrightarrow> e_rx_result (eng s) = Some rs \<and> length rs = RX_BUF_PAGES
     \<and> e_rx_head (eng s) < RX_BUF_PAGES \<and> e_rx_tail (eng s) < RX_BUF_PAGES"

lemma pages_pos [simp]: "0 < RX_BUF_PAGES"
  by (simp add: RX_BUF_PAGES_def)

definition is_eop :: "xdma_result \<Rightarrow> bool" where
  "is_eop r \<longleftrightarrow> r_status r AND RX_STATUS_EOP \<noteq> 0"

lemma ring_loop_overrun: "ring_of rs s \<Longrightarrow> e_rx_overrun (eng s) \<Longrightarrow> ring_loop (Suc k) c s = Inr (c, s)"
  by (simp add: ring_of_def)

lemma ring_loop_fills:
  assumes "ring_of rs s" "\<not> e_rx_overrun (eng s)" "length (slots (e_rx_tail (eng s)) (e_rx_head (eng s)) rs) < k"
  defines "free \<equiv> \<lambda>s. slots (e_rx_tail (eng s)) (e_rx_head (eng s)) rs"
  defines "ready \<equiv> \<lambda>s. takeWhile (\<lambda>r. r_status r \<noteq> 0) (free s)"
  shows "ring_loop k c s = Inr (c + length (filter is_eop (ready s)),
    upd_eng (\<lambda>e. e\<lparr>e_rx_tail := (e_rx_tail e + length (ready s)) mod RX_BUF_PAGES,
                   e_rx_overrun := (ready s = free s)\<rparr>) s)"
  using assms(1-3)
proof (induction k arbitrary: c s)
  case (Suc k)
  let ?t = "e_rx_tail (eng s)" and ?h = "e_rx_head (eng s)" and ?N = RX_BUF_PAGES
  have r: "e_rx_result (eng s) = Some rs" "length rs = ?N" "?h < ?N" "?t < ?N"
    using Suc.prems(1) by (simp_all add: ring_of_def)
  have step: "free s = rs ! ?t # (if (?t + 1) mod ?N = ?h then [] else slots ((?t + 1) mod ?N) ?h rs)"
    using slots_step [of ?t rs ?h] r by (simp add: free_def)
  show ?case
  proof (cases "r_status (rs ! ?t) = 0")
    case True
    then have "ready s = []" by (simp add: ready_def step)
    moreover have "free s \<noteq> []" by (simp add: step)
    moreover have "s = upd_eng (\<lambda>e. e\<lparr>e_rx_tail := ?t, e_rx_overrun := False\<rparr>) s"
      using Suc.prems(2) by (intro engine_state_eqI) simp_all
    ultimately show ?thesis using True r by (simp add: upd_eng_def)
  next
    case False
    let ?c = "if is_eop (rs ! ?t) then c + 1 else c"
    let ?s = "ring_advance s"
    have l: "ring_loop (Suc k) c s = ring_loop k ?c ?s"
      using False Suc.prems(2) r by (simp add: is_eop_def)
    have s: "eng ?s = (eng s)\<lparr>e_rx_tail := (?t + 1) mod ?N, e_rx_overrun := ((?t + 1) mod ?N = ?h)\<rparr>"
      using Suc.prems(2) by (simp add: ring_advance_def Let_def)
    have o: "xfers ?s = xfers s" "wld ?s = wld s" "par ?s = par s" "next_xfer ?s = next_xfer s"
      by (simp_all add: ring_advance_def Let_def)
    have rof: "ring_of rs ?s" using r by (simp add: ring_of_def s)
    show ?thesis
    proof (cases "(?t + 1) mod ?N = ?h")
      case True
      then have one: "ready s = [rs ! ?t]" "free s = [rs ! ?t]" using False by (simp_all add: ready_def step)
      obtain k' where "k = Suc k'" using Suc.prems(3) step by (cases k) (auto simp: free_def)
      then have "ring_loop k ?c ?s = Inr (?c, ?s)"
        using ring_loop_overrun [OF rof] True by (simp add: s del: ring_loop.simps)
      moreover have "?s = upd_eng (\<lambda>e. e\<lparr>e_rx_tail := (e_rx_tail e + 1) mod ?N, e_rx_overrun := True\<rparr>) s"
        using True by (intro engine_state_eqI) (simp_all add: s o)
      ultimately show ?thesis using l by (simp add: one)
    next
      case more: False
      have f: "free s = rs ! ?t # free ?s" using more step by (simp add: free_def s)
      then have rd: "ready s = rs ! ?t # ready ?s" using False by (simp add: ready_def)
      have "length (slots (e_rx_tail (eng ?s)) (e_rx_head (eng ?s)) rs) < k"
        using Suc.prems(3) f by (simp add: free_def)
      from Suc.IH [OF rof _ this, of ?c] more have
        "ring_loop k ?c ?s = Inr (?c + length (filter is_eop (ready ?s)),
          upd_eng (\<lambda>e. e\<lparr>e_rx_tail := (e_rx_tail e + length (ready ?s)) mod ?N,
                   e_rx_overrun := (ready ?s = free ?s)\<rparr>) ?s)"
        by (simp add: s)
      moreover have "upd_eng (\<lambda>e. e\<lparr>e_rx_tail := (e_rx_tail e + length (ready ?s)) mod ?N,
                   e_rx_overrun := (ready ?s = free ?s)\<rparr>) ?s
        = upd_eng (\<lambda>e. e\<lparr>e_rx_tail := (e_rx_tail e + length (ready s)) mod ?N,
                   e_rx_overrun := (ready s = free s)\<rparr>) s"
        by (intro engine_state_eqI) (simp_all add: s o f rd mod_add_left_eq add.commute add.left_commute
          mod_Suc_eq mod_add_right_eq)
      ultimately show ?thesis using l by (simp add: rd del: ring_loop.simps)
    qed
  qed
qed simp

text \<open>
  C11: The interrupt side of the receive ring takes exactly the results the device has
  written in a row from the tail on, at most up to the reader's position: it counts the
  ends of packets among them, moves the tail behind the last of them, and flags an overrun
  just when the device has filled every slot up to the reader. It always returns.
\<close>

theorem ring_process_fills:
  assumes "ring_of rs s" "\<not> e_rx_overrun (eng s)"
  shows "let free = slots (e_rx_tail (eng s)) (e_rx_head (eng s)) rs;
             ready = takeWhile (\<lambda>r. r_status r \<noteq> 0) free
    in engine_ring_process s = Inr (length (filter is_eop ready),
         upd_eng (\<lambda>e. e\<lparr>e_rx_tail := (e_rx_tail e + length ready) mod RX_BUF_PAGES,
                        e_rx_overrun := (ready = free)\<rparr>) s)"
proof -
  have "length (slots (e_rx_tail (eng s)) (e_rx_head (eng s)) rs) < RX_BUF_PAGES + 1"
    using slots_length [of "e_rx_tail (eng s)" rs "e_rx_head (eng s)"] assms(1) by (simp add: ring_of_def)
  from ring_loop_fills [OF assms this, of 0] show ?thesis by (simp add: engine_ring_process_def Let_def)
qed

subsection \<open>The reader's side\<close>

text \<open>The ring with \<open>n\<close> slots from \<open>h\<close> on given back to the device.\<close>

definition cleared :: "xdma_result \<Rightarrow> xdma_result" where
  "cleared r = r\<lparr>r_status := 0, r_length := 0\<rparr>"

fun clear_slots :: "nat \<Rightarrow> nat \<Rightarrow> xdma_result list \<Rightarrow> xdma_result list" where
  "clear_slots h 0 rs = rs"
| "clear_slots h (Suc n) rs = clear_slots ((h + 1) mod length rs) n (rs[h := cleared (rs ! h)])"

lemma clear_slots_length [simp]: "length (clear_slots h n rs) = length rs"
  by (induction h n rs rule: clear_slots.induct) simp_all

text \<open>Taking one slot: it is cleared, and the head moves on.\<close>

definition take_slot :: "bool \<Rightarrow> engine_state \<Rightarrow> engine_state" where
  "take_slot eop s = upd_eng (\<lambda>e. e\<lparr>e_eop_found := e_eop_found e \<or> eop,
     e_rx_result := map_option (\<lambda>rs. rs[e_rx_head e := cleared (rs ! e_rx_head e)]) (e_rx_result e),
     e_rx_head := (e_rx_head e + 1) mod RX_BUF_PAGES\<rparr>) s"

lemma take_slot_sel [simp]:
  "xfers (take_slot b s) = xfers s" "par (take_slot b s) = par s" "wld (take_slot b s) = wld s"
  "next_xfer (take_slot b s) = next_xfer s" "e_rx_tail (eng (take_slot b s)) = e_rx_tail (eng s)"
  "e_rx_overrun (eng (take_slot b s)) = e_rx_overrun (eng s)"
  "e_rx_head (eng (take_slot b s)) = (e_rx_head (eng s) + 1) mod RX_BUF_PAGES"
  by (simp_all add: take_slot_def)

lemma take_slot_ring: "ring_of rs s \<Longrightarrow> ring_of (rs[e_rx_head (eng s) := cleared (rs ! e_rx_head (eng s))]) (take_slot b s)"
  by (simp add: ring_of_def take_slot_def)

lemma complete_loop_step:
  assumes "ring_of rs s" "e_rx_head (eng s) \<noteq> e_rx_tail (eng s) \<or> e_rx_overrun (eng s)"
    and "r = rs ! e_rx_head (eng s)"
  shows "complete_loop (Suc k) p c s =
    (if result_fault r then Inr (True, p, c, take_slot False s)
     else if is_eop r then Inr (False, p + unat (r_length r), c + 1, take_slot True s)
     else complete_loop k (p + unat (r_length r)) (c + 1) (take_slot False s))"
  using assms by (auto simp: ring_of_def is_eop_def take_slot_def cleared_def Let_def upd_eng_def)

lemma complete_loop_empty:
  "e_rx_head (eng s) = e_rx_tail (eng s) \<Longrightarrow> \<not> e_rx_overrun (eng s) \<Longrightarrow> complete_loop (Suc k) p c s = Inr (False, p, c, s)"
  by simp

declare complete_loop.simps [simp del]

definition ready_slots :: "engine_state \<Rightarrow> xdma_result list" where
  "ready_slots s = (case e_rx_result (eng s) of None \<Rightarrow> []
     | Some rs \<Rightarrow> if e_rx_head (eng s) = e_rx_tail (eng s) \<and> \<not> e_rx_overrun (eng s) then []
                  else slots (e_rx_head (eng s)) (e_rx_tail (eng s)) rs)"

definition plain_slot :: "xdma_result \<Rightarrow> bool" where
  "plain_slot r \<longleftrightarrow> \<not> result_fault r \<and> \<not> is_eop r"

definition slot_bytes :: "xdma_result list \<Rightarrow> nat" where
  "slot_bytes rs = sum_list (map (\<lambda>r. unat (r_length r)) rs)"

text \<open>The state after \<open>n\<close> slots were taken from \<open>s\<close>.\<close>

definition took :: "nat \<Rightarrow> bool \<Rightarrow> engine_state \<Rightarrow> engine_state" where
  "took n eop s = upd_eng (\<lambda>e. e\<lparr>e_eop_found := e_eop_found e \<or> eop,
     e_rx_result := map_option (clear_slots (e_rx_head e) n) (e_rx_result e),
     e_rx_head := (e_rx_head e + n) mod RX_BUF_PAGES\<rparr>) s"

lemma took_one: "ring_of rs s \<Longrightarrow> take_slot b s = took 1 b s"
  by (simp add: took_def take_slot_def ring_of_def)

lemma took_step:
  assumes "ring_of rs s"
  shows "took n b (take_slot False s) = took (Suc n) b s"
proof -
  have "(Suc (e_rx_head (eng s)) mod RX_BUF_PAGES + n) mod RX_BUF_PAGES = Suc (e_rx_head (eng s) + n) mod RX_BUF_PAGES"
    by (simp add: mod_add_left_eq)
  then show ?thesis using assms
    by (intro engine_state_eqI) (simp_all add: took_def take_slot_def ring_of_def)
qed

lemma ready_slots_step:
  assumes "ring_of rs s" "ready_slots s = r # rest"
  shows "r = rs ! e_rx_head (eng s)" "e_rx_head (eng s) \<noteq> e_rx_tail (eng s) \<or> e_rx_overrun (eng s)"
    "rest \<noteq> [] \<Longrightarrow> ready_slots (take_slot b s) = rest"
proof -
  let ?h = "e_rx_head (eng s)" and ?t = "e_rx_tail (eng s)" and ?N = RX_BUF_PAGES
  have r: "e_rx_result (eng s) = Some rs" "length rs = ?N" "?h < ?N" "?t < ?N"
    using assms(1) by (simp_all add: ring_of_def)
  show ne: "?h \<noteq> ?t \<or> e_rx_overrun (eng s)"
    using assms(2) by (auto simp: ready_slots_def split: option.splits if_splits)
  have "r # rest = slots ?h ?t rs" using assms(2) ne r by (auto simp: ready_slots_def)
  then have s: "r # rest = rs ! ?h # (if (?h + 1) mod ?N = ?t then [] else slots ((?h + 1) mod ?N) ?t rs)"
    using slots_step [of ?h rs ?t] r by simp
  then show "r = rs ! ?h" by simp
  assume "rest \<noteq> []"
  with s have n: "(?h + 1) mod ?N \<noteq> ?t" "rest = slots ((?h + 1) mod ?N) ?t rs" by (auto split: if_splits)
  then show "ready_slots (take_slot b s) = rest"
    using slots_update [of ?h rs ?t "cleared (rs ! ?h)"] r
    by (simp add: ready_slots_def take_slot_def)
qed

lemma complete_loop_stops:
  assumes "ring_of rs s" "ready_slots s = body @ r # rest" "\<forall>b\<in>set body. plain_slot b"
    "result_fault r \<or> is_eop r" "length body < k"
  shows "complete_loop k p c s = Inr (result_fault r,
    p + slot_bytes body + (if result_fault r then 0 else unat (r_length r)),
    c + length body + (if result_fault r then 0 else 1), took (length body + 1) (\<not> result_fault r) s)"
  using assms
proof (induction body arbitrary: k p c s rs)
  case Nil
  obtain k' where k: "k = Suc k'" using Nil.prems(5) by (cases k) auto
  have "ready_slots s = r # rest" using Nil.prems(2) by simp
  note st = ready_slots_step [OF Nil.prems(1) this]
  show ?case
    using complete_loop_step [OF Nil.prems(1) st(2) st(1)] Nil.prems(4) took_one [OF Nil.prems(1)]
    by (auto simp: k slot_bytes_def)
next
  case (Cons b body)
  obtain k' where k: "k = Suc k'" using Cons.prems(5) by (cases k) auto
  have "ready_slots s = b # (body @ r # rest)" using Cons.prems(2) by simp
  note st = ready_slots_step [OF Cons.prems(1) this]
  have "complete_loop k p c s = complete_loop k' (p + unat (r_length b)) (c + 1) (take_slot False s)"
    using complete_loop_step [OF Cons.prems(1) st(2) st(1)] Cons.prems(3) by (simp add: k plain_slot_def)
  also have "\<dots> = Inr (result_fault r,
    p + unat (r_length b) + slot_bytes body + (if result_fault r then 0 else unat (r_length r)),
    c + 1 + length body + (if result_fault r then 0 else 1), took (length body + 1) (\<not> result_fault r) (take_slot False s))"
    by (rule Cons.IH [OF take_slot_ring [OF Cons.prems(1)] st(3)]) (use Cons.prems k in auto)
  finally show ?case using took_step [OF Cons.prems(1)] by (simp add: slot_bytes_def add.assoc)
qed

lemma complete_loop_drains:
  assumes "ring_of rs s" "ready_slots s = body" "\<forall>b\<in>set body. plain_slot b" "\<not> e_rx_overrun (eng s)"
    "length body < k"
  shows "complete_loop k p c s = Inr (False, p + slot_bytes body, c + length body, took (length body) False s)"
  using assms
proof (induction body arbitrary: k p c s rs)
  case Nil
  obtain k' where k: "k = Suc k'" using Nil.prems(5) by (cases k) auto
  have h: "e_rx_head (eng s) = e_rx_tail (eng s)"
    using Nil.prems slots_length [of "e_rx_head (eng s)" rs "e_rx_tail (eng s)"]
    by (auto simp: ready_slots_def ring_of_def split: if_splits)
  have "took 0 False s = s" using Nil.prems(1)
    by (intro engine_state_eqI) (simp_all add: took_def ring_of_def option.map_ident)
  then show ?case using h Nil.prems(4) by (simp add: k complete_loop_empty slot_bytes_def)
next
  case (Cons b body)
  obtain k' where k: "k = Suc k'" using Cons.prems(5) by (cases k) auto
  note st = ready_slots_step [OF Cons.prems(1,2)]
  let ?s = "take_slot False s"
  have rest: "ready_slots ?s = body"
  proof (cases "body = []")
    case True
    from st(1) Cons.prems(1,2,4) True have "(e_rx_head (eng s) + 1) mod RX_BUF_PAGES = e_rx_tail (eng s)"
      using slots_step [of "e_rx_head (eng s)" rs "e_rx_tail (eng s)"] slots_length
        [of "(e_rx_head (eng s) + 1) mod RX_BUF_PAGES" rs "e_rx_tail (eng s)"] st(2)
      by (auto simp: ready_slots_def ring_of_def split: if_splits)
    then show ?thesis using True Cons.prems(4) by (simp add: ready_slots_def split: option.split)
  qed (use st(3) in simp)
  have "complete_loop k p c s = complete_loop k' (p + unat (r_length b)) (c + 1) ?s"
    using complete_loop_step [OF Cons.prems(1) st(2) st(1)] Cons.prems(3) by (simp add: k plain_slot_def)
  also have "\<dots> = Inr (False, p + unat (r_length b) + slot_bytes body, c + 1 + length body, took (length body) False ?s)"
    by (rule Cons.IH [OF take_slot_ring [OF Cons.prems(1)] rest]) (use Cons.prems k in auto)
  finally show ?case using took_step [OF Cons.prems(1)] by (simp add: slot_bytes_def add.assoc)
qed

text \<open>Each round that goes on clears a slot that was not at fault, so 257 rounds are enough.\<close>

lemma cleared_fault: "result_fault (cleared r)"
  by (simp add: result_fault_def cleared_def C2H_WB_def)

lemma filter_update_less:
  assumes "i < length rs" "P (rs ! i)" "\<not> P x"
  shows "length (filter P (rs[i := x])) < length (filter P rs)"
proof -
  have "filter P rs = filter P (take i rs @ rs ! i # drop (Suc i) rs)"
    using assms(1) by (simp only: id_take_nth_drop [symmetric])
  then have "length (filter P rs) = length (filter P (take i rs)) + 1 + length (filter P (drop (Suc i) rs))"
    using assms(2) by simp
  moreover have "rs[i := x] = take i rs @ x # drop (Suc i) rs" using assms(1) by (rule upd_conv_take_nth_drop)
  ultimately show ?thesis using assms(3) by simp
qed

lemma complete_loop_returns:
  assumes "ring_of rs s" "length (filter (\<lambda>r. \<not> result_fault r) rs) < k"
  shows "\<exists>fault p' c' s'. complete_loop k p c s = Inr (fault, p', c', s')
    \<and> wld s' = wld s \<and> xfers s' = xfers s \<and> par s' = par s \<and> e_lock (eng s') = e_lock (eng s)
    \<and> e_rx_overrun (eng s') = e_rx_overrun (eng s)"
  using assms
proof (induction k arbitrary: p c s rs)
  case (Suc k)
  let ?h = "e_rx_head (eng s)"
  let ?rs = "rs[?h := cleared (rs ! ?h)]"
  show ?case
  proof (cases "(?h \<noteq> e_rx_tail (eng s) \<or> e_rx_overrun (eng s)) \<and> plain_slot (rs ! ?h)")
    case True
    then have "length (filter (\<lambda>r. \<not> result_fault r) ?rs) < length (filter (\<lambda>r. \<not> result_fault r) rs)"
      using Suc.prems(1) cleared_fault by (intro filter_update_less) (auto simp: ring_of_def plain_slot_def)
    then have "length (filter (\<lambda>r. \<not> result_fault r) ?rs) < k" using Suc.prems(2) by linarith
    from Suc.IH [OF take_slot_ring [OF Suc.prems(1)] this, of "p + unat (r_length (rs ! ?h))" "c + 1" False] True
    show ?thesis using complete_loop_step [OF Suc.prems(1) _ refl, of k p c]
      by (auto simp: plain_slot_def take_slot_def)
  next
    case False
    show ?thesis
    proof (cases "?h \<noteq> e_rx_tail (eng s) \<or> e_rx_overrun (eng s)")
      case True
      with False have "\<not> plain_slot (rs ! ?h)" by blast
      then show ?thesis using complete_loop_step [OF Suc.prems(1) True refl, of k p c]
        by (auto simp: plain_slot_def take_slot_def)
    qed (auto simp: complete_loop_empty)
  qed
qed simp

subsection \<open>Copying to the user\<close>

text \<open>A kernel that completes every copy to the user.\<close>

definition user_ok :: "world \<Rightarrow> bool" where
  "user_ok w \<longleftrightarrow> (\<forall>es t f n. w_kern w es (Copy_to_user t f n) = 0)"

lemma user_ok_emit [simp]: "user_ok (emit e w) = user_ok w"
  by (simp add: user_ok_def)

text \<open>The copies of a packet of \<open>m\<close> full slots and one of \<open>l\<close> bytes, in order.\<close>

definition packet_copies :: "u64 \<Rightarrow> u32 \<Rightarrow> u64 \<Rightarrow> nat \<Rightarrow> nat \<Rightarrow> nat \<Rightarrow> event list" where
  "packet_copies buf idx rx head m l = map (\<lambda>j. Call (Copy_to_user (buf + ucast (idx + of_nat (j * RX_BUF_BLOCK)))
     (rx + of_nat ((head + j) mod RX_BUF_PAGES * RX_BUF_BLOCK)) (if j < m then RX_BUF_BLOCK else l))) [0..<Suc m]"

lemma packet_copies_step:
  "packet_copies buf idx rx head (Suc m) l =
    Call (Copy_to_user (buf + ucast idx) (rx + of_nat (head mod RX_BUF_PAGES * RX_BUF_BLOCK)) RX_BUF_BLOCK)
    # packet_copies buf (idx + of_nat RX_BUF_BLOCK) rx ((head + 1) mod RX_BUF_PAGES) m l"
proof -
  have u: "[0..<Suc (Suc m)] = 0 # map Suc [0..<Suc m]" 
    by (simp only: map_Suc_upt) (simp add: upt_rec)
  have "(Suc head mod RX_BUF_PAGES + j) mod RX_BUF_PAGES = (head + Suc j) mod RX_BUF_PAGES" for j
    by (simp add: mod_add_left_eq)
  then show ?thesis unfolding packet_copies_def u
    by (simp add: comp_def algebra_simps del: upt_Suc)
qed

lemma copy_loop_packet:
  assumes "user_ok (wld s)" "0 < l" "l \<le> RX_BUF_BLOCK" "head < RX_BUF_PAGES"
  shows "copy_cyclic_loop buf (m * RX_BUF_BLOCK + l) head s = (None,
    s\<lparr>eng := (eng s)\<lparr>e_user_buffer_index := e_user_buffer_index (eng s) + of_nat (m * RX_BUF_BLOCK + l)\<rparr>,
      wld := (wld s)\<lparr>w_log := w_log (wld s)
        @ packet_copies buf (e_user_buffer_index (eng s)) (e_rx_buffer (eng s)) head m l\<rparr>\<rparr>)"
  using assms
proof (induction m arbitrary: head s)
  case 0
  let ?e = "Call (Copy_to_user (buf + ucast (e_user_buffer_index (eng s))) (e_rx_buffer (eng s) + of_nat (head * RX_BUF_BLOCK)) l)"
  have "copy_cyclic_loop buf l head s = copy_cyclic_loop buf 0 ((head + 1) mod RX_BUF_PAGES)
      (upd_eng (\<lambda>e. e\<lparr>e_user_buffer_index := e_user_buffer_index e + of_nat l\<rparr>) (s\<lparr>wld := emit ?e (wld s)\<rparr>))"
    using 0 by (subst copy_cyclic_loop.simps) (simp add: Let_def kcall_def user_ok_def min_def)
  also have "\<dots> = (None, upd_eng (\<lambda>e. e\<lparr>e_user_buffer_index := e_user_buffer_index e + of_nat l\<rparr>) (s\<lparr>wld := emit ?e (wld s)\<rparr>))"
    by (subst copy_cyclic_loop.simps) simp
  finally show ?case using 0 by (simp add: packet_copies_def upd_eng_def emit_def)
next
  case (Suc m)
  let ?e = "Call (Copy_to_user (buf + ucast (e_user_buffer_index (eng s))) (e_rx_buffer (eng s) + of_nat (head * RX_BUF_BLOCK)) RX_BUF_BLOCK)"
  let ?s = "upd_eng (\<lambda>e. e\<lparr>e_user_buffer_index := e_user_buffer_index e + of_nat RX_BUF_BLOCK\<rparr>) (s\<lparr>wld := emit ?e (wld s)\<rparr>)"
  have "min (Suc m * RX_BUF_BLOCK + l) RX_BUF_BLOCK = RX_BUF_BLOCK"
      "Suc m * RX_BUF_BLOCK + l - RX_BUF_BLOCK = m * RX_BUF_BLOCK + l" by simp_all
  then have "copy_cyclic_loop buf (Suc m * RX_BUF_BLOCK + l) head s =
      copy_cyclic_loop buf (m * RX_BUF_BLOCK + l) ((head + 1) mod RX_BUF_PAGES) ?s"
    using Suc.prems by (subst copy_cyclic_loop.simps) (simp add: Let_def kcall_def user_ok_def)
  also have "\<dots> = (None,
    ?s\<lparr>eng := (eng ?s)\<lparr>e_user_buffer_index := e_user_buffer_index (eng ?s) + of_nat (m * RX_BUF_BLOCK + l)\<rparr>,
      wld := (wld ?s)\<lparr>w_log := w_log (wld ?s)
        @ packet_copies buf (e_user_buffer_index (eng ?s)) (e_rx_buffer (eng ?s)) ((head + 1) mod RX_BUF_PAGES) m l\<rparr>\<rparr>)"
    by (rule Suc.IH) (use Suc.prems in simp_all)
  finally show ?case using Suc.prems(4)
    by (simp add: packet_copies_step upd_eng_def emit_def algebra_simps)
qed

subsection \<open>Reading a packet\<close>

lemma spin_lock_free: "\<not> e_lock (eng s) \<Longrightarrow> spin_lock s = Inr (upd_eng (e_lock_update (\<lambda>_. True)) s)"
  by (simp add: spin_lock_def)

lemma unlock_took:
  "\<not> e_lock (eng s) \<Longrightarrow> spin_unlock (took n b (upd_eng (e_lock_update (\<lambda>_. True)) s)) = took n b s"
  by (intro engine_state_eqI) (simp_all add: took_def spin_unlock_def)

lemma locked_ring [simp]:
  "ring_of rs (upd_eng (e_lock_update (\<lambda>_. True)) s) = ring_of rs s"
  "ready_slots (upd_eng (e_lock_update (\<lambda>_. True)) s) = ready_slots s"
  by (auto simp: ring_of_def ready_slots_def split: option.split)

lemma complete_cyclic_stops:
  assumes "ring_of rs s" "ready_slots s = body @ r # rest" "\<forall>b\<in>set body. plain_slot b"
    "result_fault r \<or> is_eop r" "\<not> e_lock (eng s)"
  shows "complete_cyclic buf s =
    (if result_fault r then Inr (- EIO, took (length body + 1) False s)
     else bindr (copy_cyclic_to_user (slot_bytes (body @ [r])) (e_rx_head (eng s)) buf (took (length body + 1) True s))
        (\<lambda>(rc, s). let s = upd_eng (e_rx_overrun_update (\<lambda>_. False)) s
          in Inr (rc, if rc > 0 then write_reg (of_nat (length body + 1)) (e_sgdma_regs (eng s) + sr R_credits) s else s)))"
proof -
  let ?s = "upd_eng (e_lock_update (\<lambda>_. True)) s"
  have "length (ready_slots s) \<le> RX_BUF_PAGES"
    using assms(1) slots_length [of "e_rx_head (eng s)" rs "e_rx_tail (eng s)"]
    by (auto simp: ready_slots_def ring_of_def)
  then have "length body < RX_BUF_PAGES + 1" using assms(2) by simp
  with complete_loop_stops [of rs ?s body r rest] assms have
    l: "complete_loop (RX_BUF_PAGES + 1) 0 0 ?s = Inr (result_fault r,
    slot_bytes body + (if result_fault r then 0 else unat (r_length r)),
    length body + (if result_fault r then 0 else 1), took (length body + 1) (\<not> result_fault r) ?s)"
    by simp
  have "slot_bytes (body @ [r]) = slot_bytes body + unat (r_length r)" by (simp add: slot_bytes_def)
  moreover have "e_rx_head (eng ?s) = e_rx_head (eng s)" "e_rx_result (eng s) = Some rs"
    using assms(1) by (simp_all add: ring_of_def)
  ultimately show ?thesis
    unfolding complete_cyclic_def spin_lock_free [OF assms(5)] bindr_Inr Let_def l
    by (simp add: unlock_took [OF assms(5)] Let_def del: complete_loop.simps)
qed

lemma sum_list_same: "\<forall>x\<in>set xs. f x = c \<Longrightarrow> sum_list (map f xs) = length xs * c" for c :: nat
  by (induction xs) simp_all

text \<open>
  C10: A packet in the ring, full slots but for its last, is delivered whole: the reader
  gets its length; the user buffer gets its slots in order, one copy per slot and each
  from the slot's own block of the receive buffer; the slots are cleared and given back as
  one write of their number to the credit register; and the reader stands behind them.
\<close>

theorem complete_cyclic_packet:
  assumes "ring_of rs s" "ready_slots s = body @ r # rest" "\<not> e_lock (eng s)" "buf \<noteq> 0"
    and body: "\<forall>b\<in>set body. plain_slot b \<and> unat (r_length b) = RX_BUF_BLOCK"
    and last': "\<not> result_fault r" "is_eop r"
    and kern: "user_ok (wld s)"
  shows "\<exists>s'. complete_cyclic buf s = Inr (int (length body * RX_BUF_BLOCK + unat (r_length r)), s')
    \<and> eng s' = (eng s)\<lparr>e_eop_found := True, e_rx_overrun := False,
        e_rx_result := Some (clear_slots (e_rx_head (eng s)) (length body + 1) rs),
        e_rx_head := (e_rx_head (eng s) + length body + 1) mod RX_BUF_PAGES,
        e_user_buffer_index := e_user_buffer_index (eng s) + of_nat (length body * RX_BUF_BLOCK + unat (r_length r))\<rparr>
    \<and> w_log (wld s') = w_log (wld s)
        @ packet_copies buf (e_user_buffer_index (eng s)) (e_rx_buffer (eng s)) (e_rx_head (eng s))
            (length body) (unat (r_length r))
        @ [Wr (e_sgdma_regs (eng s) + sr R_credits) (of_nat (length body + 1))]"
proof -
  have bytes: "slot_bytes (body @ [r]) = length body * RX_BUF_BLOCK + unat (r_length r)"
    using body by (simp add: slot_bytes_def sum_list_same)
  have len: "0 < unat (r_length r)" "unat (r_length r) \<le> RX_BUF_BLOCK"
    using last'(1) by (auto simp: result_fault_def unat_gt_0)
  let ?t = "took (length body + 1) True s"
  have h: "e_rx_head (eng s) < RX_BUF_PAGES" and rs: "e_rx_result (eng s) = Some rs"
    using assms(1) by (simp_all add: ring_of_def)
  have t: "user_ok (wld ?t)" "e_user_buffer_index (eng ?t) = e_user_buffer_index (eng s)"
      "e_rx_buffer (eng ?t) = e_rx_buffer (eng s)" "wld ?t = wld s"
    using kern by (simp_all add: took_def)
  have "0 < int (length body * RX_BUF_BLOCK + unat (r_length r))" using len(1) by (simp only: of_nat_0_less_iff)
  then have pos: "0 < int (length body) * int RX_BUF_BLOCK + uint (r_length r)" by simp
  show ?thesis
    using complete_cyclic_stops [OF assms(1,2) _ _ assms(3), of buf] body last' assms(4)
      copy_loop_packet [OF t(1) len h, of buf "length body"] pos
    by (simp add: bytes copy_cyclic_to_user_def Let_def t) (simp add: took_def rs emit_def)
qed

lemma copy_loop_zero: "copy_cyclic_loop buf 0 h s = (None, s)"
  by (subst copy_cyclic_loop.simps) simp

lemma copy_loop_frame:
  "copy_cyclic_loop buf n h s = (r, s') \<Longrightarrow> xfers s' = xfers s \<and> par s' = par s \<and> e_lock (eng s') = e_lock (eng s)
     \<and> e_rx_overrun (eng s') = e_rx_overrun (eng s)"
proof (induction buf n h s arbitrary: r s' rule: copy_cyclic_loop.induct)
  case (1 buf n h s)
  show ?case
  proof (cases "n = 0")
    case False
    define c where "c = min n RX_BUF_BLOCK"
    define k where "k = kcall (Copy_to_user (buf + ucast (e_user_buffer_index (eng s)))
              (e_rx_buffer (eng s) + of_nat (h * RX_BUF_BLOCK)) c) (wld s)"
    have step: "copy_cyclic_loop buf n h s = (if fst k \<noteq> 0 then (Some (fst k), s\<lparr>wld := snd k\<rparr>)
        else copy_cyclic_loop buf (n - c) ((h + 1) mod RX_BUF_PAGES)
          (upd_eng (\<lambda>e. e\<lparr>e_user_buffer_index := e_user_buffer_index e + of_nat c\<rparr>) (s\<lparr>wld := snd k\<rparr>)))"
      using False by (subst copy_cyclic_loop.simps) (simp add: Let_def c_def k_def split_beta)
    show ?thesis
    proof (cases "fst k = 0")
      case True
      have "(fst k, snd k) = kcall (Copy_to_user (buf + ucast (e_user_buffer_index (eng s)))
              (e_rx_buffer (eng s) + of_nat (h * RX_BUF_BLOCK)) c) (wld s)" by (simp only: k_def prod.collapse)
      note IH = "1.IH" [OF False c_def this refl]
      from step True 1(2) have "copy_cyclic_loop buf (n - c) ((h + 1) mod RX_BUF_PAGES)
          (upd_eng (\<lambda>e. e\<lparr>e_user_buffer_index := e_user_buffer_index e + of_nat c\<rparr>) (s\<lparr>wld := snd k\<rparr>)) = (r, s')" by simp
      from IH [OF refl _ this] True show ?thesis by simp
    qed (use step 1(2) in auto)
  qed (use 1(2) copy_loop_zero in simp)
qed

text \<open>
  C12: The reader's side always returns, with the engine lock free: it reports a fault, in
  which case nothing was copied and a pending overrun flag stays set, or clears the flag.
\<close>

theorem complete_cyclic_returns:
  assumes "ring_of rs s" "\<not> e_lock (eng s)" "buf \<noteq> 0"
  shows "\<exists>rc s'. complete_cyclic buf s = Inr (rc, s') \<and> \<not> e_lock (eng s') \<and> xfers s' = xfers s
    \<and> (if e_rx_overrun (eng s') then rc = - EIO \<and> wld s' = wld s \<and> e_rx_overrun (eng s) else True)"
proof -
  let ?s = "upd_eng (e_lock_update (\<lambda>_. True)) s"
  have "length (filter (\<lambda>r. \<not> result_fault r) rs) < RX_BUF_PAGES + 1"
    using assms(1) length_filter_le [of "\<lambda>r. \<not> result_fault r" rs] by (simp add: ring_of_def)
  from complete_loop_returns [of rs ?s, OF _ this, of 0 0] assms(1) obtain fault p c s1 where
    l: "complete_loop (RX_BUF_PAGES + 1) 0 0 ?s = Inr (fault, p, c, s1)"
    and s1: "wld s1 = wld s" "xfers s1 = xfers s" "e_rx_overrun (eng s1) = e_rx_overrun (eng s)"
    by auto
  have rs: "e_rx_result (eng s) = Some rs" using assms(1) by (simp add: ring_of_def)
  obtain r s2 where c: "copy_cyclic_loop buf p (e_rx_head (eng s)) (spin_unlock s1) = (r, s2)" by fastforce
  note f = copy_loop_frame [OF c]
  show ?thesis
  proof (cases fault)
    case True
    then have "complete_cyclic buf s = Inr (- EIO, spin_unlock s1)"
      unfolding complete_cyclic_def spin_lock_free [OF assms(2)] bindr_Inr Let_def l by (simp add: rs)
    then show ?thesis using s1 by (auto simp: spin_unlock_def)
  next
    case False
    let ?rc = "case r of Some rc \<Rightarrow> rc | None \<Rightarrow> int p"
    let ?s3 = "upd_eng (e_rx_overrun_update (\<lambda>_. False)) s2"
    have "complete_cyclic buf s = Inr (?rc, if ?rc > 0
        then write_reg (of_nat c) (e_sgdma_regs (eng ?s3) + sr R_credits) ?s3 else ?s3)"
      unfolding complete_cyclic_def spin_lock_free [OF assms(2)] bindr_Inr Let_def l
      using False c assms(3)
      by (cases r) (simp_all add: rs copy_cyclic_to_user_def)
    then show ?thesis using f s1 by (auto simp: spin_unlock_def)
  qed
qed

text \<open>
  A faulty result (no magic, no length, or more than a block) ends the read with an
  I/O error: the slots up to it are taken and lost, nothing is copied, no credit is given
  back, and an overrun flag stays as it is.
\<close>

theorem complete_cyclic_fault:
  assumes "ring_of rs s" "ready_slots s = body @ r # rest" "\<forall>b\<in>set body. plain_slot b"
    "result_fault r" "\<not> e_lock (eng s)"
  shows "complete_cyclic buf s = Inr (- EIO, s\<lparr>eng := (eng s)\<lparr>
    e_rx_result := Some (clear_slots (e_rx_head (eng s)) (length body + 1) rs),
    e_rx_head := (e_rx_head (eng s) + length body + 1) mod RX_BUF_PAGES\<rparr>\<rparr>)"
proof -
  have "took (length body + 1) False s = s\<lparr>eng := (eng s)\<lparr>
    e_rx_result := Some (clear_slots (e_rx_head (eng s)) (length body + 1) rs),
    e_rx_head := (e_rx_head (eng s) + length body + 1) mod RX_BUF_PAGES\<rparr>\<rparr>"
    using assms(1) by (intro engine_state_eqI) (simp_all add: took_def ring_of_def)
  then show ?thesis using complete_cyclic_stops [OF assms(1-3) _ assms(5), of buf] assms(4) by simp
qed

text \<open>
  When the first copy to the user is left incomplete, the number of bytes that were
  not copied is reported as the number of bytes received, and the credits of the packet
  are given back all the same.
\<close>

theorem complete_cyclic_short_copy:
  assumes "ring_of rs s" "ready_slots s = body @ r # rest" "\<forall>b\<in>set body. plain_slot b"
    and last': "\<not> result_fault r" "is_eop r" and "\<not> e_lock (eng s)" "buf \<noteq> 0"
    and kern: "\<forall>es t f n. w_kern (wld s) es (Copy_to_user t f n) = left'" "0 < left'"
  shows "\<exists>s' c. complete_cyclic buf s = Inr (left', s')
    \<and> w_log (wld s') = w_log (wld s) @ [Call c, Wr (e_sgdma_regs (eng s) + sr R_credits) (of_nat (length body + 1))]"
proof -
  let ?t = "took (length body + 1) True s"
  have len: "0 < unat (r_length r)" using last'(1) by (auto simp: result_fault_def unat_gt_0)
  then have pos: "slot_bytes (body @ [r]) \<noteq> 0" by (simp add: slot_bytes_def)
  let ?c = "Copy_to_user (buf + ucast (e_user_buffer_index (eng ?t)))
    (e_rx_buffer (eng ?t) + of_nat (e_rx_head (eng s) * RX_BUF_BLOCK)) (min (slot_bytes (body @ [r])) RX_BUF_BLOCK)"
  have "copy_cyclic_loop buf (slot_bytes (body @ [r])) (e_rx_head (eng s)) ?t = (Some left', ?t\<lparr>wld := emit (Call ?c) (wld s)\<rparr>)"
    using pos kern by (subst copy_cyclic_loop.simps) (simp add: Let_def kcall_def took_def)
  then have "copy_cyclic_to_user (slot_bytes (body @ [r])) (e_rx_head (eng s)) buf ?t = Inr (left', ?t\<lparr>wld := emit (Call ?c) (wld s)\<rparr>)"
    using assms(7) by (simp add: copy_cyclic_to_user_def)
  then show ?thesis
    using complete_cyclic_stops [OF assms(1-3) _ assms(6), of buf] last' kern(2)
    by (simp add: Let_def) (simp add: took_def)
qed

subsection \<open>A read over a fault\<close>

lemma copy_loop_ok:
  "user_ok (wld s) \<Longrightarrow> \<exists>s'. copy_cyclic_loop buf n h s = (None, s') \<and> e_eop_found (eng s') = e_eop_found (eng s)"
proof (induction n arbitrary: h s rule: less_induct)
  case (less n)
  show ?case
  proof (cases "n = 0")
    case False
    let ?c = "min n RX_BUF_BLOCK"
    let ?s = "upd_eng (\<lambda>e. e\<lparr>e_user_buffer_index := e_user_buffer_index e + of_nat ?c\<rparr>)
      (s\<lparr>wld := emit (Call (Copy_to_user (buf + ucast (e_user_buffer_index (eng s)))
         (e_rx_buffer (eng s) + of_nat (h * RX_BUF_BLOCK)) ?c)) (wld s)\<rparr>)"
    have "n - ?c < n" using False by (simp add: RX_BUF_BLOCK_def)
    from less.IH [OF this, of ?s "(h + 1) mod RX_BUF_PAGES"] less.prems
    show ?thesis using False
      by (subst copy_cyclic_loop.simps) (simp add: Let_def kcall_def user_ok_def)
  qed (simp add: copy_loop_zero)
qed

text \<open>
  The wait of the reader in interrupt mode when nothing happens while it waits: it returns
  0 when its condition holds, which is another one in credit mode, and sleeps otherwise.
\<close>

definition reader_wait :: waiting where
  "reader_wait s =
     (if (if enable_credit_mp (par s) then e_rx_head (eng s) \<noteq> e_rx_tail (eng s) \<or> e_rx_overrun (eng s) else e_eop_found (eng s))
      then Inr (0, s) else Inl NoReturn)"

lemma monitor_ready:
  assumes "ring_of rs s" "ready_slots s = r # rest" "r_status r \<noteq> 0" "enable_credit_mp (par s)" "\<not> poll_mode (par s)"
  shows "transfer_monitor_cyclic [reader_wait] s = Inr (0, s)"
proof -
  have "r = rs ! e_rx_head (eng s)" by (rule ready_slots_step(1) [OF assms(1,2)])
  moreover have "e_rx_head (eng s) \<noteq> e_rx_tail (eng s) \<or> e_rx_overrun (eng s)"
    using assms(2) by (auto simp: ready_slots_def split: option.splits if_splits)
  ultimately show ?thesis using assms(1,3-5)
    by (auto simp: transfer_monitor_cyclic_def ring_of_def head_status_def monitor_round_def reader_wait_def)
qed

lemma valid_status: "\<not> result_fault r \<Longrightarrow> r_status r \<noteq> 0"
  by (auto simp: result_fault_def C2H_WB_def)

text \<open>
  C17: In credit mode, where a reader waits for any result and not for the end of a packet, a
  fault that is followed by a packet is not reported: the read goes on, and returns the
  length of the packet less the error number, as if that many bytes had been received. The
  end-of-packet flag is clear at first, as the read before has left it, and is cleared again.
\<close>

theorem read_cyclic_adds_fault:
  assumes "ring_of rs s" "ready_slots s = f # body @ l # rest" "result_fault f" "r_status f \<noteq> 0"
    and body: "\<forall>b\<in>set body. plain_slot b" "\<not> result_fault l" "is_eop l"
    and s: "\<not> e_lock (eng s)" "\<not> e_eop_found (eng s)" "\<not> poll_mode (par s)" "enable_credit_mp (par s)" "e_magic (eng s) = MAGIC_ENGINE"
      "e_rx_transfer_cyclic (eng s) \<noteq> None" "buf \<noteq> 0" "user_ok (wld s)"
  shows "\<exists>s'. char_sgdma_read_cyclic [[reader_wait], [reader_wait]] buf s = Inr (int (slot_bytes (body @ [l])) - EIO, s')
    \<and> \<not> e_eop_found (eng s')"
proof -
  define s0 where "s0 = upd_eng (e_user_buffer_index_update (\<lambda>_. 0)) s"
  let ?rs = "clear_slots (e_rx_head (eng s0)) 1 rs"
  let ?s1 = "took 1 False s0"
  have s0: "ring_of rs s0" "ready_slots s0 = f # body @ l # rest" "\<not> e_lock (eng s0)" "\<not> e_eop_found (eng s0)"
      "user_ok (wld s0)" "par s0 = par s"
  proof -
    have "ready_slots s0 = ready_slots s" by (auto simp: ready_slots_def s0_def split: option.split)
    then show "ready_slots s0 = f # body @ l # rest" by (simp add: assms(2))
  qed (use assms in \<open>simp_all add: s0_def ring_of_def\<close>)
  have one: "?s1 = take_slot False s0" by (rule took_one [OF s0(1), symmetric])
  have c1: "complete_cyclic buf s0 = Inr (- EIO, ?s1)"
    using complete_cyclic_stops [OF s0(1), of "[]" f "body @ l # rest" buf] s0 assms(3) by simp
  have r1: "ring_of (rs[e_rx_head (eng s0) := cleared (rs ! e_rx_head (eng s0))]) ?s1"
    unfolding one by (rule take_slot_ring [OF s0(1)])
  have d1: "ready_slots ?s1 = body @ l # rest" unfolding one by (rule ready_slots_step(3) [OF s0(1,2)]) simp
  have e1: "\<not> e_lock (eng ?s1)" "\<not> e_eop_found (eng ?s1)" "user_ok (wld ?s1)" "par ?s1 = par s"
    using s0 by (simp_all add: took_def)
  let ?s2 = "took (length body + 1) True ?s1"
  obtain s3 where s3: "copy_cyclic_loop buf (slot_bytes (body @ [l])) (e_rx_head (eng ?s1)) ?s2 = (None, s3)"
      "e_eop_found (eng s3)" "par s3 = par s"
    using copy_loop_ok [of ?s2 buf "slot_bytes (body @ [l])" "e_rx_head (eng ?s1)"] copy_loop_frame e1 by (fastforce simp: took_def)
  obtain s4 where c2: "complete_cyclic buf ?s1 = Inr (int (slot_bytes (body @ [l])), s4)" "e_eop_found (eng s4)" "par s4 = par s"
    using complete_cyclic_stops [OF r1 d1, of buf] body e1 s s3
    by (auto simp: copy_cyclic_to_user_def Let_def)
  have m1: "transfer_monitor_cyclic [reader_wait] s0 = Inr (0, s0)"
    by (rule monitor_ready [OF s0(1,2) assms(4)]) (use s s0(6) in simp_all)
  have "ready_slots ?s1 = hd (body @ [l]) # tl (body @ [l]) @ rest" using d1 by (cases body) auto
  moreover have "r_status (hd (body @ [l])) \<noteq> 0"
    using body by (cases body) (auto simp: plain_slot_def dest: valid_status)
  ultimately have m2: "transfer_monitor_cyclic [reader_wait] ?s1 = Inr (0, ?s1)" by (rule monitor_ready [OF r1]) (use s e1(4) in simp_all)
  show ?thesis
    using s m1 c1 e1 m2 c2 by (auto simp: char_sgdma_read_cyclic_def check_magic_def s0_def [symmetric] Let_def)
qed

text \<open>
  A reader that is interrupted while the ring is empty goes back to waiting, however
  often: the exit after a hundred rounds is never taken, because the result of the wait
  overwrites the count.
\<close>

theorem monitor_cyclic_never_returns:
  assumes "\<forall>w\<in>set ws. w s = Inr (- ERESTARTSYS, s)" "head_status s = Inr 0" "\<not> poll_mode (par s)"
  shows "transfer_monitor_cyclic ws s = Inl NoReturn"
proof -
  have "monitor_cyclic_loop ws rc s = Inl NoReturn" if "rc \<le> 0" for rc
    using assms(1) that
  proof (induction ws arbitrary: rc)
    case (Cons w ws)
    have "monitor_round w s = Inr (- ERESTARTSYS, s)" using Cons.prems(1) assms(3) by (simp add: monitor_round_def)
    then show ?case using Cons by (simp add: assms(2) Let_def ERESTARTSYS_def)
  qed simp
  moreover have "e_rx_result (eng s) \<noteq> None" using assms(2) by (auto simp: head_status_def split: option.splits)
  ultimately show ?thesis by (simp add: transfer_monitor_cyclic_def)
qed

subsection \<open>Opening twice\<close>

text \<open>
  C18: Opening a streaming receiver a second time is refused, but the indices of the ring
  in use have been reset and the engine lock is left taken: whatever takes the lock next,
  the interrupt service, the reader or a new transfer, hangs.
\<close>

theorem open_twice_hangs:
  assumes "e_magic (eng s) = MAGIC_ENGINE" "e_streaming (eng s)" "\<not> e_dir_to_dev (eng s)" "\<not> e_lock (eng s)"
    and "e_rx_buffer (eng s) \<noteq> 0" "e_rx_result (eng s) \<noteq> None"
    and t: "xfers s t = Some x" "0 < t_desc_num x"
  shows "\<exists>s'. char_sgdma_open k results s = Inr (- EBUSY, s') \<and> e_rx_head (eng s') = 0 \<and> e_rx_tail (eng s') = 0
    \<and> engine_service_work obs s' = Inl Deadlock \<and> complete_cyclic buf s' = Inl Deadlock
    \<and> transfer_queue t s' = Inl Deadlock"
  using assms
  by (auto simp: char_sgdma_open_def check_magic_def cyclic_transfer_setup_def spin_lock_free Let_def
      engine_service_work_def complete_cyclic_def transfer_queue_def spin_lock_def)

subsection \<open>Polled completion\<close>

text \<open>
  The write-back monitor of polled mode returns as soon as a round finds the time
  over; and what it returns carries an error flag or counts no more descriptors than were
  expected, so the service routine never runs past the queue in polled mode.
\<close>

theorem wb_monitor_bounded:
  assumes "e_writeback (eng s) \<noteq> None" "expected AND WB_COUNT_MASK = expected" "(d, True) \<in> set obs"
  shows "\<exists>v. engine_service_wb_monitor expected obs s = Inr v
    \<and> (v AND WB_ERR_MASK \<noteq> 0 \<or> v AND WB_COUNT_MASK \<le> expected)"
proof -
  have "\<exists>v. wb_loop expected obs = Inr v \<and> (v AND WB_ERR_MASK \<noteq> 0 \<or> v AND WB_COUNT_MASK \<le> expected)"
    using assms(2,3)
  proof (induction obs)
    case (Cons ob obs)
    have err: "(expected OR WB_ERR_MASK) AND WB_ERR_MASK \<noteq> 0"
      by (simp add: bit.conj_disj_distrib2 WB_ERR_MASK_def)
    show ?case using Cons err by (cases ob) (auto simp: not_less)
  qed simp
  then show ?thesis using assms(1) by (auto simp: engine_service_wb_monitor_def)
qed

subsection \<open>Closing\<close>

text \<open>The receiver while it is open: its cyclic transfer is the only one, queued and allocated.\<close>

definition receiving :: "engine_state \<Rightarrow> nat \<Rightarrow> xdma_result list \<Rightarrow> bool" where
  "receiving s t rs \<longleftrightarrow> e_magic (eng s) = MAGIC_ENGINE \<and> ring_of rs s \<and> e_transfer_list (eng s) = [t]
     \<and> e_rx_transfer_cyclic (eng s) = Some t \<and> e_running (eng s) \<and> \<not> e_lock (eng s) \<and> \<not> poll_mode (par s)
     \<and> (\<exists>x ds. xfers s t = Some x \<and> t_cyclic x \<and> t_desc_virt x = Some ds \<and> 0 < t_desc_num x \<and> t_desc_num x \<le> length ds)"

lemma cyclic_stop_ok:
  assumes "receiving s t rs"
  shows "\<exists>x s'. engine_cyclic_stop s = Inr (Some t, s') \<and> eng s' = eng s \<and> par s' = par s
    \<and> xfers s' = (xfers s)(t \<mapsto> x) \<and> t_desc_virt x \<noteq> None \<and> extends (wld s) (wld s')"
proof -
  from assms obtain x ds where x: "xfers s t = Some x" "t_cyclic x" "t_desc_virt x = Some ds" "0 < t_desc_num x"
      "t_desc_num x \<le> length ds" by (auto simp: receiving_def)
  then have "t_desc_num x - 1 < length ds" by linarith
  then show ?thesis using assms x
    by (auto simp: engine_cyclic_stop_def receiving_def Let_def with_descs_def xdma_desc_control_def LS_BYTE_MASK_def
        XDMA_DESC_COMPLETED_def XDMA_DESC_STOPPED_def)
qed

text \<open>What is left when the last reference is gone.\<close>

definition closed :: "engine_state \<Rightarrow> nat \<Rightarrow> bool" where
  "closed s t \<longleftrightarrow> xfers s t = None \<and> e_rx_transfer_cyclic (eng s) = None \<and> e_rx_buffer (eng s) = 0
     \<and> e_rx_result (eng s) = None \<and> \<not> e_lock (eng s)"

lemma teardown_rest:
  assumes "receiving s t rs"
    and wait: "\<And>s1 x. eng s1 = eng s \<Longrightarrow> par s1 = par s \<Longrightarrow> xfers s1 = (xfers s)(t \<mapsto> x) \<Longrightarrow> t_desc_virt x \<noteq> None
      \<Longrightarrow> extends (wld s) (wld s1) \<Longrightarrow> \<exists>s2. wait s1 = Inr (rc, s2) \<and> xfers s2 = xfers s1 \<and> \<not> e_lock (eng s2)
        \<and> e_rx_transfer_cyclic (eng s2) = Some t \<and> (rc = 0 \<longrightarrow> \<not> e_running (eng s2))
        \<and> e_transfer_list (eng s2) = q \<and> e_running (eng s2) = run \<and> par s2 = par s"
  shows "\<exists>s'. cyclic_transfer_teardown n wait s = Inr (rc, s') \<and> closed s' t \<and> e_transfer_list (eng s') = q
    \<and> e_running (eng s') = run \<and> par s' = par s"
proof -
  from cyclic_stop_ok [OF assms(1)] obtain x s0 where s0: "engine_cyclic_stop s = Inr (Some t, s0)" "eng s0 = eng s"
      "par s0 = par s" "xfers s0 = (xfers s)(t \<mapsto> x)" "t_desc_virt x \<noteq> None" "extends (wld s) (wld s0)" by blast
  define s1 where "s1 = spin_unlock (upd_eng (e_lock_update (\<lambda>_. True)) s0)"
  have s1: "s1 = s0" using assms(1) s0(2)
    by (intro engine_state_eqI) (simp_all add: s1_def spin_unlock_def receiving_def)
  from wait [OF s0(2-6)] obtain s2 where s2: "wait s1 = Inr (rc, s2)" "xfers s2 = xfers s0" "\<not> e_lock (eng s2)"
      "e_rx_transfer_cyclic (eng s2) = Some t" "rc = 0 \<longrightarrow> \<not> e_running (eng s2)"
      "e_transfer_list (eng s2) = q" "e_running (eng s2) = run" "par s2 = par s" unfolding s1 by blast
  have irq: "cyclic_shutdown_interrupt wait s1 = Inr (rc, s2)"
    using s2(1,5) by (auto simp: cyclic_shutdown_interrupt_def)
  let ?s3 = "upd_eng (e_lock_update (\<lambda>_. True)) s2"
  have "xfers ?s3 t = Some x" using s0(4) s2(2) by simp
  with transfer_destroy_ok [OF s0(5), of "wld ?s3"] obtain w where
    free: "free_xfer t ?s3 = Inr (?s3\<lparr>xfers := (xfers ?s3)(t := None), wld := w\<rparr>)"
    by (auto simp: free_xfer_def)
  have "\<not> e_lock (eng s0)" "\<not> poll_mode (par s1)" using assms(1) s0(2,3) by (simp_all add: receiving_def s1)
  then show ?thesis
    unfolding cyclic_transfer_teardown_def s0(1) bindr_Inr case_prod_conv spin_lock_free [OF \<open>\<not> e_lock (eng s0)\<close>] Let_def
      s1_def [symmetric]
    using irq free s2(3,4,6,7,8) spin_lock_free [OF s2(3)]
    by (simp add: closed_def spin_unlock_def)
qed

text \<open>
  C19: When the wait for the engine is interrupted, closing frees the cyclic transfer all
  the same while the engine still runs and still has it queued: the next interrupt that is
  serviced uses the freed transfer.
\<close>

theorem close_interrupted_dangles:
  assumes "receiving s t rs" "e_streaming (eng s)" "\<not> e_dir_to_dev (eng s)"
  shows "\<exists>s'. char_sgdma_close n (\<lambda>s. Inr (- ERESTARTSYS, s)) s = Inr (- ERESTARTSYS, s') \<and> closed s' t
    \<and> e_transfer_list (eng s') = [t] \<and> e_running (eng s') \<and> engine_service 0 s' = Inl UseAfterFree"
proof -
  have "\<exists>s'. cyclic_transfer_teardown n (\<lambda>s. Inr (- ERESTARTSYS, s)) s = Inr (- ERESTARTSYS, s') \<and> closed s' t
      \<and> e_transfer_list (eng s') = [t] \<and> e_running (eng s') = True \<and> par s' = par s"
    by (rule teardown_rest [OF assms(1)]) (use assms(1) in \<open>auto simp: receiving_def ERESTARTSYS_def\<close>)
  then obtain s' where s': "cyclic_transfer_teardown n (\<lambda>s. Inr (- ERESTARTSYS, s)) s = Inr (- ERESTARTSYS, s')"
      "closed s' t" "e_transfer_list (eng s') = [t]" "e_running (eng s')" by blast
  obtain c s2 where p: "service_prepare 0 s' = (c, s2)" by fastforce
  have "xfers s2 = xfers s'" "e_transfer_list (eng s2) = [t]"
    using prepare_frame [of 0 s'] s'(3) p by simp_all
  then have "service_queue c s2 = Inl UseAfterFree"
    using s'(2) by (simp add: service_queue_def engine_service_transfer_list_def xfer_def closed_def)
  then have "engine_service 0 s' = Inl UseAfterFree" using s'(4) p by (simp add: engine_service_def)
  then show ?thesis using s' assms by (auto simp: char_sgdma_close_def check_magic_def receiving_def)
qed

text \<open>The wait that ends when an interrupt has been serviced.\<close>

definition serviced_wait :: waiting where
  "serviced_wait s = bindr (engine_service_work [] s) (\<lambda>s. Inr (0, s))"

lemma ring_process_ok:
  assumes "ring_of rs s"
  shows "\<exists>c s'. engine_ring_process s = Inr (c, s') \<and> (\<exists>i b. s' = upd_eng (\<lambda>e. e\<lparr>e_rx_tail := i, e_rx_overrun := b\<rparr>) s)"
proof (cases "e_rx_overrun (eng s)")
  case True
  have "s = upd_eng (\<lambda>e. e\<lparr>e_rx_tail := e_rx_tail e, e_rx_overrun := e_rx_overrun e\<rparr>) s"
    by (intro engine_state_eqI) simp_all
  then have "\<exists>i b. s = upd_eng (\<lambda>e. e\<lparr>e_rx_tail := i, e_rx_overrun := b\<rparr>) s"
    by (intro exI [of _ "e_rx_tail (eng s)"] exI [of _ "e_rx_overrun (eng s)"] engine_state_eqI) simp_all
  then show ?thesis using ring_loop_overrun [OF assms True, of RX_BUF_PAGES 0] by (auto simp: engine_ring_process_def)
next
  case False
  have "length (slots (e_rx_tail (eng s)) (e_rx_head (eng s)) rs) < RX_BUF_PAGES + 1"
    using slots_length [of "e_rx_tail (eng s)" rs "e_rx_head (eng s)"] assms by (simp add: ring_of_def)
  from ring_loop_fills [OF assms False this, of 0] show ?thesis
    by (force simp: engine_ring_process_def upd_eng_def)
qed

text \<open>
  C14: Closing a receiver whose engine stops when told to: the interrupt that comes after
  the stop takes the cyclic transfer off the queue, and closing then frees it, the receive
  buffer and the result ring; the engine is idle with an empty queue and a free lock.
\<close>

theorem close_releases:
  assumes "receiving s t rs" "e_streaming (eng s)" "\<not> e_dir_to_dev (eng s)"
    and idle: "\<forall>es. w_dev (wld s) es (e_regs (eng s) + er R_status_rc) AND XDMA_STAT_BUSY = 0"
  shows "\<exists>s'. char_sgdma_close n serviced_wait s = Inr (0, s') \<and> closed s' t
    \<and> e_transfer_list (eng s') = [] \<and> \<not> e_running (eng s')"
proof -
  have "\<exists>s'. cyclic_transfer_teardown n serviced_wait s = Inr (0, s') \<and> closed s' t
      \<and> e_transfer_list (eng s') = [] \<and> e_running (eng s') = False \<and> par s' = par s"
  proof (rule teardown_rest [OF assms(1)])
    fix s1 :: engine_state and x :: xdma_transfer
    assume s1: "eng s1 = eng s" "par s1 = par s" "xfers s1 = (xfers s)(t \<mapsto> x)" "t_desc_virt x \<noteq> None"
      "extends (wld s) (wld s1)"
    define l where "l = upd_eng (e_lock_update (\<lambda>_. True)) s1"
    define a where "a = snd (engine_status_read True l)"
    have dev: "w_dev (wld s1) = w_dev (wld s)" using s1(5) by (auto simp: extends_def)
    have a: "xfers a = xfers s1" "par a = par s" "e_transfer_list (eng a) = [t]" "e_rx_transfer_cyclic (eng a) = Some t"
        "e_running (eng a)" "e_status (eng a) AND XDMA_STAT_BUSY = 0" "ring_of rs a" "e_magic (eng l) = MAGIC_ENGINE"
        "\<not> poll_mode (par l)" "e_lock (eng a)" "e_rx_transfer_cyclic (eng l) = Some t"
      using assms(1) s1 idle dev by (simp_all add: a_def l_def receiving_def ring_of_def)
    from ring_process_ok [OF a(7)] obtain c b i o' where
      b: "engine_ring_process a = Inr (c, b)" "b = upd_eng (\<lambda>e. e\<lparr>e_rx_tail := i, e_rx_overrun := o'\<rparr>) a" by blast
    have tx: "xfers s1 t = Some x" using s1(3) by simp
    define d where "d = (if enable_credit_mp (par b) then wake_up (Wq_transfer t) b
        else if c > 0 then wake_up (Wq_transfer t) (upd_eng (e_eop_found_update (\<lambda>_. True)) b) else b)"
    have d: "(if enable_credit_mp (par b) then wake_cyclic b
            else if c > 0 then wake_cyclic (upd_eng (e_eop_found_update (\<lambda>_. True)) b) else Inr b) = Inr d"
        "xfers d = xfers s1" "par d = par s" "e_transfer_list (eng d) = [t]" "e_rx_transfer_cyclic (eng d) = Some t"
        "e_running (eng d)" "e_status (eng d) AND XDMA_STAT_BUSY = 0"
      using a tx by (simp_all add: wake_cyclic_def b(2) d_def xfer_def)
    let ?e = "engine_service_shutdown (upd_eng (e_transfer_list_update (\<lambda>_. [])) d)"
    have "stop_if_idle d = Inr ?e" using d by (simp add: stop_if_idle_def engine_transfer_dequeue_def)
    then have "engine_service_cyclic [] l = Inr (0, ?e)"
      using a(8,9) b(1) d(1)
      by (simp add: engine_service_cyclic_def engine_service_cyclic_interrupt_def check_magic_def a_def [symmetric])
    moreover have "\<not> e_lock (eng s1)" "e_magic (eng s1) = MAGIC_ENGINE" using assms(1) s1(1) by (simp_all add: receiving_def)
    ultimately show "\<exists>s2. serviced_wait s1 = Inr (0, s2) \<and> xfers s2 = xfers s1 \<and> \<not> e_lock (eng s2)
        \<and> e_rx_transfer_cyclic (eng s2) = Some t \<and> (0 = (0::int) \<longrightarrow> \<not> e_running (eng s2))
        \<and> e_transfer_list (eng s2) = [] \<and> e_running (eng s2) = False \<and> par s2 = par s"
      using a(11) d
      by (simp add: serviced_wait_def engine_service_work_def check_magic_def spin_lock_free l_def [symmetric] Let_def
          spin_unlock_def engine_service_shutdown_def)
  qed
  then show ?thesis using assms by (auto simp: char_sgdma_close_def check_magic_def receiving_def)
qed

subsection \<open>Concrete runs\<close>

definition full_slot :: xdma_result where
  "full_slot = \<lparr>r_status = 0x52B40000, r_length = 4096\<rparr>"

definition last_slot :: xdma_result where
  "last_slot = \<lparr>r_status = 0x52B40001, r_length = 100\<rparr>"

definition bad_slot :: xdma_result where
  "bad_slot = \<lparr>r_status = 0x52B40000, r_length = 0\<rparr>"

definition free_slot :: xdma_result where
  "free_slot = \<lparr>r_status = 0, r_length = 0\<rparr>"

definition sample_ring :: "xdma_result list \<Rightarrow> xdma_result list" where
  "sample_ring rs = rs @ replicate (256 - length rs) free_slot"

text \<open>A receiver whose ring starts with \<open>rs\<close>; transfer 7 is its cyclic transfer.\<close>

definition sample_receiver :: "xdma_result list \<Rightarrow> nat \<Rightarrow> engine_state" where
  "sample_receiver rs tail = sample_state\<lparr>
     eng := sample_engine\<lparr>e_streaming := True, e_dir_to_dev := False, e_running := True, e_transfer_list := [7],
       e_rx_transfer_cyclic := Some 7, e_rx_buffer := 0x20000, e_rx_result := Some (sample_ring rs), e_rx_tail := tail\<rparr>,
     xfers := [7 \<mapsto> (sample_transfer 2)\<lparr>t_cyclic := True\<rparr>],
     wld := idle_world\<lparr>w_kern := (\<lambda>_ _. 0)\<rparr>\<rparr>"

lemma sample_receiver_ring:
  "length rs \<le> 256 \<Longrightarrow> tail < 256 \<Longrightarrow> ring_of (sample_ring rs) (sample_receiver rs tail)"
  by (simp add: ring_of_def sample_receiver_def sample_ring_def sample_engine_def RX_BUF_PAGES_def)

lemma sample_receiver_facts [simp]:
  "e_rx_head (eng (sample_receiver rs tail)) = 0" "e_rx_tail (eng (sample_receiver rs tail)) = tail"
  "\<not> e_rx_overrun (eng (sample_receiver rs tail))" "\<not> e_lock (eng (sample_receiver rs tail))"
  "\<not> e_eop_found (eng (sample_receiver rs tail))" "\<not> poll_mode (par (sample_receiver rs tail))"
  "e_magic (eng (sample_receiver rs tail)) = MAGIC_ENGINE"
  "e_rx_transfer_cyclic (eng (sample_receiver rs tail)) = Some 7" "e_rx_buffer (eng (sample_receiver rs tail)) = 0x20000"
  "e_rx_result (eng (sample_receiver rs tail)) = Some (sample_ring rs)" "user_ok (wld (sample_receiver rs tail))"
  "e_streaming (eng (sample_receiver rs tail))" "\<not> e_dir_to_dev (eng (sample_receiver rs tail))"
  "xfers (sample_receiver rs tail) 7 = Some ((sample_transfer 2)\<lparr>t_cyclic := True\<rparr>)"
  by (simp_all add: sample_receiver_def sample_state_def sample_engine_def sample_params_def user_ok_def)

lemma sample_ready:
  "0 < length rs \<Longrightarrow> length rs < 256 \<Longrightarrow> ready_slots (sample_receiver rs (length rs)) = rs"
  by (simp add: ready_slots_def slots_def sample_ring_def)

lemma sample_slots:
  "plain_slot full_slot" "\<not> result_fault last_slot" "is_eop last_slot" "result_fault bad_slot" "is_eop full_slot = False"
  "unat (r_length full_slot) = RX_BUF_BLOCK" "r_status bad_slot \<noteq> 0" "r_status full_slot \<noteq> 0" "r_status last_slot \<noteq> 0"
  by (simp_all add: plain_slot_def result_fault_def is_eop_def full_slot_def last_slot_def bad_slot_def C2H_WB_def
      RX_BUF_BLOCK_def RX_STATUS_EOP_def)

lemma sample_receiving:
  "receiving (sample_receiver [] 0) 7 (sample_ring [])"
  using sample_receiver_ring [of "[]" 0]
  by (auto simp: receiving_def sample_transfer_def sample_receiver_def sample_state_def sample_engine_def sample_params_def)

theorem ring_process_fills_witness:
  "\<exists>s'. engine_ring_process (sample_receiver [full_slot, last_slot] 0) = Inr (1, s') \<and> e_rx_tail (eng s') = 2
     \<and> \<not> e_rx_overrun (eng s')"
proof -
  let ?s = "sample_receiver [full_slot, last_slot] 0"
  let ?rs = "sample_ring [full_slot, last_slot]"
  have "?rs = full_slot # last_slot # free_slot # replicate 253 free_slot"
    by (simp add: sample_ring_def numeral_eq_Suc)
  then have "takeWhile (\<lambda>r. r_status r \<noteq> 0) (slots 0 0 ?rs) = [full_slot, last_slot]" "\<exists>x\<in>set (slots 0 0 ?rs). r_status x = 0"
    using sample_slots by (simp_all add: slots_def free_slot_def)
  then show ?thesis
    using ring_process_fills [OF sample_receiver_ring [of "[full_slot, last_slot]" 0]] sample_slots
    by (simp add: Let_def RX_BUF_PAGES_def)
qed

theorem complete_cyclic_packet_witness:
  "\<exists>s'. complete_cyclic 0x5000 (sample_receiver [full_slot, last_slot] 2) = Inr (4196, s') \<and> e_rx_head (eng s') = 2"
proof -
  have "ready_slots (sample_receiver [full_slot, last_slot] 2) = [full_slot] @ last_slot # []"
    using sample_ready [of "[full_slot, last_slot]"] by (simp add: numeral_2_eq_2)
  from complete_cyclic_packet [OF sample_receiver_ring this, of "0x5000"] sample_slots
  show ?thesis by (auto simp: RX_BUF_PAGES_def RX_BUF_BLOCK_def last_slot_def)
qed

theorem complete_cyclic_returns_witness:
  "\<exists>rc s'. complete_cyclic 0x5000 (sample_receiver [bad_slot] 1) = Inr (rc, s') \<and> \<not> e_lock (eng s')"
  using complete_cyclic_returns [OF sample_receiver_ring [of "[bad_slot]" 1], of "0x5000"] by auto

theorem complete_cyclic_fault_witness:
  "\<exists>s'. complete_cyclic 0x5000 (sample_receiver [full_slot, bad_slot] 2) = Inr (- EIO, s') \<and> e_rx_head (eng s') = 2"
proof -
  have "ready_slots (sample_receiver [full_slot, bad_slot] 2) = [full_slot] @ bad_slot # []"
    using sample_ready [of "[full_slot, bad_slot]"] by (simp add: numeral_2_eq_2)
  from complete_cyclic_fault [OF sample_receiver_ring this, of "0x5000"] sample_slots
  show ?thesis by (simp add: RX_BUF_PAGES_def)
qed

theorem complete_cyclic_short_copy_witness:
  "\<exists>s'. complete_cyclic 0x5000 (sample_receiver [full_slot, last_slot] 2\<lparr>wld := idle_world\<rparr>) = Inr (1, s')"
proof -
  let ?s = "sample_receiver [full_slot, last_slot] 2\<lparr>wld := idle_world\<rparr>"
  have "ready_slots ?s = ready_slots (sample_receiver [full_slot, last_slot] 2)" by (simp add: ready_slots_def)
  then have 1: "ready_slots ?s = [full_slot] @ last_slot # []"
    using sample_ready [of "[full_slot, last_slot]"] by (simp add: numeral_2_eq_2)
  have 2: "ring_of (sample_ring [full_slot, last_slot]) ?s"
    using sample_receiver_ring [of "[full_slot, last_slot]" 2] by (simp add: ring_of_def)
  from complete_cyclic_short_copy [OF 2 1, of "0x5000" 1] sample_slots show ?thesis
    by (auto simp: idle_world_def)
qed

theorem read_cyclic_adds_fault_witness:
  "\<exists>s'. char_sgdma_read_cyclic [[reader_wait], [reader_wait]] 0x5000
      ((sample_receiver [bad_slot, last_slot] 2)\<lparr>par := sample_params\<lparr>enable_credit_mp := True\<rparr>\<rparr>) = Inr (95, s')"
proof -
  let ?s = "(sample_receiver [bad_slot, last_slot] 2)\<lparr>par := sample_params\<lparr>enable_credit_mp := True\<rparr>\<rparr>"
  have "ready_slots ?s = ready_slots (sample_receiver [bad_slot, last_slot] 2)" by (simp add: ready_slots_def)
  then have 1: "ready_slots ?s = bad_slot # [] @ last_slot # []"
    using sample_ready [of "[bad_slot, last_slot]"] by (simp add: numeral_2_eq_2)
  have 2: "ring_of (sample_ring [bad_slot, last_slot]) ?s"
    using sample_receiver_ring [of "[bad_slot, last_slot]" 2] by (simp add: ring_of_def)
  have "\<not> poll_mode (par ?s)" "enable_credit_mp (par ?s)" by (simp_all add: sample_params_def)
  with read_cyclic_adds_fault [OF 2 1, of "0x5000"] sample_slots
  show ?thesis by (auto simp: slot_bytes_def last_slot_def EIO_def)
qed

theorem monitor_cyclic_never_returns_witness:
  "transfer_monitor_cyclic (replicate 1000 (\<lambda>s. Inr (- ERESTARTSYS, s))) (sample_receiver [] 0) = Inl NoReturn"
proof -
  have "head_status (sample_receiver [] 0) = Inr 0" by (simp add: head_status_def sample_ring_def free_slot_def)
  then show ?thesis by (intro monitor_cyclic_never_returns) simp_all
qed

theorem open_twice_hangs_witness:
  "\<exists>s'. char_sgdma_open sample_grants [] (sample_receiver [] 0) = Inr (- EBUSY, s') \<and> transfer_queue 7 s' = Inl Deadlock"
  using open_twice_hangs [of "sample_receiver [] 0" 7 "(sample_transfer 2)\<lparr>t_cyclic := True\<rparr>" sample_grants "[]" "[]" 0]
  by (auto simp: sample_transfer_def)

theorem wb_monitor_bounded_witness:
  "\<exists>v. engine_service_wb_monitor 3 [(2, False), (5, True)] (sample_state\<lparr>eng := sample_engine\<lparr>e_writeback := Some 0\<rparr>\<rparr>) = Inr v
     \<and> (v AND WB_ERR_MASK \<noteq> 0 \<or> v AND WB_COUNT_MASK \<le> 3)"
  using wb_monitor_bounded [of "sample_state\<lparr>eng := sample_engine\<lparr>e_writeback := Some 0\<rparr>\<rparr>" 3 5 "[(2, False), (5, True)]"]
  by (simp add: WB_COUNT_MASK_def)

theorem close_interrupted_dangles_witness:
  "\<exists>s'. char_sgdma_close 0 (\<lambda>s. Inr (- ERESTARTSYS, s)) (sample_receiver [] 0) = Inr (- ERESTARTSYS, s')
     \<and> engine_service 0 s' = Inl UseAfterFree"
  using close_interrupted_dangles [OF sample_receiving, of 0] by auto

theorem close_releases_witness:
  "\<exists>s'. char_sgdma_close 0 serviced_wait (sample_receiver [] 0) = Inr (0, s') \<and> closed s' 7"
  using close_releases [OF sample_receiving, of 0]
  by (auto simp: sample_receiver_def sample_state_def idle_world_def)

end
