(* ===== verification/Xdma_Machine.thy ===== *)
theory Xdma_Machine
  imports Xdma_Ring
begin

unbundle bit_operations_syntax

text \<open>
  An engine as a machine, in interrupt mode and without a receive ring: the steps that the
  functions of driver/xdma-core.c take on its queue under its lock, in any order, with a
  device that may answer anything. The machine interprets \<open>state_machine\<close> with the invariant of
  the queue, and \<open>fifo\<close> with the order in which transfers are completed. Both hold as long as
  no interrupt finds an error; what an error does to the queue is shown too.
\<close>

subsection \<open>The steps\<close>

text \<open>A transfer as \<open>transfer_create\<close> leaves it.\<close>

definition fresh_transfer :: "xdma_transfer \<Rightarrow> bool" where
  "fresh_transfer x \<longleftrightarrow> t_state x = TRANSFER_STATE_NEW \<and> \<not> t_cyclic x \<and> t_desc_virt x \<noteq> None \<and> t_desc_num x < 2 ^ 32"

lemma created_fresh:
  assumes "transfer_create k start cnt ep dir non_incr force_new userspace w = Inr (Some x, w')" "t_desc_num x < 2 ^ 32"
  shows "fresh_transfer x"
  using assms unfolding transfer_create_def Let_def fresh_transfer_def
  by (auto simp: bindr_eq_Inr split_beta new_transfer_def simp del: int_nat_eq split: if_splits option.splits)

text \<open>
  What a step was: a queueing with its result, an interrupt with the status it read, the
  destruction of a transfer by the caller that waited for it, a wait that was interrupted,
  and a change of the device.
\<close>

datatype engine_op =
    Submitted nat xdma_transfer | Refused | Serviced u32 | Destroyed nat | Interrupted | Device_changed

text \<open>The status that the next read of the register gives.\<close>

definition status_now :: "engine_state \<Rightarrow> u32" where
  "status_now s = w_dev (wld s) (w_log (wld s)) (e_regs (eng s) + er R_status_rc)"

inductive engine_step :: "engine_op \<Rightarrow> engine_state \<Rightarrow> engine_state \<Rightarrow> bool" where
  submit: "xfers s t = None \<Longrightarrow> fresh_transfer x
    \<Longrightarrow> transfer_queue t (s\<lparr>xfers := (xfers s)(t \<mapsto> x)\<rparr>) = Inr (rc, s')
    \<Longrightarrow> engine_step (if rc = 0 then Submitted t x else Refused) s s'"
| interrupt: "\<not> poll_mode (par s) \<Longrightarrow> e_rx_transfer_cyclic (eng s) = None \<Longrightarrow> engine_service_work obs s = Inr s'
    \<Longrightarrow> engine_step (Serviced (status_now s)) s s'"
| destroy: "xfers s t = Some x \<Longrightarrow> t_iocb x = None \<Longrightarrow> t_state x \<noteq> TRANSFER_STATE_SUBMITTED \<Longrightarrow> free_xfer t s = Inr s'
    \<Longrightarrow> engine_step (Destroyed t) s s'"
| give_up: "s' = upd_wld (\<lambda>w. snd (read_interrupts (config_bar (par s)) w)) (snd (engine_status_read False s))
    \<Longrightarrow> engine_step Interrupted s s'"
| device: "engine_step Device_changed s (s\<lparr>wld := (wld s)\<lparr>w_dev := f\<rparr>\<rparr>)"

inductive_cases submittedE: "engine_step (Submitted t x) s s'"
inductive_cases servicedE: "engine_step (Serviced v) s s'"
inductive_cases destroyedE: "engine_step (Destroyed t) s s'"

fun no_error :: "engine_op \<Rightarrow> bool" where
  "no_error (Serviced v) \<longleftrightarrow> v AND err_flags = 0"
| "no_error _ \<longleftrightarrow> True"

definition clean_step :: "engine_state \<Rightarrow> engine_state \<Rightarrow> bool" where
  "clean_step s s' \<longleftrightarrow> (\<exists>op. no_error op \<and> engine_step op s s')"

subsection \<open>The invariant\<close>

definition engine_idle :: "engine_state \<Rightarrow> bool" where
  "engine_idle s \<longleftrightarrow> e_transfer_list (eng s) = [] \<and> \<not> e_lock (eng s)"

text \<open>The queued transfers are allocated, each once, and submitted; the lock is free between steps.\<close>

definition engine_wf :: "engine_state \<Rightarrow> bool" where
  "engine_wf s \<longleftrightarrow> plain_queue (xfers s) (e_transfer_list (eng s)) \<and> \<not> e_lock (eng s)
     \<and> (\<forall>t\<in>set (e_transfer_list (eng s)). map_option t_state (xfers s t) = Some TRANSFER_STATE_SUBMITTED)"

text \<open>The notices that the transfers in the queue have still to get.\<close>

definition pending :: "engine_state \<Rightarrow> event list" where
  "pending s = map (\<lambda>t. notice t (the (xfers s t))) (e_transfer_list (eng s))"

lemma engine_wf_suffix:
  assumes "engine_wf s" "e_transfer_list (eng s) = d @ e_transfer_list (eng s')" "\<not> e_lock (eng s')"
    "\<forall>t\<in>set (e_transfer_list (eng s')). xfers s' t = xfers s t"
  shows "engine_wf s'"
  using assms by (auto simp: engine_wf_def plain_queue_def)

lemma pending_cong:
  "e_transfer_list (eng s') = e_transfer_list (eng s) \<Longrightarrow> \<forall>t\<in>set (e_transfer_list (eng s)). xfers s' t = xfers s t
    \<Longrightarrow> pending s' = pending s"
  by (simp add: pending_def)

lemma submit_ok:
  assumes wf: "engine_wf s" and t: "xfers s t = None" "fresh_transfer x"
    and q: "transfer_queue t (s\<lparr>xfers := (xfers s)(t \<mapsto> x)\<rparr>) = Inr (rc, s')"
  shows "engine_wf s' \<and> pending s' = pending s @ (if rc = 0 then [notice t x] else []) \<and> notices (wld s') = notices (wld s)"
proof -
  have out: "t \<notin> set (e_transfer_list (eng s))" using wf t(1) by (auto simp: engine_wf_def plain_queue_def)
  from transfer_queue_frame [OF q] have f: "\<not> e_lock (eng s')" "notices (wld s') = notices (wld s)" "0 < t_desc_num x"
      "rc \<noteq> 0 \<and> e_transfer_list (eng s') = e_transfer_list (eng s) \<and> xfers s' = (xfers s)(t \<mapsto> x)
       \<or> rc = 0 \<and> e_transfer_list (eng s') = e_transfer_list (eng s) @ [t]
         \<and> xfers s' = (xfers s)(t \<mapsto> x\<lparr>t_state := TRANSFER_STATE_SUBMITTED\<rparr>)"
    by auto
  have old: "plain_queue (xfers s') (e_transfer_list (eng s))" "\<forall>u\<in>set (e_transfer_list (eng s)). xfers s' u = xfers s u"
    using wf out f(4) by (auto simp: engine_wf_def plain_queue_def)
  show ?thesis using f(4)
  proof
    assume "rc \<noteq> 0 \<and> e_transfer_list (eng s') = e_transfer_list (eng s) \<and> xfers s' = (xfers s)(t \<mapsto> x)"
    then show ?thesis using wf f(1,2) old by (simp add: engine_wf_def pending_def)
  next
    assume a: "rc = 0 \<and> e_transfer_list (eng s') = e_transfer_list (eng s) @ [t]
         \<and> xfers s' = (xfers s)(t \<mapsto> x\<lparr>t_state := TRANSFER_STATE_SUBMITTED\<rparr>)"
    then have "plain_queue (xfers s') (e_transfer_list (eng s'))"
      using old(1) out t(2) f(3) by (simp add: plain_queue_snoc fresh_transfer_def)
    then show ?thesis using a wf f(1,2) old(2) by (simp add: engine_wf_def pending_def)
  qed
qed

lemma interrupt_ok:
  assumes wf: "engine_wf s" and rx: "e_rx_transfer_cyclic (eng s) = None" and ok: "status_now s AND err_flags = 0"
    and run: "engine_service_work obs s = Inr s'"
  shows "engine_wf s' \<and> (\<exists>ns. pending s = ns @ pending s' \<and> notices (wld s') = notices (wld s) @ ns)"
proof -
  define l where "l = upd_eng (e_lock_update (\<lambda>_. True)) s"
  from run rx wf obtain rc s1 where s1: "engine_service 0 l = Inr (rc, s1)"
    and s': "s' = spin_unlock (if msix_enabled (par s1)
         then write_reg (e_interrupt_enable_mask_value (eng s1)) (e_regs (eng s1) + er R_interrupt_enable_mask_w1s) s1
         else upd_wld (channel_interrupts_enable (config_bar (par s1)) (e_irq_bitmask (eng s1))) s1)"
    by (auto simp: engine_service_work_def bindr_eq_Inr spin_lock_free engine_wf_def l_def Let_def)
  have l: "xfers l = xfers s" "e_transfer_list (eng l) = e_transfer_list (eng s)" "wld l = wld s" "e_regs (eng l) = e_regs (eng s)"
    by (simp_all add: l_def)
  have "takes_prefix l s1"
    by (rule engine_service_takes [OF s1]) (use wf ok l in \<open>simp_all add: engine_wf_def status_now_def\<close>)
  then obtain d where d: "e_transfer_list (eng s) = d @ e_transfer_list (eng s1)"
      "notices (wld s1) = notices (wld s) @ map (\<lambda>t. notice t (the (xfers s t))) d"
      "\<forall>t\<in>set (e_transfer_list (eng s1)). xfers s1 t = xfers s t"
    by (auto simp: takes_prefix_def l)
  have e: "e_transfer_list (eng s') = e_transfer_list (eng s1)" "xfers s' = xfers s1" "\<not> e_lock (eng s')"
      "notices (wld s') = notices (wld s1)"
    by (simp_all add: s' spin_unlock_def channel_interrupts_enable_def write_register_def)
  have "engine_wf s'" by (rule engine_wf_suffix [OF wf, of d]) (use d e in simp_all)
  moreover have "pending s = map (\<lambda>t. notice t (the (xfers s t))) d @ pending s'"
    using d e by (simp add: pending_def)
  ultimately show ?thesis using d(2) e(4) by auto
qed

text \<open>The caller's test of the state is what keeps a transfer in the queue from being destroyed.\<close>

lemma destroy_ok:
  assumes wf: "engine_wf s" and t: "xfers s t = Some x" "t_state x \<noteq> TRANSFER_STATE_SUBMITTED" and run: "free_xfer t s = Inr s'"
  shows "engine_wf s' \<and> pending s' = pending s \<and> notices (wld s') = notices (wld s)"
proof -
  have out: "t \<notin> set (e_transfer_list (eng s))" using wf t by (fastforce simp: engine_wf_def)
  from run t(1) obtain w where w: "transfer_destroy x (wld s) = Inr w" "s' = s\<lparr>xfers := (xfers s)(t := None), wld := w\<rparr>"
    by (auto simp: free_xfer_def bindr_eq_Inr)
  have keep: "\<forall>u\<in>set (e_transfer_list (eng s)). xfers s' u = xfers s u" using out w(2) by auto
  have "t_desc_virt x \<noteq> None"
    using w(1) by (auto simp: transfer_destroy_def xdma_desc_free_def bindr_eq_Inr split: option.splits)
  from transfer_destroy_ok [OF this, of "wld s"] w(1) have "notices w = notices (wld s)" by simp
  moreover have "engine_wf s'"
    by (rule engine_wf_suffix [OF wf, of "[]"]) (use w(2) keep wf in \<open>simp_all add: engine_wf_def\<close>)
  moreover have "pending s' = pending s" by (rule pending_cong) (use w(2) keep in simp_all)
  ultimately show ?thesis using w(2) by simp
qed

lemma give_up_ok:
  assumes "engine_wf s" "s' = upd_wld (\<lambda>w. snd (read_interrupts (config_bar (par s)) w)) (snd (engine_status_read False s))"
  shows "engine_wf s' \<and> pending s' = pending s \<and> notices (wld s') = notices (wld s)"
  using assms by (simp add: engine_wf_def pending_def read_interrupts_def read_register_def Let_def split_beta)

lemma device_ok:
  "engine_wf s \<Longrightarrow> engine_wf (s\<lparr>wld := (wld s)\<lparr>w_dev := f\<rparr>\<rparr>) \<and> pending (s\<lparr>wld := (wld s)\<lparr>w_dev := f\<rparr>\<rparr>) = pending s
    \<and> notices ((wld s)\<lparr>w_dev := f\<rparr>) = notices (wld s)"
  by (simp add: engine_wf_def pending_def notices_def)

lemma clean_step_wf:
  assumes "engine_wf s" "clean_step s s'"
  shows "engine_wf s'"
proof -
  from assms(2) obtain op where op: "no_error op" "engine_step op s s'" by (auto simp: clean_step_def)
  from op(2,1) assms(1) show ?thesis
  proof (induction rule: engine_step.induct)
    case (submit s t x rc s')
    then show ?case using submit_ok [of s t x rc s'] by simp
  next
    case (interrupt s obs s')
    then show ?case using interrupt_ok [of s obs s'] by simp
  next
    case (destroy s t x s')
    then show ?case using destroy_ok [of s t x s'] by simp
  next
    case (give_up s' s)
    then show ?case using give_up_ok [of s s'] by simp
  next
    case (device s f)
    then show ?case using device_ok [of s f] by simp
  qed
qed

interpretation engine_machine: state_machine engine_idle clean_step engine_wf
proof
  show "engine_wf s" if "engine_idle s" for s
    using that by (simp add: engine_idle_def engine_wf_def plain_queue_def)
  show "engine_wf t" if "engine_wf s" "clean_step s t" for s t
    using that by (rule clean_step_wf)
qed

text \<open>
  C8: In whatever order transfers are queued, interrupts serviced, waits interrupted and
  finished transfers destroyed by their callers, and whatever the device answers, as long as
  no interrupt finds an error in the status: between the steps the lock is free, and the
  queue holds no transfer twice and only ones that exist and are submitted. That no queued
  transfer is destroyed is not assumed; it follows from the state that the caller tests.
\<close>

theorem engine_queue_never_dangles:
  assumes "engine_idle s" "clean_step\<^sup>*\<^sup>* s s'"
  shows "\<not> e_lock (eng s') \<and> distinct (e_transfer_list (eng s'))
    \<and> (\<forall>t\<in>set (e_transfer_list (eng s')). \<exists>x. xfers s' t = Some x \<and> t_state x = TRANSFER_STATE_SUBMITTED)"
  using engine_machine.reach_good [OF assms] by (fastforce simp: engine_wf_def plain_queue_def)

text \<open>
  With an error it does not hold: a transfer that an interrupt has marked as failed stays
  in the queue, its caller destroys it, and the queue has an entry that is gone.
\<close>

lemma failed_transfer_dangles:
  assumes "l \<in> set (e_transfer_list (eng s))" "xfers s l = Some x" "t_state x = TRANSFER_STATE_FAILED" "t_iocb x = None" "t_desc_virt x \<noteq> None"
  shows "\<exists>s'. engine_step (Destroyed l) s s' \<and> l \<in> set (e_transfer_list (eng s')) \<and> xfers s' l = None"
proof -
  from transfer_destroy_ok [OF assms(5), of "wld s"] obtain w where w: "transfer_destroy x (wld s) = Inr w" by blast
  then have f: "free_xfer l s = Inr (s\<lparr>xfers := (xfers s)(l := None), wld := w\<rparr>)"
    using assms(2) by (simp add: free_xfer_def)
  have "engine_step (Destroyed l) s (s\<lparr>xfers := (xfers s)(l := None), wld := w\<rparr>)"
    by (rule engine_step.destroy [OF assms(2,4) _ f]) (simp add: assms(3))
  then show ?thesis using assms(1) by (intro exI [of _ "s\<lparr>xfers := (xfers s)(l := None), wld := w\<rparr>"]) simp
qed

subsection \<open>First in, first out\<close>

text \<open>
  Putting is a queueing that was accepted, with the notice its transfer is to get; taking is
  an interrupt without an error, with the notices it gives; the other steps are those that
  are neither.
\<close>

definition accepted :: "event \<Rightarrow> engine_state \<Rightarrow> engine_state \<Rightarrow> bool" where
  "accepted n s s' \<longleftrightarrow> (\<exists>t x. n = notice t x \<and> engine_step (Submitted t x) s s')"

definition completing :: "event list \<Rightarrow> engine_state \<Rightarrow> engine_state \<Rightarrow> bool" where
  "completing ns s s' \<longleftrightarrow> (\<exists>v. v AND err_flags = 0 \<and> engine_step (Serviced v) s s') \<and> notices (wld s') = notices (wld s) @ ns"

definition elsewhere :: "engine_state \<Rightarrow> engine_state \<Rightarrow> bool" where
  "elsewhere s s' \<longleftrightarrow> (\<exists>op. (\<forall>t x. op \<noteq> Submitted t x) \<and> (\<forall>v. op \<noteq> Serviced v) \<and> engine_step op s s')"

lemma accepted_ok:
  "engine_wf s \<Longrightarrow> accepted n s s' \<Longrightarrow> engine_wf s' \<and> pending s' = pending s @ [n] \<and> notices (wld s') = notices (wld s)"
  by (auto simp: accepted_def elim!: submittedE split: if_splits dest: submit_ok)

lemma completing_ok:
  assumes "engine_wf s" "completing ns s s'"
  shows "engine_wf s' \<and> pending s = ns @ pending s'"
proof -
  from assms(2) obtain v where v: "v AND err_flags = 0" "engine_step (Serviced v) s s'" and n: "notices (wld s') = notices (wld s) @ ns"
    by (auto simp: completing_def)
  from v(2) obtain obs where "v = status_now s" "e_rx_transfer_cyclic (eng s) = None" "engine_service_work obs s = Inr s'"
    by (auto elim: servicedE split: if_splits)
  then have "engine_wf s' \<and> (\<exists>ns. pending s = ns @ pending s' \<and> notices (wld s') = notices (wld s) @ ns)"
    using interrupt_ok [OF assms(1)] v(1) by blast
  then show ?thesis using n by auto
qed

lemma elsewhere_ok:
  assumes "engine_wf s" "elsewhere s s'"
  shows "engine_wf s' \<and> pending s' = pending s \<and> notices (wld s') = notices (wld s)"
proof -
  from assms(2) obtain op where op: "engine_step op s s'" "\<forall>t x. op \<noteq> Submitted t x" "\<forall>v. op \<noteq> Serviced v"
    by (auto simp: elsewhere_def)
  from op assms(1) show ?thesis
  proof (induction rule: engine_step.induct)
    case (submit s t x rc s')
    then show ?case using submit_ok [of s t x rc s'] by (auto split: if_splits)
  next
    case (destroy s t x s')
    then show ?case using destroy_ok [of s t x s'] by simp
  next
    case (give_up s' s)
    then show ?case using give_up_ok [of s s'] by simp
  next
    case (device s f)
    then show ?case using device_ok [of s f] by simp
  qed simp
qed

interpretation engine_queue: fifo engine_wf pending accepted completing elsewhere
proof
  show "engine_wf t \<and> pending t = pending s @ [i]" if "engine_wf s" "accepted i s t" for i s t
    using accepted_ok that by blast
  show "engine_wf t \<and> pending s = is @ pending t" if "engine_wf s" "completing is s t" for "is" s t
    using completing_ok that by blast
  show "engine_wf t \<and> pending t = pending s" if "engine_wf s" "elsewhere s t" for s t
    using elsewhere_ok that by blast
qed

text \<open>The log of a run has the notices that were taken, and no other.\<close>

lemma run_notices:
  "fifo_run accepted completing elsewhere ops s s' \<Longrightarrow> engine_wf s \<Longrightarrow> notices (wld s') = notices (wld s) @ takes ops"
proof (induction rule: fifo_run.induct)
  case (put i s t ops u)
  then show ?case using accepted_ok by fastforce
next
  case (tak ns s t ops u)
  then show ?case using completing_ok [of s ns t] by (simp add: completing_def)
next
  case (other s t ops u)
  then show ?case using elsewhere_ok by fastforce
qed simp

text \<open>
  C9: Transfers are completed in the order in which they were accepted. Over any run from
  an idle engine of queueings, interrupts without an error and the other steps, the wake-ups
  of waiters and completions of requests in the log are exactly those that the interrupts
  gave, and these, followed by the ones that the transfers still queued have to get, are
  those of the accepted transfers in order of acceptance: none is lost, doubled or overtaken,
  whether it was taken by the loop of the service routine or as its last transfer.
\<close>

theorem transfers_complete_in_order:
  assumes "engine_idle s" "fifo_run accepted completing elsewhere ops s s'"
  shows "notices (wld s') = notices (wld s) @ takes ops \<and> puts ops = takes ops @ pending s'"
proof -
  have wf: "engine_wf s" using assms(1) by (rule engine_machine.start_good)
  have "pending s = []" using assms(1) by (simp add: pending_def engine_idle_def)
  then show ?thesis using run_notices [OF assms(2) wf] engine_queue.run_order [OF assms(2) wf] by simp
qed

subsection \<open>Concrete runs\<close>

text \<open>An idle engine whose device will report two descriptors completed, and the run of a transfer with two.\<close>

definition sample_idle :: engine_state where
  "sample_idle = sample_state\<lparr>xfers := Map.empty, wld := idle_world\<lparr>w_dev := (\<lambda>_ a. if a = 0x10048 then 2 else 0)\<rparr>\<rparr>"

lemma sample_run:
  "\<exists>s1 s2. transfer_queue 8 (sample_idle\<lparr>xfers := (xfers sample_idle)(8 \<mapsto> sample_transfer 2)\<rparr>) = Inr (0, s1)
    \<and> engine_service_work [] s1 = Inr s2 \<and> \<not> poll_mode (par s1) \<and> e_rx_transfer_cyclic (eng s1) = None \<and> status_now s1 = 0
    \<and> notices (wld s2) = notices (wld s1) @ [Wake (Wq_transfer 8)]"
proof -
  have "run_ok (\<lambda>(rc, s1). rc = 0 \<and> \<not> poll_mode (par s1) \<and> e_rx_transfer_cyclic (eng s1) = None \<and> status_now s1 = 0
      \<and> run_ok (\<lambda>s2. notices (wld s2) = notices (wld s1) @ [Wake (Wq_transfer 8)]) (engine_service_work [] s1))
    (transfer_queue 8 (sample_idle\<lparr>xfers := (xfers sample_idle)(8 \<mapsto> sample_transfer 2)\<rparr>))"
    by code_simp
  then show ?thesis by (auto elim!: run_okE)
qed

lemma sample_steps:
  "\<exists>s1 s2. engine_step (Submitted 8 (sample_transfer 2)) sample_idle s1 \<and> engine_step (Serviced 0) s1 s2
    \<and> notices (wld s2) = notices (wld s1) @ [Wake (Wq_transfer 8)]"
proof -
  from sample_run obtain s1 s2 where s: "transfer_queue 8 (sample_idle\<lparr>xfers := (xfers sample_idle)(8 \<mapsto> sample_transfer 2)\<rparr>) = Inr (0, s1)"
    "engine_service_work [] s1 = Inr s2" "\<not> poll_mode (par s1)" "e_rx_transfer_cyclic (eng s1) = None" "status_now s1 = 0"
    "notices (wld s2) = notices (wld s1) @ [Wake (Wq_transfer 8)]" by blast
  have "engine_step (Submitted 8 (sample_transfer 2)) sample_idle s1"
    using engine_step.submit [OF _ _ s(1)] by (simp add: sample_idle_def fresh_transfer_def sample_transfer_def new_transfer_def)
  moreover have "engine_step (Serviced 0) s1 s2" using engine_step.interrupt [OF s(3,4,2)] s(5) by simp
  ultimately show ?thesis using s(6) by blast
qed

lemma sample_idle_ok: "engine_idle sample_idle" "notices (wld sample_idle) = []"
  by (simp_all add: engine_idle_def sample_idle_def sample_state_def sample_engine_def idle_world_def notices_def)

theorem engine_queue_never_dangles_witness:
  "\<exists>s1 s2. engine_step (Submitted 8 (sample_transfer 2)) sample_idle s1 \<and> engine_step (Serviced 0) s1 s2
    \<and> distinct (e_transfer_list (eng s2)) \<and> \<not> e_lock (eng s2)"
proof -
  from sample_steps obtain s1 s2 where s: "engine_step (Submitted 8 (sample_transfer 2)) sample_idle s1" "engine_step (Serviced 0) s1 s2" by blast
  have "clean_step sample_idle s1"
    unfolding clean_step_def by (rule exI [of _ "Submitted 8 (sample_transfer 2)"]) (simp add: s(1))
  moreover have "clean_step s1 s2" unfolding clean_step_def by (rule exI [of _ "Serviced 0"]) (simp add: s(2))
  ultimately have "clean_step\<^sup>*\<^sup>* sample_idle s2" by (meson r_into_rtranclp rtranclp_trans)
  from engine_queue_never_dangles [OF sample_idle_ok(1) this] s show ?thesis by blast
qed

theorem transfers_complete_in_order_witness:
  "\<exists>s'. fifo_run accepted completing elsewhere [Put (Wake (Wq_transfer 8)), Take [Wake (Wq_transfer 8)]] sample_idle s'
    \<and> notices (wld s') = [Wake (Wq_transfer 8)] \<and> pending s' = []"
proof -
  from sample_steps obtain s1 s2 where s: "engine_step (Submitted 8 (sample_transfer 2)) sample_idle s1" "engine_step (Serviced 0) s1 s2"
    "notices (wld s2) = notices (wld s1) @ [Wake (Wq_transfer 8)]" by blast
  have "notice 8 (sample_transfer 2) = Wake (Wq_transfer 8)" by (simp add: notice_def sample_transfer_def new_transfer_def)
  then have "accepted (Wake (Wq_transfer 8)) sample_idle s1"
    using s(1) unfolding accepted_def by (intro exI [of _ "8 :: nat"] exI [of _ "sample_transfer 2"]) simp
  moreover have "completing [Wake (Wq_transfer 8)] s1 s2" using s(2,3) by (auto simp: completing_def intro!: exI [of _ "0 :: u32"])
  ultimately have run: "fifo_run accepted completing elsewhere [Put (Wake (Wq_transfer 8)), Take [Wake (Wq_transfer 8)]] sample_idle s2"
    by (blast intro: fifo_run.intros)
  from transfers_complete_in_order [OF sample_idle_ok(1) run] run sample_idle_ok(2) show ?thesis by auto
qed

end
