(* ===== verification/Xdma_Data.thy ===== *)
theory Xdma_Data
  imports Xdma_Ring
begin

unbundle bit_operations_syntax

text \<open>
  Reading and writing through an engine's character device in driver/xdma-core.c: the
  alignment check, the synchronous path (char_sgdma_read_write, transfer_data,
  transfer_monitor), the asynchronous path (sg_aio_read_write) and seeking. Large requests
  are cut into transfers of at most \<open>XDMA_TRANSFER_MAX_BYTES\<close>.

  The lemmas characterise the alignment check by divisibility, show that a request is
  transferred whole or reports an error, follow one request from the user's call through
  the queue, the interrupt and back, and show where the asynchronous path goes wrong.
\<close>

subsection \<open>Alignment\<close>

text \<open>\<open>len_granularity\<close> is a C \<open>int\<close>: its conversion to \<open>size_t\<close> extends the sign.\<close>

definition check_transfer_align :: "xdma_engine \<Rightarrow> u64 \<Rightarrow> u64 \<Rightarrow> u64 \<Rightarrow> bool \<Rightarrow> int" where
  "check_transfer_align e buf count pos sync =
     (let buf_lsb = (ucast buf :: u32) AND (e_addr_align e - 1);
          len_lsb = count AND ((scast (e_len_granularity e) :: u64) - 1);
          pos_lsb = (ucast pos :: u32) AND (e_addr_align e - 1) in
      if e_streaming e \<or> e_non_incr_addr e then
        if buf_lsb \<noteq> 0 then - EINVAL
        else if \<not> e_streaming e \<and> pos_lsb \<noteq> 0 \<and> sync then - EINVAL
        else if len_lsb \<noteq> 0 then - EINVAL
        else 0
      else if buf_lsb \<noteq> pos_lsb then - EINVAL else 0)"

subsection \<open>The synchronous path\<close>

text \<open>
  What surrounds the transfer of a given name: the pages and descriptors the kernel grants
  its creation, what its waiter's wait gives and, when polling, what the written-back word
  shows.
\<close>

record surroundings =
  s_grants :: "nat \<Rightarrow> kernel_grants"
  s_wait :: "nat \<Rightarrow> waiting"
  s_poll :: "nat \<Rightarrow> (u32 \<times> bool) list"

definition transfer_monitor :: "surroundings \<Rightarrow> nat \<Rightarrow> engine_state \<Rightarrow> (int \<times> engine_state) run" where
  "transfer_monitor e t s =
     (if poll_mode (par s) then
        bindr (spin_lock s) (\<lambda>s.
        bindr (xfer t s) (\<lambda>x.
          engine_service_poll (s_poll e t) [] (of_nat (t_desc_num x)) (spin_unlock s)))
      else s_wait e t s)"

text \<open>
  One round of the loop of \<open>transfer_data\<close>: the transfer of \<open>len\<close> bytes between \<open>addr\<close> and
  the device address \<open>pos\<close>. The result is 0 or a negative errno.
\<close>

definition new_xfer :: "xdma_transfer option \<Rightarrow> world \<Rightarrow> engine_state \<Rightarrow> engine_state" where
  "new_xfer x w s = (case x of
       None \<Rightarrow> s\<lparr>wld := w\<rparr>
     | Some x \<Rightarrow> s\<lparr>wld := w, xfers := (xfers s)(next_xfer s \<mapsto> x), next_xfer := next_xfer s + 1\<rparr>)"

definition mark_last :: "bool \<Rightarrow> nat \<Rightarrow> xdma_transfer \<Rightarrow> xdma_transfer" where
  "mark_last last' req_len x = (if last' then x\<lparr>t_last_in_request := True, t_size_of_request := of_nat req_len\<rparr> else x)"

definition data_round ::
  "surroundings \<Rightarrow> u64 \<Rightarrow> nat \<Rightarrow> u64 \<Rightarrow> bool \<Rightarrow> nat \<Rightarrow> engine_state \<Rightarrow> (int \<times> engine_state) run" where
  "data_round e addr len pos last' req_len s =
     bindr (transfer_create (s_grants e (next_xfer s)) addr (of_nat len) pos (e_dir_to_dev (eng s))
              (e_non_incr_addr (eng s)) False True (wld s)) (\<lambda>(x, w).
     let t = next_xfer s;
         s = new_xfer (map_option (mark_last last' req_len) x) w s
     in if x = None then Inr (- EIO, s)
        else
          bindr (transfer_queue t s) (\<lambda>(_, s).
          bindr (transfer_monitor e t s) (\<lambda>(rc, s).
          bindr (xfer t s) (\<lambda>x.
            if t_state x \<noteq> TRANSFER_STATE_SUBMITTED
            then bindr (free_xfer t s) (\<lambda>s.
                   Inr (if t_state x \<noteq> TRANSFER_STATE_COMPLETED then - EIO else 0, s))
            else if rc \<noteq> 0
            then Inr (- ERESTARTSYS,
                   upd_wld (\<lambda>w. snd (read_interrupts (config_bar (par s)) w)) (snd (engine_status_read False s)))
            else Inr (0, s)))))"

text \<open>
  The loop: the result is the number of bytes or a negative errno, and the file position.
  A request is at most \<open>2 ^ 63 - 1\<close> bytes, so the signed counters are numbers here.
\<close>

function transfer_data ::
  "surroundings \<Rightarrow> u64 \<Rightarrow> nat \<Rightarrow> u64 \<Rightarrow> nat \<Rightarrow> engine_state \<Rightarrow> (int \<times> u64 \<times> engine_state) run" where
  "transfer_data e addr remaining pos done' s =
     (if remaining = 0 then Inr (int done', pos, s)
      else
        let len = min remaining XDMA_TRANSFER_MAX_BYTES in
        bindr (data_round e addr len pos (remaining \<le> len) (done' + len) s) (\<lambda>(res, s).
          if res \<noteq> 0 then Inr (res, pos, s)
          else transfer_data e (addr + of_nat len) (remaining - len) (pos + of_nat len) (done' + len) s))"
  by auto
termination
  by (relation "measure (\<lambda>(e, addr, remaining, pos, done', s). remaining)") (auto simp: XDMA_TRANSFER_MAX_BYTES_def)

declare transfer_data.simps [simp del]

definition char_sgdma_read_write ::
  "surroundings \<Rightarrow> u64 \<Rightarrow> u64 \<Rightarrow> u64 \<Rightarrow> bool \<Rightarrow> engine_state \<Rightarrow> (int \<times> u64 \<times> engine_state) run" where
  "char_sgdma_read_write e buf count pos dir_to_dev s =
     bindr (check_magic s) (\<lambda>_.
       if dir_to_dev \<noteq> e_dir_to_dev (eng s) then Inr (- EINVAL, pos, s)
       else
         let rc = check_transfer_align (eng s) buf count pos True in
         if rc \<noteq> 0 then Inr (rc, pos, s)
         else transfer_data e buf (if sint count < 0 then 0 else unat count) pos 0 s)"

subsection \<open>The asynchronous path\<close>

definition EIOCBQUEUED :: int where "EIOCBQUEUED = 529"

definition aio_round ::
  "surroundings \<Rightarrow> nat \<Rightarrow> bool \<Rightarrow> u64 \<Rightarrow> nat \<Rightarrow> u64 \<Rightarrow> bool \<Rightarrow> nat \<Rightarrow> engine_state \<Rightarrow> engine_state run" where
  "aio_round e iocb dir_to_dev addr len pos last' req_len s =
     bindr (transfer_create (s_grants e (next_xfer s)) addr (of_nat len) pos dir_to_dev False False True (wld s))
       (\<lambda>(x, w).
     bindr (bug_on (x = None)) (\<lambda>_.
     let t = next_xfer s;
         s = new_xfer (map_option (\<lambda>x. mark_last last' req_len (x\<lparr>t_iocb := Some iocb\<rparr>)) x) w s
     in bindr (transfer_queue t s) (\<lambda>(_, s). Inr s)))"

text \<open>One segment of the vector; \<open>pos\<close> is the same for all its transfers.\<close>

function aio_segment ::
  "surroundings \<Rightarrow> nat \<Rightarrow> bool \<Rightarrow> u64 \<Rightarrow> nat \<Rightarrow> u64 \<Rightarrow> nat \<Rightarrow> engine_state \<Rightarrow> engine_state run" where
  "aio_segment e iocb dir_to_dev addr remaining pos done' s =
     (if remaining = 0 then Inr s
      else
        let len = min remaining XDMA_TRANSFER_MAX_BYTES in
        bindr (aio_round e iocb dir_to_dev addr len pos (remaining \<le> len) (done' + len) s)
          (aio_segment e iocb dir_to_dev (addr + of_nat len) (remaining - len) pos (done' + len)))"
  by auto
termination
  by (relation "measure (\<lambda>(e, iocb, dir_to_dev, addr, remaining, pos, done', s). remaining)")
    (auto simp: XDMA_TRANSFER_MAX_BYTES_def)

declare aio_segment.simps [simp del]

fun sg_aio_segments ::
  "surroundings \<Rightarrow> nat \<Rightarrow> (u64 \<times> u64) list \<Rightarrow> u64 \<Rightarrow> bool \<Rightarrow> engine_state \<Rightarrow> (int \<times> engine_state) run" where
  "sg_aio_segments e iocb [] pos dir_to_dev s = Inr (- EIOCBQUEUED, s)"
| "sg_aio_segments e iocb ((buf, count) # iov) pos dir_to_dev s =
     (let rc = check_transfer_align (eng s) buf count pos False in
      if rc \<noteq> 0 then Inr (rc, s)
      else bindr (aio_segment e iocb dir_to_dev buf (unat count) pos 0 s) (sg_aio_segments e iocb iov pos dir_to_dev))"

definition sg_aio_read_write ::
  "surroundings \<Rightarrow> nat \<Rightarrow> (u64 \<times> u64) list \<Rightarrow> u64 \<Rightarrow> bool \<Rightarrow> engine_state \<Rightarrow> (int \<times> engine_state) run" where
  "sg_aio_read_write e iocb iov pos dir_to_dev s =
     bindr (check_magic s) (\<lambda>_. sg_aio_segments e iocb iov pos dir_to_dev s)"

subsection \<open>Seeking\<close>

text \<open>The result of the call and the new file position; \<open>UINT_MAX\<close> is the end of the device.\<close>

definition char_sgdma_llseek :: "u64 \<Rightarrow> u64 \<Rightarrow> nat \<Rightarrow> int \<times> u64" where
  "char_sgdma_llseek f_pos off whence =
     (let newpos = (if whence = 0 then Some off
                    else if whence = 1 then Some (f_pos + off)
                    else if whence = 2 then Some (0xFFFFFFFF + off)
                    else None) in
      case newpos of
        None \<Rightarrow> (- EINVAL, f_pos)
      | Some newpos \<Rightarrow> if sint newpos < 0 then (- EINVAL, f_pos) else (sint newpos, newpos))"

subsection \<open>Alignment is divisibility\<close>

lemma and_mask_mod:
  assumes "w = 2 ^ a" "a < LENGTH('a)"
  shows "unat (v AND (w - 1) :: 'a::len word) = unat v mod 2 ^ a"
proof -
  have "w - 1 = mask a" by (simp add: assms(1) mask_eq_decr_exp)
  then show ?thesis by (simp add: unat_and_mask)
qed

lemma lsb_mod:
  fixes v :: u64
  assumes "w = 2 ^ a" "a < 32"
  shows "unat ((ucast v :: u32) AND (w - 1)) = unat v mod 2 ^ a"
proof -
  have "unat (ucast v :: u32) = unat v mod 2 ^ 32"
    by (simp add: unsigned_ucast_eq take_bit_eq_mod)
  moreover have "unat v mod 2 ^ 32 mod 2 ^ a = unat v mod 2 ^ a"
    by (rule mod_mod_cancel) (rule le_imp_power_dvd, use assms(2) in linarith)
  ultimately show ?thesis using and_mask_mod [OF assms(1), of "ucast v"] assms(2) by simp
qed

lemma scast_power: "g < 31 \<Longrightarrow> (scast (2 ^ g :: u32) :: u64) = 2 ^ g"
proof -
  assume g: "g < 31"
  have "(2::nat) ^ g < 2 ^ 31" using g by (rule power_strict_increasing) simp
  then have s: "unat (2 ^ g :: u32) = 2 ^ g"
    using unat_of_nat_small [of "2 ^ g", where 'a = 32] by (simp add: power_strict_increasing)
  then have "sint (2 ^ g :: u32) = 2 ^ g"
    using sint_small [of "2 ^ g"] \<open>(2::nat) ^ g < 2 ^ 31\<close> by simp
  then have "(word_of_int (sint (2 ^ g :: u32)) :: u64) = 2 ^ g" by simp
  then show ?thesis by (simp only: scast_eq)
qed

text \<open>
  With a power-of-two alignment and length granularity, the alignment check accepts
  exactly the aligned requests: on a streaming or fixed-address engine the buffer is
  aligned, the length is a multiple of the granularity and, for a synchronous request to a
  fixed address, the device address is aligned too; otherwise the buffer and the device
  address have the same offset. Every other request is refused with -EINVAL.
\<close>

theorem check_transfer_align_divides:
  assumes "e_addr_align e = 2 ^ a" "a < 32" "e_len_granularity e = 2 ^ g" "g < 31"
  shows "check_transfer_align e buf count pos sync =
    (if (if e_streaming e \<or> e_non_incr_addr e
         then 2 ^ a dvd unat buf \<and> 2 ^ g dvd unat count \<and> (\<not> e_streaming e \<and> sync \<longrightarrow> 2 ^ a dvd unat pos)
         else unat buf mod 2 ^ a = unat pos mod 2 ^ a)
     then 0 else - EINVAL)"
proof -
  have z: "w = 0 \<longleftrightarrow> unat w = 0" for w :: "'b::len word" by (simp add: unat_eq_0)
  have eq: "v = w \<longleftrightarrow> unat v = unat w" for v w :: "'b::len word" by (rule word_unat_eq_iff)
  have g: "unat (count AND ((scast (e_len_granularity e) :: u64) - 1)) = unat count mod 2 ^ g"
    using assms(3,4) by (intro and_mask_mod) (simp_all add: scast_power)
  note b = lsb_mod [OF assms(1,2), of buf] and p = lsb_mod [OF assms(1,2), of pos]
  show ?thesis
    unfolding check_transfer_align_def Let_def z eq g b p
    by (auto simp: dvd_eq_mod_eq_0)
qed

subsection \<open>A request is transferred whole or fails\<close>

lemma data_round_result:
  "data_round e addr len pos l n s = Inr (r, s') \<Longrightarrow> r = 0 \<or> r = - EIO \<or> r = - ERESTARTSYS"
  by (auto simp: data_round_def bindr_eq_Inr Let_def split: if_splits)

lemma transfer_data_step:
  "0 < remaining \<Longrightarrow> transfer_data e addr remaining pos done' s =
     bindr (data_round e addr (min remaining XDMA_TRANSFER_MAX_BYTES) pos (remaining \<le> XDMA_TRANSFER_MAX_BYTES)
         (done' + min remaining XDMA_TRANSFER_MAX_BYTES) s) (\<lambda>(res, s).
       if res \<noteq> 0 then Inr (res, pos, s)
       else transfer_data e (addr + of_nat (min remaining XDMA_TRANSFER_MAX_BYTES))
              (remaining - min remaining XDMA_TRANSFER_MAX_BYTES) (pos + of_nat (min remaining XDMA_TRANSFER_MAX_BYTES))
              (done' + min remaining XDMA_TRANSFER_MAX_BYTES) s)"
proof -
  have "(remaining \<le> min remaining XDMA_TRANSFER_MAX_BYTES) = (remaining \<le> XDMA_TRANSFER_MAX_BYTES)" by auto
  then show "0 < remaining \<Longrightarrow> ?thesis" by (subst transfer_data.simps) (simp add: Let_def)
qed

lemma transfer_data_0: "transfer_data e addr 0 pos done' s = Inr (int done', pos, s)"
  by (subst transfer_data.simps) simp

text \<open>
  The wait of \<open>transfer_monitor\<close> as the kernel documents it: it does not sleep when the
  transfer is not submitted, and it returns 0 only when it is no longer so; a non-zero
  result is a signal. The mode of the module is not changed meanwhile.
\<close>

definition waits_for_transfer :: "surroundings \<Rightarrow> bool" where
  "waits_for_transfer e \<longleftrightarrow> (\<forall>t s x. xfers s t = Some x \<longrightarrow>
     (if t_state x \<noteq> TRANSFER_STATE_SUBMITTED then s_wait e t s = Inr (0, s)
      else \<forall>rc s'. s_wait e t s = Inr (rc, s') \<longrightarrow> poll_mode (par s') = poll_mode (par s)
        \<and> (rc = 0 \<longrightarrow> map_option t_state (xfers s' t) \<noteq> Some TRANSFER_STATE_SUBMITTED)))"

text \<open>
  A transfer that was made for \<open>len\<close> bytes between \<open>addr\<close> and \<open>pos\<close>, whose descriptors
  describe its pages there, and that was accepted at the end of the queue, found completed
  after the wait, and then freed.
\<close>

definition moved ::
  "nat \<Rightarrow> surroundings \<Rightarrow> u64 \<Rightarrow> nat \<Rightarrow> u64 \<Rightarrow> bool \<Rightarrow> nat \<Rightarrow> engine_state \<Rightarrow> engine_state \<Rightarrow> bool" where
  "moved m e addr len pos last' n s s' \<longleftrightarrow> (\<exists>x w s1 rc s2 y. let t = next_xfer s in
     transfer_create (s_grants e t) addr (of_nat len) pos (e_dir_to_dev (eng s)) (e_non_incr_addr (eng s)) False True (wld s)
       = Inr (Some x, w)
     \<and> (unat (t_desc_bus x) mod 32 = 0 \<longrightarrow> (\<exists>ds. t_desc_virt x = Some ds \<and> chain_ok (t_desc_num x) (t_desc_bus x) ds
          \<and> describes_upto (longest_desc m) (e_dir_to_dev (eng s)) (e_non_incr_addr (eng s)) pos
              (map (k_dma (s_grants e t)) [0..<t_sgl_nents x]) (take (t_desc_num x) ds)))
     \<and> transfer_queue t (new_xfer (Some (mark_last last' n x)) w s) = Inr (0, s1)
     \<and> e_transfer_list (eng s1) = e_transfer_list (eng s) @ [t]
     \<and> s_wait e t s1 = Inr (rc, s2) \<and> xfers s2 t = Some y \<and> t_state y = TRANSFER_STATE_COMPLETED
     \<and> free_xfer t s2 = Inr s' \<and> xfers s' t = None)"

text \<open>
  The first \<open>k\<close> pieces of a request: each of the largest size, but for the last, which is the
  rest; one begins, in memory and on the device, where the one before ended.
\<close>

fun pieces_moved ::
  "nat \<Rightarrow> surroundings \<Rightarrow> u64 \<Rightarrow> nat \<Rightarrow> u64 \<Rightarrow> nat \<Rightarrow> nat \<Rightarrow> engine_state \<Rightarrow> engine_state \<Rightarrow> bool" where
  "pieces_moved m e addr n pos d 0 s s' \<longleftrightarrow> s' = s"
| "pieces_moved m e addr n pos d (Suc k) s s' \<longleftrightarrow> 0 < n \<and> (let len = min n XDMA_TRANSFER_MAX_BYTES in
     \<exists>s1. moved m e addr len pos (n \<le> XDMA_TRANSFER_MAX_BYTES) (d + len) s s1
       \<and> pieces_moved m e (addr + of_nat len) (n - len) (pos + of_nat len) (d + len) k s1 s')"

lemma new_transfers:
  assumes "transfer_create k start cnt ep dir non_incr force_new userspace w = Inr (Some x, w')"
  shows "t_state x = TRANSFER_STATE_NEW"
  using assms unfolding transfer_create_def Let_def
  by (auto simp: bindr_eq_Inr split_beta new_transfer_def simp del: int_nat_eq split: if_splits option.splits)

lemma queue_par: "transfer_queue t s = Inr (rc, s') \<Longrightarrow> par s' = par s"
  by (auto simp: transfer_queue_def bindr_eq_Inr spin_lock_def spin_unlock_def Let_def
      set_transfer_state_def upd_xfer_def split: if_splits option.splits dest!: engine_start_frame)

text \<open>What a round does after the wait.\<close>

definition after_wait :: "nat \<Rightarrow> xdma_transfer \<Rightarrow> int \<Rightarrow> engine_state \<Rightarrow> (int \<times> engine_state) run" where
  "after_wait t x rc s =
     (if t_state x \<noteq> TRANSFER_STATE_SUBMITTED
      then bindr (free_xfer t s) (\<lambda>s. Inr (if t_state x \<noteq> TRANSFER_STATE_COMPLETED then - EIO else 0, s))
      else if rc \<noteq> 0
      then Inr (- ERESTARTSYS, upd_wld (\<lambda>w. snd (read_interrupts (config_bar (par s)) w)) (snd (engine_status_read False s)))
      else Inr (0, s))"

lemma data_round_moved:
  assumes run: "data_round e addr len pos l n s = Inr (0, s')"
    and wait: "waits_for_transfer e" and mode: "\<not> poll_mode (par s)"
    and entries: "\<forall>t i. unat (snd (k_dma (s_grants e t) i)) \<le> m" "m + XDMA_DESC_MAX_BYTES \<le> 2 ^ 32"
  shows "moved m e addr len pos l n s s' \<and> \<not> poll_mode (par s')"
proof -
  let ?t = "next_xfer s"
  obtain x w where c: "transfer_create (s_grants e ?t) addr (of_nat len) pos (e_dir_to_dev (eng s)) (e_non_incr_addr (eng s))
      False True (wld s) = Inr (Some x, w)"
    and run1: "bindr (transfer_queue ?t (new_xfer (Some (mark_last l n x)) w s)) (\<lambda>(_, s).
          bindr (transfer_monitor e ?t s) (\<lambda>(rc, s). bindr (xfer ?t s) (\<lambda>y. after_wait ?t y rc s))) = Inr (0, s')"
    using run by (auto simp: data_round_def after_wait_def bindr_eq_Inr [of "transfer_create _ _ _ _ _ _ _ _ _"] Let_def EIO_def
        split: if_splits option.splits)
  from run1 obtain q s1 rc s2 y where
    q: "transfer_queue ?t (new_xfer (Some (mark_last l n x)) w s) = Inr (q, s1)"
    and mon: "transfer_monitor e ?t s1 = Inr (rc, s2)" and y: "xfers s2 ?t = Some y"
    and fin: "after_wait ?t y rc s2 = Inr (0, s')"
    by (auto simp: bindr_eq_Inr xfer_def split: option.splits)
  have p1: "\<not> poll_mode (par s1)" using queue_par [OF q] mode by (simp add: new_xfer_def)
  then have wt: "s_wait e ?t s1 = Inr (rc, s2)" using mon by (simp add: transfer_monitor_def)
  from transfer_queue_frame [OF q] obtain x1 where x1: "xfers s1 ?t = Some x1"
    "q \<noteq> 0 \<and> t_state x1 = t_state x \<or> q = 0 \<and> t_state x1 = TRANSFER_STATE_SUBMITTED
       \<and> e_transfer_list (eng s1) = e_transfer_list (eng s) @ [?t]"
    by (auto simp: new_xfer_def mark_last_def split: if_splits)
  note wf = wait [unfolded waits_for_transfer_def, rule_format, OF x1(1)]
  have p2: "\<not> poll_mode (par s2)" using wf wt p1 by (auto split: if_splits)
  have sub: "t_state y \<noteq> TRANSFER_STATE_SUBMITTED"
    using wf wt y fin x1(1) by (auto simp: after_wait_def ERESTARTSYS_def split: if_splits)
  then obtain f: "free_xfer ?t s2 = Inr s'" and done': "t_state y = TRANSFER_STATE_COMPLETED"
    using fin by (auto simp: after_wait_def bindr_eq_Inr EIO_def split: if_splits)
  have "q = 0"
  proof (rule ccontr)
    assume "q \<noteq> 0"
    then have n: "t_state x1 = TRANSFER_STATE_NEW" using x1(2) new_transfers [OF c] by simp
    with wf wt have "s2 = s1" by simp
    with y x1(1) n done' show False by simp
  qed
  with q x1(2) have qq: "transfer_queue ?t (new_xfer (Some (mark_last l n x)) w s) = Inr (0, s1)"
    "e_transfer_list (eng s1) = e_transfer_list (eng s) @ [?t]" by auto
  have gone: "xfers s' ?t = None" "\<not> poll_mode (par s')" using f p2 y by (auto simp: free_xfer_def bindr_eq_Inr)
  have "\<exists>ds. t_desc_virt x = Some ds \<and> chain_ok (t_desc_num x) (t_desc_bus x) ds
      \<and> describes_upto (longest_desc m) (e_dir_to_dev (eng s)) (e_non_incr_addr (eng s)) pos
          (map (k_dma (s_grants e ?t)) [0..<t_sgl_nents x]) (take (t_desc_num x) ds)"
    if "unat (t_desc_bus x) mod 32 = 0"
    using created_upto [OF c that, of m] entries by auto
  then have "moved m e addr len pos l n s s'" unfolding moved_def Let_def
    using c qq wt y done' f gone(1)
    by (intro exI [of _ x] exI [of _ w] exI [of _ s1] exI [of _ rc] exI [of _ s2] exI [of _ y]) simp
  with gone(2) show ?thesis by simp
qed

lemma transfer_data_outcome:
  assumes "transfer_data e addr n pos d s = Inr (r, pos', s')"
    and wait: "waits_for_transfer e" and "\<not> poll_mode (par s)"
    and entries: "\<forall>t i. unat (snd (k_dma (s_grants e t) i)) \<le> m" "m + XDMA_DESC_MAX_BYTES \<le> 2 ^ 32"
  shows "r = int (d + n) \<and> pos' = pos + of_nat n
      \<and> (\<exists>k. n \<le> k * XDMA_TRANSFER_MAX_BYTES \<and> pieces_moved m e addr n pos d k s s')
    \<or> (r = - EIO \<or> r = - ERESTARTSYS)
      \<and> (\<exists>k s1. k * XDMA_TRANSFER_MAX_BYTES < n \<and> pos' = pos + of_nat (k * XDMA_TRANSFER_MAX_BYTES)
        \<and> pieces_moved m e addr n pos d k s s1)"
  using assms(1,3)
proof (induction n arbitrary: addr pos d s rule: less_induct)
  case (less n)
  show ?case
  proof (cases "n = 0")
    case True
    then show ?thesis using less.prems by (auto simp: transfer_data_0 intro!: exI [of _ 0])
  next
    case False
    define b where "b = min n XDMA_TRANSFER_MAX_BYTES"
    have b: "0 < b" "b \<le> n" using False by (simp_all add: b_def XDMA_TRANSFER_MAX_BYTES_def)
    from less.prems(1) transfer_data_step [of n e addr pos d s] False obtain res s1 where
      r: "data_round e addr b pos (n \<le> XDMA_TRANSFER_MAX_BYTES) (d + b) s = Inr (res, s1)"
        "(if res \<noteq> 0 then Inr (res, pos, s1)
          else transfer_data e (addr + of_nat b) (n - b) (pos + of_nat b) (d + b) s1) = Inr (r, pos', s')"
      unfolding b_def by (auto simp: bindr_eq_Inr)
    show ?thesis
    proof (cases "res = 0")
      case True
      with r(2) have t: "transfer_data e (addr + of_nat b) (n - b) (pos + of_nat b) (d + b) s1 = Inr (r, pos', s')" by simp
      from data_round_moved [OF r(1) [unfolded True] wait less.prems(2) entries] have
        mv: "moved m e addr b pos (n \<le> XDMA_TRANSFER_MAX_BYTES) (d + b) s s1" and p1: "\<not> poll_mode (par s1)" by simp_all
      have step: "pieces_moved m e addr n pos d (Suc k) s u"
        if "pieces_moved m e (addr + of_nat b) (n - b) (pos + of_nat b) (d + b) k s1 u" for k u
        using that mv False by (auto simp: b_def [symmetric] Let_def)
      have "n - b < n" using b by linarith
      from less.IH [OF this t p1] show ?thesis
      proof
        assume a: "r = int (d + b + (n - b)) \<and> pos' = pos + of_nat b + of_nat (n - b)
          \<and> (\<exists>k. n - b \<le> k * XDMA_TRANSFER_MAX_BYTES
            \<and> pieces_moved m e (addr + of_nat b) (n - b) (pos + of_nat b) (d + b) k s1 s')"
        then obtain k where k: "n - b \<le> k * XDMA_TRANSFER_MAX_BYTES"
          "pieces_moved m e (addr + of_nat b) (n - b) (pos + of_nat b) (d + b) k s1 s'" by blast
        have "n \<le> Suc k * XDMA_TRANSFER_MAX_BYTES" using k(1) b_def by simp
        moreover have "of_nat b + of_nat (n - b) = (of_nat n :: u64)" using b(2) by (metis le_add_diff_inverse of_nat_add)
        moreover have "r = int (d + n)" using a b(2) by simp
        ultimately show ?thesis using a step [OF k(2)] by (metis add.assoc)
      next
        assume "(r = - EIO \<or> r = - ERESTARTSYS) \<and> (\<exists>k u. k * XDMA_TRANSFER_MAX_BYTES < n - b
          \<and> pos' = pos + of_nat b + of_nat (k * XDMA_TRANSFER_MAX_BYTES)
          \<and> pieces_moved m e (addr + of_nat b) (n - b) (pos + of_nat b) (d + b) k s1 u)"
        then obtain k u where k: "r = - EIO \<or> r = - ERESTARTSYS" "k * XDMA_TRANSFER_MAX_BYTES < n - b"
            "pos' = pos + of_nat b + of_nat (k * XDMA_TRANSFER_MAX_BYTES)"
            "pieces_moved m e (addr + of_nat b) (n - b) (pos + of_nat b) (d + b) k s1 u" by blast
        then have full: "b = XDMA_TRANSFER_MAX_BYTES" using b_def by linarith
        have "Suc k * XDMA_TRANSFER_MAX_BYTES < n" using k(2) full by simp
        moreover have "pos' = pos + of_nat (Suc k * XDMA_TRANSFER_MAX_BYTES)"
          using k(3) full by (simp add: add.assoc)
        ultimately show ?thesis using k(1) step [OF k(4)] by blast
      qed
    next
      case False
      then show ?thesis using r data_round_result [OF r(1)] b by (auto intro!: exI [of _ 0])
    qed
  qed
qed

text \<open>
  C21: In interrupt mode a synchronous request is all or nothing. A call that does not fault
  and returns the length has moved every byte of it: the request was cut into pieces that
  follow one another in memory and on the device, for each a transfer was created whose
  descriptors describe its pages at the piece's place on the device, which the queue
  accepted and which was found completed when the wait for it ended; the file position has
  advanced by the length. Otherwise the call returns -EIO or -ERESTARTSYS, and the position
  has advanced by the full-size pieces that were moved in this way before. The wait sleeps
  only while the transfer is submitted, and the kernel maps no entry of more than \<open>m\<close> bytes.
\<close>

theorem transfer_data_all_or_error:
  assumes "transfer_data e addr n pos 0 s = Inr (r, pos', s')"
    and "waits_for_transfer e" "\<not> poll_mode (par s)"
    and "\<forall>t i. unat (snd (k_dma (s_grants e t) i)) \<le> m" "m + XDMA_DESC_MAX_BYTES \<le> 2 ^ 32"
  shows "r = int n \<and> pos' = pos + of_nat n
      \<and> (\<exists>k. n \<le> k * XDMA_TRANSFER_MAX_BYTES \<and> pieces_moved m e addr n pos 0 k s s')
    \<or> (r = - EIO \<or> r = - ERESTARTSYS)
      \<and> (\<exists>k s1. k * XDMA_TRANSFER_MAX_BYTES < n \<and> pos' = pos + of_nat (k * XDMA_TRANSFER_MAX_BYTES)
        \<and> pieces_moved m e addr n pos 0 k s s1)"
  using transfer_data_outcome [OF assms] by simp

subsection \<open>A request from call to return\<close>

text \<open>An engine that is ready for requests: nothing queued, not running, in interrupt mode.\<close>

definition io_idle :: "engine_state \<Rightarrow> bool" where
  "io_idle s \<longleftrightarrow> e_magic (eng s) = MAGIC_ENGINE \<and> \<not> e_running (eng s) \<and> e_transfer_list (eng s) = []
     \<and> \<not> e_lock (eng s) \<and> e_shutdown (eng s) AND ENGINE_SHUTDOWN_REQUEST = 0 \<and> e_xdma_perf (eng s) = None
     \<and> e_rx_transfer_cyclic (eng s) = None \<and> \<not> poll_mode (par s)"

lemma created_fields:
  assumes "transfer_create k start cnt ep dir non_incr force_new userspace w = Inr (Some x, w')"
  shows "\<not> t_cyclic x" "t_desc_virt x \<noteq> None" "t_iocb x = None" "0 < t_desc_num x"
  using assms unfolding transfer_create_def Let_def
  by (auto simp: bindr_eq_Inr split_beta new_transfer_def simp del: int_nat_eq split: if_splits option.splits)

lemma flush_pages_extends: "extends w (flush_pages ps w)"
  by (induction ps w rule: flush_pages.induct) (auto simp: kcall0_def intro: extends_trans [rotated])

lemma create_mapper_extends: "sg_create_mapper n w = (r, w') \<Longrightarrow> extends w w'"
  by (auto simp: sg_create_mapper_def Let_def kcall0_def kcall_def split: if_splits)

lemma get_user_pages_extends:
  assumes "sgm_get_user_pages pinned sgm start count w = Inr (rc, sgm', w')"
  shows "extends w w'"
proof -
  have k: "extends w (emit (Call c) w)" for c by auto
  note t = extends_trans [OF k]
  show ?thesis using assms unfolding sgm_get_user_pages_def Let_def
    by (auto simp: bindr_eq_Inr split_beta kcall_def intro!: t put_pages_world flush_pages_extends split: if_splits)
qed

lemma create_extends:
  assumes "transfer_create k start cnt ep dir non_incr force_new True w = Inr (x, w')"
  shows "extends w w'"
proof (cases "w_kern w (w_log w) (Kzalloc 2) = 0")
  case True
  then show ?thesis using assms by (auto simp: transfer_create_def kcall_def)
next
  case False
  let ?w1 = "emit (Call (Kzalloc 2)) w"
  obtain m w2 where m: "sg_create_mapper cnt ?w1 = (m, w2)" by fastforce
  from assms False m obtain sgm rc sgm' w3 c where
    g: "sgm_get_user_pages (k_pinned k) sgm start cnt w2 = Inr (rc, sgm', w3)"
    and w': "w' = emit (Call c) (emit (Call Pci_map_sg) w3)"
    by (auto simp: transfer_create_def xdma_desc_alloc_def bindr_eq_Inr split_beta Let_def kcall_def
        simp del: int_nat_eq split: if_splits option.splits)
  have "extends w ?w1" by auto
  also have "extends ?w1 w2" by (rule create_mapper_extends [OF m])
  also have "extends w2 w3" by (rule get_user_pages_extends [OF g])
  also have "extends w3 w'" by (auto simp: w')
  finally show ?thesis .
qed

lemma queue_idle:
  assumes "io_idle s" "xfers s t = Some x" "0 < t_desc_num x"
  shows "\<exists>s'. transfer_queue t s = Inr (0, s')
    \<and> eng s' = (eng s)\<lparr>e_shutdown := ENGINE_SHUTDOWN_NONE, e_desc_dequeued := 0, e_running := True, e_transfer_list := [t]\<rparr>
    \<and> xfers s' = (xfers s)(t \<mapsto> x\<lparr>t_state := TRANSFER_STATE_SUBMITTED\<rparr>) \<and> par s' = par s
    \<and> next_xfer s' = next_xfer s \<and> extends (wld s) (wld s')"
proof -
  let ?x = "x\<lparr>t_state := TRANSFER_STATE_SUBMITTED\<rparr>"
  define s1 where "s1 = upd_eng (e_lock_update (\<lambda>_. True)) s"
  define s2 where "s2 = upd_eng (e_transfer_list_update (\<lambda>q. q @ [t])) (s1\<lparr>xfers := (xfers s1)(t \<mapsto> ?x)\<rparr>)"
  have "\<not> e_running (eng s2)" "e_transfer_list (eng s2) = [t]" "xfers s2 t = Some ?x"
    using assms(1) by (simp_all add: s2_def s1_def io_idle_def)
  from engine_start_ok [OF this] obtain s3 where s3: "engine_start s2 = Inr (t, s3)" "started s2 t ?x s3" by blast
  have "transfer_queue t s = Inr (0, spin_unlock s3)"
    using assms set_state_ok [of s1 t x TRANSFER_STATE_SUBMITTED] s3(1)
    by (simp add: transfer_queue_def spin_lock_free io_idle_def s1_def [symmetric] s2_def [symmetric])
      (simp add: s1_def s2_def)
  then show ?thesis using s3(2) assms(1)
    by (auto simp: started_def s2_def s1_def spin_unlock_def io_idle_def)
qed

text \<open>The interrupt that finds the only transfer of the queue done.\<close>

lemma interrupt_finishes:
  assumes s: "e_magic (eng s) = MAGIC_ENGINE" "e_running (eng s)" "\<not> e_lock (eng s)" "\<not> poll_mode (par s)"
      "e_xdma_perf (eng s) = None" "e_rx_transfer_cyclic (eng s) = None" "e_desc_dequeued (eng s) = 0"
      "e_shutdown (eng s) AND ENGINE_SHUTDOWN_REQUEST = 0"
    and q: "e_transfer_list (eng s) = [t]" "xfers s t = Some x" "\<not> t_cyclic x" "t_desc_virt x \<noteq> None"
      "0 < t_desc_num x" "t_desc_num x < 2 ^ 32" "t_iocb x = None"
    and dev: "device_says s v (of_nat (t_desc_num x))" "v AND err_flags = 0" "v AND XDMA_STAT_BUSY = 0"
  shows "\<exists>s'. serviced_wait s = Inr (0, s') \<and> xfers s' = (xfers s)(t \<mapsto> x\<lparr>t_state := TRANSFER_STATE_COMPLETED\<rparr>)
    \<and> eng s' = (eng s)\<lparr>e_status := v, e_running := False, e_transfer_list := [], e_desc_dequeued := of_nat (t_desc_num x)\<rparr>
    \<and> par s' = par s \<and> next_xfer s' = next_xfer s"
proof -
  define l where "l = upd_eng (e_lock_update (\<lambda>_. True)) s"
  have l: "e_running (eng l)" "\<not> poll_mode (par l)" "e_xdma_perf (eng l) = None"
      "e_shutdown (eng l) AND ENGINE_SHUTDOWN_REQUEST = 0" "device_says l v (of_nat (t_desc_num x))"
      "e_transfer_list (eng l) = [] @ t # []" "plain_queue (xfers l) ([] @ t # [])"
      "unat (of_nat (t_desc_num x) - e_desc_dequeued (eng l)) = sum_list (map (num_of (xfers l)) ([] @ [t]))"
    using s q dev(1) by (simp_all add: l_def plain_queue_def device_says_def num_of_def unat_of_nat_small)
  from service_retires_prefix [OF l(1-5) dev(2) l(6-8)] obtain s3 s4 where
    s4: "engine_service 0 l = Inr (0, s4)" "serviced l v s3" "queue_serviced s3 [] t TRANSFER_STATE_COMPLETED [] s4"
    by blast
  have e4: "eng s4 = (eng l)\<lparr>e_status := v, e_running := False, e_transfer_list := [], e_desc_dequeued := of_nat (t_desc_num x)\<rparr>"
      "xfers s4 = (xfers s)(t \<mapsto> x\<lparr>t_state := TRANSFER_STATE_COMPLETED\<rparr>)" "par s4 = par s" "next_xfer s4 = next_xfer s"
    using s4(2,3) q(2,7) s(7) dev(3)
    by (auto simp: serviced_def queue_serviced_def num_of_def l_def finished_def fun_eq_iff Let_def)
  have "serviced_wait s = Inr (0, spin_unlock (if msix_enabled (par s4)
      then write_reg (e_interrupt_enable_mask_value (eng s4)) (e_regs (eng s4) + er R_interrupt_enable_mask_w1s) s4
      else upd_wld (channel_interrupts_enable (config_bar (par s4)) (e_irq_bitmask (eng s4))) s4))"
    using s(1,6) s4(1) by (simp add: serviced_wait_def engine_service_work_def check_magic_def spin_lock_free [OF s(3)] l_def Let_def)
  moreover have "(eng s)\<lparr>e_lock := False\<rparr> = eng s" using s(3) by simp
  ultimately show ?thesis using e4 s(3) by (simp add: spin_unlock_def l_def)
qed

text \<open>
  The round of a request on an idle engine. The wait has to give what the interrupt leaves,
  when that ends it.
\<close>

lemma round_completes:
  assumes idle: "io_idle s"
    and create: "transfer_create (s_grants e (next_xfer s)) buf (of_nat n) pos (e_dir_to_dev (eng s))
      (e_non_incr_addr (eng s)) False True (wld s) = Inr (Some x, w)" "t_desc_num x < 2 ^ 32"
    and dev: "\<forall>es. w_dev (wld s) es (e_regs (eng s) + er R_status_rc) = v
      \<and> w_dev (wld s) es (e_regs (eng s) + er R_completed_desc_count) = of_nat (t_desc_num x)"
      "v AND err_flags = 0" "v AND XDMA_STAT_BUSY = 0"
    and wait: "\<And>u u'. map_option t_state (xfers u (next_xfer s)) = Some TRANSFER_STATE_SUBMITTED \<Longrightarrow> serviced_wait u = Inr (0, u')
      \<Longrightarrow> map_option t_state (xfers u' (next_xfer s)) = Some TRANSFER_STATE_COMPLETED \<Longrightarrow> par u' = par u
      \<Longrightarrow> s_wait e (next_xfer s) u = Inr (0, u')"
  shows "\<exists>s'. data_round e buf n pos True n s = Inr (0, s')
    \<and> xfers s' (next_xfer s) = None \<and> io_idle s' \<and> next_xfer s' = next_xfer s + 1"
proof -
  let ?t = "next_xfer s"
  define x1 where "x1 = mark_last True n x"
  define s1 where "s1 = new_xfer (Some x1) w s"
  note x = created_fields [OF create(1)]
  have x1: "\<not> t_cyclic x1" "t_desc_virt x1 \<noteq> None" "t_iocb x1 = None" "t_desc_num x1 = t_desc_num x"
    using x by (simp_all add: x1_def mark_last_def)
  have s1: "io_idle s1" "xfers s1 ?t = Some x1" "eng s1 = eng s" "par s1 = par s" "next_xfer s1 = ?t + 1" "wld s1 = w"
    using idle by (simp_all add: s1_def new_xfer_def io_idle_def)
  from queue_idle [OF s1(1,2)] x(4) x1(4) obtain s2 where s2: "transfer_queue ?t s1 = Inr (0, s2)"
      "eng s2 = (eng s)\<lparr>e_shutdown := ENGINE_SHUTDOWN_NONE, e_desc_dequeued := 0, e_running := True, e_transfer_list := [?t]\<rparr>"
      "xfers s2 = (xfers s1)(?t \<mapsto> x1\<lparr>t_state := TRANSFER_STATE_SUBMITTED\<rparr>)" "par s2 = par s" "next_xfer s2 = ?t + 1"
      "extends w (wld s2)"
    by (auto simp: s1)
  have "device_says s2 v (of_nat (t_desc_num (x1\<lparr>t_state := TRANSFER_STATE_SUBMITTED\<rparr>)))"
    using s2(2,6) dev(1) x1(4) create_extends [OF create(1)] by (auto simp: device_says_def extends_def)
  from interrupt_finishes [OF _ _ _ _ _ _ _ _ _ _ _ _ _ _ _ this dev(2,3), of ?t] idle s2(2,3,4) x(4) x1 create(2)
  obtain s3 where s3: "serviced_wait s2 = Inr (0, s3)"
      "xfers s3 = (xfers s2)(?t \<mapsto> x1\<lparr>t_state := TRANSFER_STATE_COMPLETED\<rparr>)"
      "eng s3 = (eng s2)\<lparr>e_status := v, e_running := False, e_transfer_list := [], e_desc_dequeued := of_nat (t_desc_num x)\<rparr>"
      "par s3 = par s2" "next_xfer s3 = next_xfer s2"
    by (auto simp: io_idle_def ENGINE_SHUTDOWN_NONE_def)
  from transfer_destroy_ok [of "x1\<lparr>t_state := TRANSFER_STATE_COMPLETED\<rparr>" "wld s3"] x1(2) obtain w' where
    "transfer_destroy (x1\<lparr>t_state := TRANSFER_STATE_COMPLETED\<rparr>) (wld s3) = Inr w'" by auto
  then have free: "free_xfer ?t s3 = Inr (s3\<lparr>xfers := (xfers s3)(?t := None), wld := w'\<rparr>)"
    by (simp add: free_xfer_def s3(2))
  define s4 where "s4 = s3\<lparr>xfers := (xfers s3)(?t := None), wld := w'\<rparr>"
  have mon: "transfer_monitor e ?t s2 = Inr (0, s3)"
    using idle s2(3,4) wait [OF _ s3(1)] s3(2,4) by (simp add: transfer_monitor_def io_idle_def)
  have "data_round e buf n pos True n s = Inr (0, s4)"
    using create(1) s2(1) mon free s3(2)
    by (simp add: data_round_def x1_def [symmetric] s1_def [symmetric] Let_def s4_def)
  moreover have "io_idle s4" "xfers s4 ?t = None" "next_xfer s4 = ?t + 1"
    using idle s3 s2 by (simp_all add: s4_def io_idle_def ENGINE_SHUTDOWN_NONE_def)
  ultimately show ?thesis by blast
qed

text \<open>
  C20: A request of at most one transfer's size on an idle engine, whose buffer the kernel
  can pin and whose completion interrupt reports all its descriptors without an error,
  returns its whole length and moves the file position by it; the transfer is freed, and
  the engine is idle and ready for the next request.
\<close>

theorem request_completes:
  assumes idle: "io_idle s" and align: "check_transfer_align (eng s) buf count pos True = 0"
    and len: "0 < unat count" "unat count \<le> XDMA_TRANSFER_MAX_BYTES"
    and create: "transfer_create (s_grants e (next_xfer s)) buf count pos (e_dir_to_dev (eng s))
      (e_non_incr_addr (eng s)) False True (wld s) = Inr (Some x, w)" "t_desc_num x < 2 ^ 32"
    and dev: "\<forall>es. w_dev (wld s) es (e_regs (eng s) + er R_status_rc) = v
      \<and> w_dev (wld s) es (e_regs (eng s) + er R_completed_desc_count) = of_nat (t_desc_num x)"
      "v AND err_flags = 0" "v AND XDMA_STAT_BUSY = 0"
    and wait: "s_wait e (next_xfer s) = serviced_wait"
  shows "\<exists>s'. char_sgdma_read_write e buf count pos (e_dir_to_dev (eng s)) s = Inr (int (unat count), pos + count, s')
    \<and> xfers s' (next_xfer s) = None \<and> io_idle s' \<and> next_xfer s' = next_xfer s + 1"
proof -
  let ?t = "next_xfer s" and ?n = "unat count"
  from round_completes [OF idle _ create(2) dev, of e buf ?n pos w] create(1) wait obtain s4 where
    s4: "data_round e buf ?n pos True ?n s = Inr (0, s4)" "xfers s4 ?t = None" "io_idle s4" "next_xfer s4 = ?t + 1" by auto
  then have "transfer_data e buf ?n pos 0 s = Inr (int ?n, pos + count, s4)"
    using len by (simp add: transfer_data_step min_def transfer_data_0)
  moreover have "sint count = int ?n"
  proof -
    have "uint count < 2 ^ 63" by (rule uint_less) (use len(2) in \<open>simp add: XDMA_TRANSFER_MAX_BYTES_def\<close>)
    moreover have "- (2 ^ 63) \<le> uint count" by (rule order_trans [OF _ uint_ge_0]) simp
    ultimately have "signed_take_bit 63 (uint count) = uint count" by (intro signed_take_bit_int_eq_self)
    then show ?thesis by (simp add: sint_uint)
  qed
  ultimately have "char_sgdma_read_write e buf count pos (e_dir_to_dev (eng s)) s = Inr (int ?n, pos + count, s4)"
    using idle align by (simp add: char_sgdma_read_write_def check_magic_def io_idle_def)
  with s4 show ?thesis by blast
qed

subsection \<open>The asynchronous path\<close>

lemma queue_next:
  assumes "transfer_queue t s = Inr (rc, s')"
  shows "next_xfer s' = next_xfer s"
  using assms
  by (auto simp: transfer_queue_def bindr_eq_Inr spin_lock_def spin_unlock_def Let_def
      set_transfer_state_def upd_xfer_def split: if_splits option.splits dest!: engine_start_frame)

lemma engine_start_extends: "engine_start s = Inr (t, s') \<Longrightarrow> extends (wld s) (wld s')"
  by (auto simp: engine_start_def Let_def bindr_eq_Inr split: list.splits
      intro!: extends_trans [OF _ mode_config_sel(5)])

text \<open>Queueing leaves the configuration of the engine as it is.\<close>

lemma queue_keeps:
  assumes "transfer_queue t s = Inr (rc, s')"
  shows "e_streaming (eng s') = e_streaming (eng s)" "e_non_incr_addr (eng s') = e_non_incr_addr (eng s)"
    "e_addr_align (eng s') = e_addr_align (eng s)" "e_magic (eng s') = e_magic (eng s)" "extends (wld s) (wld s')"
proof -
  have st: "e_streaming (eng v) = e_streaming (eng u) \<and> e_non_incr_addr (eng v) = e_non_incr_addr (eng u)
      \<and> e_addr_align (eng v) = e_addr_align (eng u) \<and> e_magic (eng v) = e_magic (eng u) \<and> extends (wld u) (wld v)"
    if "engine_start u = Inr (x, v)" for u v x
    using that engine_start_extends [OF that]
    by (auto simp: engine_start_def Let_def bindr_eq_Inr split: list.splits)
  from assms show "e_streaming (eng s') = e_streaming (eng s)" "e_non_incr_addr (eng s') = e_non_incr_addr (eng s)"
    "e_addr_align (eng s') = e_addr_align (eng s)" "e_magic (eng s') = e_magic (eng s)" "extends (wld s) (wld s')"
    by (auto simp: transfer_queue_def bindr_eq_Inr spin_lock_def spin_unlock_def Let_def
        set_transfer_state_def upd_xfer_def split: if_splits option.splits dest!: st)
qed

text \<open>What a round of the asynchronous path leaves in the heap.\<close>

definition aio_transfer ::
  "surroundings \<Rightarrow> nat \<Rightarrow> bool \<Rightarrow> u64 \<Rightarrow> nat \<Rightarrow> u64 \<Rightarrow> bool \<Rightarrow> nat \<Rightarrow> nat \<Rightarrow> xdma_transfer \<Rightarrow> bool" where
  "aio_transfer e iocb dir addr len pos l n t y \<longleftrightarrow> (\<exists>x w w' st.
     transfer_create (s_grants e t) addr (of_nat len) pos dir False False True w = Inr (Some x, w')
     \<and> y = (mark_last l n (x\<lparr>t_iocb := Some iocb\<rparr>))\<lparr>t_state := st\<rparr>)"

lemma aio_round_frame:
  assumes "aio_round e iocb dir addr len pos l n s = Inr s'"
  shows "\<exists>y. xfers s' = (xfers s)(next_xfer s \<mapsto> y) \<and> aio_transfer e iocb dir addr len pos l n (next_xfer s) y
    \<and> next_xfer s' = next_xfer s + 1"
proof -
  from assms obtain x w rc where
    c: "transfer_create (s_grants e (next_xfer s)) addr (of_nat len) pos dir False False True (wld s) = Inr (Some x, w)"
    and q: "transfer_queue (next_xfer s)
        (new_xfer (Some (mark_last l n (x\<lparr>t_iocb := Some iocb\<rparr>))) w s) = Inr (rc, s')"
    by (auto simp: aio_round_def bindr_eq_Inr Let_def)
  let ?y = "mark_last l n (x\<lparr>t_iocb := Some iocb\<rparr>)"
  have "?y = ?y\<lparr>t_state := t_state ?y\<rparr>" by simp
  then have "aio_transfer e iocb dir addr len pos l n (next_xfer s) (?y\<lparr>t_state := st\<rparr>)"
      "aio_transfer e iocb dir addr len pos l n (next_xfer s) ?y" for st
    using c unfolding aio_transfer_def by blast+
  with transfer_queue_frame [OF q] queue_next [OF q] show ?thesis
    by (auto simp: new_xfer_def)
qed

lemma aio_segment_small:
  assumes "0 < n" "n \<le> XDMA_TRANSFER_MAX_BYTES"
  shows "aio_segment e iocb dir addr n pos d s = aio_round e iocb dir addr n pos True (d + n) s"
proof -
  have "aio_segment e iocb dir addr n pos d s =
      bindr (aio_round e iocb dir addr n pos True (d + n) s) (aio_segment e iocb dir (addr + of_nat n) 0 pos (d + n))"
    using assms by (subst aio_segment.simps) (simp add: Let_def min_def)
  also have "\<dots> = bindr (aio_round e iocb dir addr n pos True (d + n) s) Inr"
    by (rule bindr_cong) (simp_all add: aio_segment.simps)
  finally show ?thesis by (cases "aio_round e iocb dir addr n pos True (d + n) s") simp_all
qed

lemma aio_transfer_bytes:
  assumes "aio_transfer e iocb dir addr len pos True n t y" "unat (t_desc_bus y) mod 32 = 0"
    "\<forall>i. unat (snd (k_dma (s_grants e t) i)) \<le> PAGE_SIZE"
  shows "t_iocb y = Some iocb \<and> t_last_in_request y \<and> (\<exists>ds m. t_desc_virt y = Some ds
    \<and> ep_bytes dir (take (t_desc_num y) ds) = addr_bytes pos m)"
proof -
  from assms(1) obtain x w w' st where
    c: "transfer_create (s_grants e t) addr (of_nat len) pos dir False False True w = Inr (Some x, w')"
    and y: "y = (mark_last True n (x\<lparr>t_iocb := Some iocb\<rparr>))\<lparr>t_state := st\<rparr>"
    by (auto simp: aio_transfer_def)
  from created_describes [OF c _ assms(3)] assms(2) show ?thesis
    by (auto simp: y mark_last_def describes_upto_def)
qed

text \<open>
  C22: An asynchronous vectored request of two segments goes wrong in two ways: both
  transfers move their bytes from the same device address, the position of the request,
  so that the second overwrites (or rereads) the first; and both are marked as the last
  transfer of the same request, so that the request is completed twice.
\<close>

theorem aio_segments_collide:
  assumes run: "sg_aio_read_write e iocb [(b1, c1), (b2, c2)] pos dir s = Inr (- EIOCBQUEUED, s')"
    and len: "0 < unat c1" "unat c1 \<le> XDMA_TRANSFER_MAX_BYTES" "0 < unat c2" "unat c2 \<le> XDMA_TRANSFER_MAX_BYTES"
    and dma: "\<forall>t i. unat (snd (k_dma (s_grants e t) i)) \<le> PAGE_SIZE"
    and bus: "map_option (\<lambda>x. unat (t_desc_bus x) mod 32) (xfers s' (next_xfer s)) = Some 0"
      "map_option (\<lambda>x. unat (t_desc_bus x) mod 32) (xfers s' (next_xfer s + 1)) = Some 0"
  shows "\<exists>x1 x2 ds1 ds2 m1 m2. xfers s' (next_xfer s) = Some x1 \<and> xfers s' (next_xfer s + 1) = Some x2
    \<and> t_desc_virt x1 = Some ds1 \<and> t_desc_virt x2 = Some ds2
    \<and> ep_bytes dir (take (t_desc_num x1) ds1) = addr_bytes pos m1
    \<and> ep_bytes dir (take (t_desc_num x2) ds2) = addr_bytes pos m2
    \<and> t_iocb x1 = Some iocb \<and> t_iocb x2 = Some iocb \<and> t_last_in_request x1 \<and> t_last_in_request x2"
proof -
  let ?t = "next_xfer s"
  have "(- EIOCBQUEUED :: int) \<noteq> - EINVAL" by (simp add: EIOCBQUEUED_def EINVAL_def)
  then obtain s1 where
    s1: "aio_round e iocb dir b1 (unat c1) pos True (unat c1) s = Inr s1"
    and s2: "aio_round e iocb dir b2 (unat c2) pos True (unat c2) s1 = Inr s'"
    using run len
    by (auto simp: sg_aio_read_write_def bindr_eq_Inr aio_segment_small Let_def check_transfer_align_def split: if_splits)
  from aio_round_frame [OF s1] obtain y1 where
    y1: "xfers s1 = (xfers s)(?t \<mapsto> y1)" "aio_transfer e iocb dir b1 (unat c1) pos True (unat c1) ?t y1"
      "next_xfer s1 = ?t + 1" by blast
  from aio_round_frame [OF s2] obtain y2 where
    y2: "xfers s' = (xfers s1)(?t + 1 \<mapsto> y2)" "aio_transfer e iocb dir b2 (unat c2) pos True (unat c2) (?t + 1) y2"
    unfolding y1(3) by blast
  have h: "xfers s' ?t = Some y1" "xfers s' (?t + 1) = Some y2" by (simp_all add: y1(1) y2(1))
  from bus h have al: "unat (t_desc_bus y1) mod 32 = 0" "unat (t_desc_bus y2) mod 32 = 0" by simp_all
  from dma have k: "\<forall>i. unat (snd (k_dma (s_grants e t) i)) \<le> PAGE_SIZE" for t by blast
  from aio_transfer_bytes [OF y1(2) al(1) k] aio_transfer_bytes [OF y2(2) al(2) k] h show ?thesis by blast
qed

text \<open>
  A seek either fails and leaves the position, or returns the new position, which is not
  negative as a signed number.
\<close>

lemma llseek_outcome:
  "char_sgdma_llseek f off whence = (r, f') \<Longrightarrow> r = - EINVAL \<and> f' = f \<or> 0 \<le> r \<and> r = sint f'"
  by (auto simp: char_sgdma_llseek_def Let_def split: if_splits)

subsection \<open>Concrete runs\<close>

definition sample_env :: surroundings where
  "sample_env = \<lparr>s_grants = (\<lambda>_. sample_grants), s_wait = (\<lambda>_. serviced_wait), s_poll = (\<lambda>_. [])\<rparr>"

text \<open>The device reports one completed descriptor and an idle engine.\<close>

definition sample_io :: engine_state where
  "sample_io = sample_state\<lparr>wld := idle_world\<lparr>w_dev := (\<lambda>_ a. if a = 0x10048 then 1 else 0)\<rparr>\<rparr>"

theorem check_transfer_align_divides_witness:
  "check_transfer_align (sample_engine\<lparr>e_addr_align := 64\<rparr>) 0x1040 16 0x80 True = 0
   \<and> check_transfer_align (sample_engine\<lparr>e_addr_align := 64\<rparr>) 0x1044 16 0x80 True = - EINVAL"
  using check_transfer_align_divides [of "sample_engine\<lparr>e_addr_align := 64\<rparr>" 6 0 "0x1040" 16 "0x80" True]
    check_transfer_align_divides [of "sample_engine\<lparr>e_addr_align := 64\<rparr>" 6 0 "0x1044" 16 "0x80" True]
  by (simp add: sample_engine_def)

text \<open>The world of \<open>sample_io\<close> after any accesses.\<close>

lemma sample_created_at:
  "\<exists>x w'. transfer_create sample_grants 0x1000 16 0 True False False True (wld sample_io\<lparr>w_log := l\<rparr>) = Inr (Some x, w')
     \<and> t_desc_num x = 1 \<and> unat (t_desc_bus x) mod 32 = 0"
proof -
  have "run_ok (\<lambda>(x, w). case x of None \<Rightarrow> False | Some x \<Rightarrow> t_desc_num x = 1 \<and> unat (t_desc_bus x) mod 32 = 0)
      (transfer_create sample_grants 0x1000 16 0 True False False True (wld sample_io\<lparr>w_log := l\<rparr>))"
    by code_simp
  then show ?thesis by (auto elim!: run_okE split: option.splits)
qed

lemma sample_created:
  "\<exists>x w. transfer_create sample_grants 0x1000 16 0 True False False True (wld sample_io) = Inr (Some x, w) \<and> t_desc_num x = 1"
  using sample_created_at [of "w_log (wld sample_io)"] by auto

theorem request_completes_witness:
  "\<exists>s'. char_sgdma_read_write sample_env 0x1000 16 0 True sample_io = Inr (16, 16, s') \<and> io_idle s'"
proof -
  obtain x w where c: "transfer_create sample_grants 0x1000 16 0 True False False True (wld sample_io) = Inr (Some x, w)"
    "t_desc_num x = 1" using sample_created by blast
  have idle: "io_idle sample_io" "e_dir_to_dev (eng sample_io)" "\<not> e_non_incr_addr (eng sample_io)"
    "e_regs (eng sample_io) = 0x10000" "s_grants sample_env (next_xfer sample_io) = sample_grants"
    "s_wait sample_env (next_xfer sample_io) = serviced_wait" "\<not> e_streaming (eng sample_io)" "e_addr_align (eng sample_io) = 1"
    by (simp_all add: io_idle_def sample_io_def sample_state_def sample_engine_def sample_params_def sample_env_def)
  from request_completes [OF idle(1), of "0x1000" 16 0 sample_env x w 0] c idle show ?thesis
    by (auto simp: check_transfer_align_def XDMA_TRANSFER_MAX_BYTES_def sample_io_def)
qed

text \<open>The wait of a caller that sleeps through one interrupt, or is then interrupted by a signal.\<close>

definition one_interrupt :: "nat \<Rightarrow> waiting" where
  "one_interrupt t s =
     (if map_option t_state (xfers s t) \<noteq> Some TRANSFER_STATE_SUBMITTED then Inr (0, s)
      else case serviced_wait s of
        Inl f \<Rightarrow> Inl f
      | Inr (_, s') \<Rightarrow>
          let s' = s'\<lparr>par := par s\<rparr> in
          Inr (if map_option t_state (xfers s' t) \<noteq> Some TRANSFER_STATE_SUBMITTED then 0 else - ERESTARTSYS, s'))"

definition sleeping_env :: surroundings where
  "sleeping_env = sample_env\<lparr>s_wait := one_interrupt\<rparr>"

lemma sleeping_env_waits: "waits_for_transfer sleeping_env"
proof -
  have "poll_mode (par s') = poll_mode (par s)
      \<and> (rc = 0 \<longrightarrow> map_option t_state (xfers s' t) \<noteq> Some TRANSFER_STATE_SUBMITTED)"
    if "one_interrupt t s = Inr (rc, s')" "t_state x = TRANSFER_STATE_SUBMITTED" "xfers s t = Some x" for t s x rc s'
  proof (cases "serviced_wait s")
    case (Inr r)
    have "- ERESTARTSYS \<noteq> 0" by (simp add: ERESTARTSYS_def)
    with that Inr show ?thesis
      by (cases r) (auto simp: one_interrupt_def Let_def)
  qed (use that in \<open>simp add: one_interrupt_def\<close>)
  then show ?thesis by (simp add: waits_for_transfer_def sleeping_env_def) (simp add: one_interrupt_def)
qed

lemma sample_io_facts:
  "io_idle sample_io" "e_dir_to_dev (eng sample_io)" "\<not> e_non_incr_addr (eng sample_io)" "e_regs (eng sample_io) = 0x10000"
  "\<not> e_streaming (eng sample_io)" "e_addr_align (eng sample_io) = 1" "w_dev (wld sample_io) = (\<lambda>_ a. if a = 0x10048 then 1 else 0)"
  by (simp_all add: io_idle_def sample_io_def sample_state_def sample_engine_def sample_params_def)

lemma sample_data_round:
  "\<exists>s'. data_round sleeping_env 0x1000 16 0 True 16 sample_io = Inr (0, s')"
proof -
  obtain x w where c: "transfer_create sample_grants 0x1000 16 0 True False False True (wld sample_io) = Inr (Some x, w)"
    "t_desc_num x = 1" using sample_created by blast
  have "s_wait sleeping_env t u = Inr (0, u')" if "map_option t_state (xfers u t) = Some TRANSFER_STATE_SUBMITTED"
      "serviced_wait u = Inr (0, u')" "map_option t_state (xfers u' t) = Some TRANSFER_STATE_COMPLETED" "par u' = par u" for t u u'
    using that(1-3) that(4) [symmetric] by (auto simp: sleeping_env_def one_interrupt_def)
  note wait = this
  have "s_grants sleeping_env (next_xfer sample_io) = sample_grants" by (simp add: sleeping_env_def sample_env_def)
  then have create: "transfer_create (s_grants sleeping_env (next_xfer sample_io)) 0x1000 (of_nat 16) 0 (e_dir_to_dev (eng sample_io))
      (e_non_incr_addr (eng sample_io)) False True (wld sample_io) = Inr (Some x, w)" "t_desc_num x < 2 ^ 32"
    using c sample_io_facts(2,3) by simp_all
  have dev: "\<forall>es. w_dev (wld sample_io) es (e_regs (eng sample_io) + er R_status_rc) = 0
      \<and> w_dev (wld sample_io) es (e_regs (eng sample_io) + er R_completed_desc_count) = of_nat (t_desc_num x)"
    using c(2) sample_io_facts(4,7) by simp
  have "\<exists>s'. data_round sleeping_env 0x1000 16 0 True 16 sample_io = Inr (0, s')
     \<and> xfers s' (next_xfer sample_io) = None \<and> io_idle s' \<and> next_xfer s' = next_xfer sample_io + 1"
    by (rule round_completes [OF sample_io_facts(1) create dev]) (use wait in simp_all)
  then show ?thesis by blast
qed

theorem transfer_data_all_or_error_witness:
  "\<exists>s' k. transfer_data sleeping_env 0x1000 16 0 0 sample_io = Inr (16, 16, s')
    \<and> 16 \<le> k * XDMA_TRANSFER_MAX_BYTES \<and> pieces_moved PAGE_SIZE sleeping_env 0x1000 16 0 0 k sample_io s'"
proof -
  obtain s' where "data_round sleeping_env 0x1000 16 0 True 16 sample_io = Inr (0, s')" using sample_data_round by blast
  then have t: "transfer_data sleeping_env 0x1000 16 0 0 sample_io = Inr (16, 16, s')"
    by (simp add: transfer_data_step transfer_data_0 XDMA_TRANSFER_MAX_BYTES_def)
  have "\<not> poll_mode (par sample_io)" "\<forall>t i. unat (snd (k_dma (s_grants sleeping_env t) i)) \<le> PAGE_SIZE"
    "PAGE_SIZE + XDMA_DESC_MAX_BYTES \<le> 2 ^ 32"
    by (simp_all add: sample_io_def sample_state_def sample_params_def sleeping_env_def sample_env_def sample_grants_def
        PAGE_SIZE_def XDMA_DESC_MAX_BYTES_def)
  from transfer_data_all_or_error [OF t sleeping_env_waits this] t show ?thesis
    by (auto simp: EIO_def ERESTARTSYS_def)
qed

lemma sample_round:
  assumes "extends (wld sample_io) (wld s)" "\<not> e_lock (eng s)"
    and "\<forall>u\<in>set (e_transfer_list (eng s)). xfers s u \<noteq> None \<and> u < next_xfer s"
  shows "\<exists>s' y. aio_round sample_env 5 True 0x1000 16 0 True 16 s = Inr s' \<and> \<not> e_lock (eng s')
    \<and> (\<forall>u\<in>set (e_transfer_list (eng s')). xfers s' u \<noteq> None \<and> u < next_xfer s') \<and> next_xfer s' = next_xfer s + 1
    \<and> extends (wld sample_io) (wld s') \<and> xfers s' = (xfers s)(next_xfer s \<mapsto> y) \<and> unat (t_desc_bus y) mod 32 = 0
    \<and> e_streaming (eng s') = e_streaming (eng s) \<and> e_non_incr_addr (eng s') = e_non_incr_addr (eng s)
    \<and> e_addr_align (eng s') = e_addr_align (eng s)"
proof -
  from assms(1) obtain l where "wld s = wld sample_io\<lparr>w_log := l\<rparr>" by (auto simp: extends_def)
  with sample_created_at obtain x w where
    c: "transfer_create sample_grants 0x1000 16 0 True False False True (wld s) = Inr (Some x, w)" "t_desc_num x = 1"
      "unat (t_desc_bus x) mod 32 = 0" by metis
  let ?x = "mark_last True 16 (x\<lparr>t_iocb := Some 5\<rparr>)"
  let ?s = "new_xfer (Some ?x) w s"
  have x: "xfers ?s (next_xfer s) = Some ?x" "0 < t_desc_num ?x" "\<not> e_lock (eng ?s)"
      "\<forall>u\<in>set (e_transfer_list (eng ?s)). xfers ?s u \<noteq> None"
    using c assms(2,3) by (auto simp: new_xfer_def mark_last_def)
  from queue_outcome [OF x] obtain rc s' where q: "transfer_queue (next_xfer s) ?s = Inr (rc, s')" by blast
  have "aio_round sample_env 5 True 0x1000 16 0 True 16 s = Inr s'"
    using c q by (simp add: aio_round_def sample_env_def Let_def)
  moreover have "extends (wld sample_io) (wld s')"
    using assms(1) create_extends [OF c(1)] queue_keeps(5) [OF q] by (auto simp: new_xfer_def intro: extends_trans)
  ultimately show ?thesis
    using transfer_queue_frame [OF q] queue_next [OF q] queue_keeps [OF q] c(3) assms(3)
    by (fastforce simp: new_xfer_def mark_last_def)
qed

lemma sample_aio:
  "\<exists>s'. sg_aio_read_write sample_env 5 [(0x1000, 16), (0x1000, 16)] 0 True sample_io = Inr (- EIOCBQUEUED, s')
     \<and> map_option (\<lambda>x. unat (t_desc_bus x) mod 32) (xfers s' 9) = Some 0
     \<and> map_option (\<lambda>x. unat (t_desc_bus x) mod 32) (xfers s' 10) = Some 0"
proof -
  have i: "e_magic (eng sample_io) = MAGIC_ENGINE" "\<not> e_streaming (eng sample_io)" "\<not> e_non_incr_addr (eng sample_io)"
      "e_addr_align (eng sample_io) = 1" "\<not> e_lock (eng sample_io)" "e_transfer_list (eng sample_io) = []"
      "next_xfer sample_io = 9"
    by (simp_all add: sample_io_def sample_state_def sample_engine_def)
  have "\<forall>u\<in>set (e_transfer_list (eng sample_io)). xfers sample_io u \<noteq> None \<and> u < next_xfer sample_io" by (simp add: i)
  from sample_round [OF extends_refl i(5) this] obtain s1 y1 where
    s1: "aio_round sample_env 5 True 0x1000 16 0 True 16 sample_io = Inr s1" "\<not> e_lock (eng s1)"
      "\<forall>u\<in>set (e_transfer_list (eng s1)). xfers s1 u \<noteq> None \<and> u < next_xfer s1" "next_xfer s1 = next_xfer sample_io + 1"
      "extends (wld sample_io) (wld s1)" "xfers s1 = (xfers sample_io)(next_xfer sample_io \<mapsto> y1)" "unat (t_desc_bus y1) mod 32 = 0"
      "e_streaming (eng s1) = e_streaming (eng sample_io)" "e_non_incr_addr (eng s1) = e_non_incr_addr (eng sample_io)"
      "e_addr_align (eng s1) = e_addr_align (eng sample_io)"
    by (elim exE conjE) (rule that)
  from sample_round [OF s1(5,2,3)] obtain s2 y2 where
    s2: "aio_round sample_env 5 True 0x1000 16 0 True 16 s1 = Inr s2" "xfers s2 = (xfers s1)(next_xfer s1 \<mapsto> y2)"
      "unat (t_desc_bus y2) mod 32 = 0" by (elim exE conjE) (rule that)
  have "sg_aio_read_write sample_env 5 [(0x1000, 16), (0x1000, 16)] 0 True sample_io = Inr (- EIOCBQUEUED, s2)"
    using i s1 s2(1) by (simp add: sg_aio_read_write_def check_magic_def check_transfer_align_def aio_segment_small
        XDMA_TRANSFER_MAX_BYTES_def)
  then show ?thesis using s1(4,6,7) s2(2,3) i(7) by auto
qed

theorem aio_segments_collide_witness:
  "\<exists>s' x1 x2. sg_aio_read_write sample_env 5 [(0x1000, 16), (0x1000, 16)] 0 True sample_io = Inr (- EIOCBQUEUED, s')
     \<and> xfers s' 9 = Some x1 \<and> xfers s' 10 = Some x2 \<and> t_last_in_request x1 \<and> t_last_in_request x2"
proof -
  obtain s' where s: "sg_aio_read_write sample_env 5 [(0x1000, 16), (0x1000, 16)] 0 True sample_io = Inr (- EIOCBQUEUED, s')"
     "map_option (\<lambda>x. unat (t_desc_bus x) mod 32) (xfers s' 9) = Some 0"
     "map_option (\<lambda>x. unat (t_desc_bus x) mod 32) (xfers s' 10) = Some 0"
    using sample_aio by (elim exE conjE) (rule that)
  have n: "next_xfer sample_io = 9" by (simp add: sample_io_def sample_state_def)
  have "\<forall>t i. unat (snd (k_dma (s_grants sample_env t) i)) \<le> PAGE_SIZE"
    by (simp add: sample_env_def sample_grants_def PAGE_SIZE_def)
  from aio_segments_collide [OF s(1) _ _ _ _ this] s(2,3) show ?thesis
    unfolding n by (auto simp: s(1) XDMA_TRANSFER_MAX_BYTES_def)
qed

end
