(* ===== verification/Xdma_Ioctl.thy ===== *)
theory Xdma_Ioctl
  imports Xdma_Data
begin

unbundle bit_operations_syntax

text \<open>
  The ioctl interface of an engine's character device in driver/xdma-core.c: performance
  measurements on a cyclic transfer of the driver's own, the addressing mode, and the
  alignment; with them the reading of the alignment register. The lemmas give the loop of
  descriptors a measurement runs on and the runs that go wrong.
\<close>

subsection \<open>Alignments\<close>

definition engine_alignments :: "engine_state \<Rightarrow> engine_state" where
  "engine_alignments s =
     (let (w, s) = read_reg (e_regs (eng s) + er R_alignments) s;
          align_bytes = drop_bit 16 (w AND 0x00ff0000);
          granularity_bytes = drop_bit 8 (w AND 0x0000ff00);
          address_bits = w AND 0x000000ff
      in if w \<noteq> 0
         then upd_eng (\<lambda>e. e\<lparr>e_addr_align := align_bytes, e_len_granularity := granularity_bytes,
                e_addr_bits := address_bits\<rparr>) s
         else upd_eng (\<lambda>e. e\<lparr>e_addr_align := 1, e_len_granularity := 1, e_addr_bits := 64\<rparr>) s)"

subsection \<open>Performance measurements\<close>

definition IOCTL_XDMA_PERF_V1 :: u32 where "IOCTL_XDMA_PERF_V1 = 1"
definition EPROTO :: int where "EPROTO = 71"

definition get_perf_stats :: "engine_state \<Rightarrow> engine_state run" where
  "get_perf_stats s =
     bindr (bug_on (e_xdma_perf (eng s) = None)) (\<lambda>_.
       let regs = e_regs (eng s);
           (lo, s) = read_reg (regs + er R_completed_desc_count) s;
           s = upd_eng (e_xdma_perf_update (map_option (p_iterations_update (\<lambda>_. ucast (build_u64 0 (ucast lo)))))) s;
           (hi, s) = read_reg (regs + er R_perf_cyc_hi) s;
           (lo, s) = read_reg (regs + er R_perf_cyc_lo) s;
           s = upd_eng (e_xdma_perf_update (map_option (p_clock_cycle_count_update (\<lambda>_. build_u64 (ucast hi) (ucast lo))))) s;
           (hi, s) = read_reg (regs + er R_perf_dat_hi) s;
           (lo, s) = read_reg (regs + er R_perf_dat_lo) s;
           s = upd_eng (e_xdma_perf_update (map_option (p_data_cycle_count_update (\<lambda>_. build_u64 (ucast hi) (ucast lo))))) s;
           (hi, s) = read_reg (regs + er R_perf_pnd_hi) s;
           (lo, s) = read_reg (regs + er R_perf_pnd_lo) s
       in Inr (upd_eng (e_xdma_perf_update (map_option (p_pending_count_update (\<lambda>_. build_u64 (ucast hi) (ucast lo))))) s))"

text \<open>
  The transfer a measurement runs on; the sizes are C \<open>int\<close>s that the code compares with a
  \<open>u32\<close>, so the comparisons are unsigned. The result is the list of descriptors.
\<close>

definition max_consistent_size :: u32 where "max_consistent_size = 128 * 32 * 1024"

definition perf_loop_size :: "u32 \<Rightarrow> u32 \<times> nat" where
  "perf_loop_size size_in_desc =
     (let size = size_in_desc * 128 in
      if size > max_consistent_size then (max_consistent_size, unat (max_consistent_size div size_in_desc))
      else (size, 128))"

definition perf_descs :: "bool \<Rightarrow> u32 \<Rightarrow> u64 \<Rightarrow> nat \<Rightarrow> u64 \<Rightarrow> xdma_desc list \<Rightarrow> xdma_desc list run" where
  "perf_descs dir_to_dev size_in_desc buffer_bus desc_num desc_bus ds =
     bindr (for_loop desc_num 0 (\<lambda>i. array_mod i (\<lambda>d.
       Inr (xdma_desc_set d (buffer_bus + of_nat (unat size_in_desc * i)) 0 size_in_desc dir_to_dev))) ds) (\<lambda>ds.
     bindr (array_mod 0 (\<lambda>d. xdma_desc_control d 0) ds) (\<lambda>ds.
       array_mod (desc_num - 1) (\<lambda>d. Inr (xdma_desc_link d (Some desc_bus))) ds))"

definition xdma_performance_submit :: "(nat \<Rightarrow> xdma_desc) \<Rightarrow> engine_state \<Rightarrow> engine_state run" where
  "xdma_performance_submit fresh s = (case e_xdma_perf (eng s) of
       None \<Rightarrow> Inl NullDeref
     | Some p \<Rightarrow>
       let size_in_desc = p_transfer_size p in
       bindr (bug_on (size_in_desc > max_consistent_size)) (\<lambda>_.
       let (size', desc_num) = perf_loop_size size_in_desc;
           buffer_bus = w_addr (wld s) (w_log (wld s));
           s = upd_wld (kcall0 (Pci_alloc_consistent (unat size'))) s;
           (p, w) = kcall (Kzalloc 2) (wld s)
       in
       bindr (bug_on (p = 0)) (\<lambda>_.
       bindr (xdma_desc_alloc fresh (int desc_num) w) (\<lambda>(mem, w).
       bindr (case mem of None \<Rightarrow> Inl BugOn | Some m \<Rightarrow> Inr m) (\<lambda>(ds, bus).
       bindr (perf_descs (e_dir_to_dev (eng s)) size_in_desc buffer_bus desc_num bus ds) (\<lambda>ds.
       let x = new_transfer\<lparr>t_dir_to_dev := e_dir_to_dev (eng s), t_desc_num := desc_num,
                 t_desc_virt := Some ds, t_desc_bus := bus, t_cyclic := True\<rparr>
       in bindr (transfer_queue (next_xfer s) (new_xfer (Some x) w s)) (\<lambda>(_, s). Inr s)))))))"

text \<open>
  \<open>user\<close> is what \<open>copy_from_user\<close> leaves in the kernel's structure; its result is a count
  of bytes and never negative.
\<close>

definition ioctl_do_perf_start ::
  "(nat \<Rightarrow> xdma_desc) \<Rightarrow> xdma_performance \<Rightarrow> u64 \<Rightarrow> engine_state \<Rightarrow> (int \<times> engine_state) run" where
  "ioctl_do_perf_start fresh user arg s =
     (if e_xdma_perf (eng s) \<noteq> None then Inr (- EBUSY, s)
      else
        let (p, w) = kcall (Kzalloc 3) (wld s); s = s\<lparr>wld := w\<rparr> in
        if p = 0 then Inr (- ENOMEM, s)
        else
          let s = upd_wld (kcall0 (Copy_from_user 0 arg 40)) (upd_eng (e_xdma_perf_update (\<lambda>_. Some user)) s) in
          if p_version user \<noteq> IOCTL_XDMA_PERF_V1 then Inr (- EINVAL, s)
          else
            let regs = e_regs (eng s);
                s = write_reg XDMA_PERF_CLEAR (regs + er R_perf_ctrl) s;
                s = snd (read_reg (regs + er R_identifier) s);
                s = write_reg (XDMA_PERF_AUTO OR XDMA_PERF_RUN) (regs + er R_perf_ctrl) s;
                s = snd (read_reg (regs + er R_identifier) s)
            in bindr (xdma_performance_submit fresh s) (\<lambda>s. Inr (0, s)))"

definition ioctl_do_perf_stop :: "u64 \<Rightarrow> engine_state \<Rightarrow> (int \<times> engine_state) run" where
  "ioctl_do_perf_stop arg s =
     (if e_xdma_perf (eng s) = None then Inr (- EINVAL, s)
      else
        bindr (engine_cyclic_stop s) (\<lambda>(_, s).
        bindr (get_perf_stats s) (\<lambda>s.
        let (rc, w) = kcall (Copy_to_user arg 0 40) (wld s); s = s\<lparr>wld := w\<rparr> in
        if rc \<noteq> 0 then Inr (- EINVAL, s)
        else Inr (0, upd_eng (e_xdma_perf_update (\<lambda>_. None)) (upd_wld (kcall0 (Kfree 3)) s)))))"

definition ioctl_do_perf_get :: "u64 \<Rightarrow> engine_state \<Rightarrow> (int \<times> engine_state) run" where
  "ioctl_do_perf_get arg s =
     (if e_xdma_perf (eng s) = None then Inr (- EPROTO, s)
      else
        bindr (get_perf_stats s) (\<lambda>s.
        let (rc, w) = kcall (Copy_to_user arg 0 40) (wld s); s = s\<lparr>wld := w\<rparr> in
        Inr (if rc \<noteq> 0 then - EINVAL else 0, s)))"

subsection \<open>Addressing mode and alignment\<close>

definition ioctl_do_addrmode_set :: "u64 \<Rightarrow> u64 \<Rightarrow> engine_state \<Rightarrow> int \<times> engine_state" where
  "ioctl_do_addrmode_set dst arg s =
     (let (rc, w) = kcall (Get_user arg) (wld s); s = s\<lparr>wld := w\<rparr>;
          s = (if rc = 0
               then write_reg XDMA_CTRL_NON_INCR_ADDR
                      (e_regs (eng s) + er (if dst \<noteq> 0 then R_control_w1s else R_control_w1c))
                      (upd_eng (e_non_incr_addr_update (\<lambda>_. dst \<noteq> 0)) s)
               else s)
      in (rc, engine_alignments s))"

definition ioctl_do_addrmode_get :: "u64 \<Rightarrow> engine_state \<Rightarrow> int \<times> engine_state" where
  "ioctl_do_addrmode_get arg s =
     (let (rc, w) = kcall (Put_user arg (if e_non_incr_addr (eng s) then 1 else 0)) (wld s) in (rc, s\<lparr>wld := w\<rparr>))"

definition ioctl_do_align_get :: "u64 \<Rightarrow> engine_state \<Rightarrow> int \<times> engine_state" where
  "ioctl_do_align_get arg s =
     (let (rc, w) = kcall (Put_user arg (sint (e_addr_align (eng s)))) (wld s) in (rc, s\<lparr>wld := w\<rparr>))"

datatype sgdma_cmd =
    IOCTL_XDMA_PERF_START | IOCTL_XDMA_PERF_STOP | IOCTL_XDMA_PERF_GET
  | IOCTL_XDMA_ADDRMODE_SET | IOCTL_XDMA_ADDRMODE_GET | IOCTL_XDMA_ALIGN_GET | Other_cmd u32

definition char_sgdma_ioctl ::
  "(nat \<Rightarrow> xdma_desc) \<Rightarrow> xdma_performance \<Rightarrow> u64 \<Rightarrow> sgdma_cmd \<Rightarrow> u64 \<Rightarrow> engine_state \<Rightarrow> (int \<times> engine_state) run" where
  "char_sgdma_ioctl fresh user dst cmd arg s = (case cmd of
       IOCTL_XDMA_PERF_START \<Rightarrow> ioctl_do_perf_start fresh user arg s
     | IOCTL_XDMA_PERF_STOP \<Rightarrow> ioctl_do_perf_stop arg s
     | IOCTL_XDMA_PERF_GET \<Rightarrow> ioctl_do_perf_get arg s
     | IOCTL_XDMA_ADDRMODE_SET \<Rightarrow> Inr (ioctl_do_addrmode_set dst arg s)
     | IOCTL_XDMA_ADDRMODE_GET \<Rightarrow> Inr (ioctl_do_addrmode_get arg s)
     | IOCTL_XDMA_ALIGN_GET \<Rightarrow> Inr (ioctl_do_align_get arg s)
     | Other_cmd _ \<Rightarrow> Inr (- EINVAL, s))"

subsection \<open>Reading and writing\<close>

text \<open>The read and write operations of the device, which choose between packets and transfers.\<close>

definition char_sgdma_write ::
  "surroundings \<Rightarrow> u64 \<Rightarrow> u64 \<Rightarrow> u64 \<Rightarrow> engine_state \<Rightarrow> (int \<times> u64 \<times> engine_state) run" where
  "char_sgdma_write e buf count pos s = char_sgdma_read_write e buf count pos True s"

definition char_sgdma_read ::
  "surroundings \<Rightarrow> waiting list list \<Rightarrow> u64 \<Rightarrow> u64 \<Rightarrow> u64 \<Rightarrow> engine_state \<Rightarrow> (int \<times> u64 \<times> engine_state) run" where
  "char_sgdma_read e wss buf count pos s =
     bindr (check_magic s) (\<lambda>_.
       if \<not> e_dir_to_dev (eng s) \<and> e_rx_buffer (eng s) \<noteq> 0 \<and> e_rx_transfer_cyclic (eng s) \<noteq> None
       then bindr (char_sgdma_read_cyclic wss buf s) (\<lambda>(rc, s). Inr (rc, pos, s))
       else char_sgdma_read_write e buf count pos False s)"

subsection \<open>A measurement stays in its buffer\<close>

lemma perf_loop_fits:
  assumes "size' \<le> max_consistent_size" "perf_loop_size size' = (bytes, n)"
  shows "0 < n" "n \<le> 128" "unat size' * n \<le> unat bytes" "unat bytes \<le> 4194304"
proof -
  have m: "unat max_consistent_size = 4194304" by (simp add: max_consistent_size_def)
  have s: "unat size' \<le> 4194304" using assms(1) m by (simp add: word_le_nat_alt)
  have p: "unat (size' * 128) = unat size' * 128" using s by (simp add: unat_word_ariths)
  have "0 < n \<and> n \<le> 128 \<and> unat size' * n \<le> unat bytes \<and> unat bytes \<le> 4194304"
  proof (cases "size' * 128 > max_consistent_size")
    case True
    then have b: "bytes = max_consistent_size" "n = 4194304 div unat size'"
      using assms(2) m by (simp_all add: perf_loop_size_def Let_def unat_div)
    from True have big: "4194304 < unat size' * 128" using p m by (simp add: word_less_nat_alt)
    then have pos: "0 < unat size'" by (cases "unat size' = 0") simp_all
    have "4194304 div unat size' \<le> 128"
      using big pos by (intro less_imp_le) (simp add: div_less_iff_less_mult mult.commute)
    moreover have "1 \<le> 4194304 div unat size'" using s pos by (simp add: Suc_le_eq div_greater_zero_iff)
    ultimately show ?thesis using b m by (simp add: mult.commute)
  next
    case False
    then have "bytes = size' * 128" "n = 128" using assms(2) by (simp_all add: perf_loop_size_def Let_def split: if_splits)
    then show ?thesis using False p m by (simp add: not_less word_le_nat_alt)
  qed
  then show "0 < n" "n \<le> 128" "unat size' * n \<le> unat bytes" "unat bytes \<le> 4194304" by auto
qed

text \<open>
  The descriptors of a performance measurement of up to 4 MB each are a loop of at most
  128, each of the requested size, and the memory they move stays inside the buffer of at
  most 4 MB that was allocated for them.
\<close>

theorem perf_descs_in_buffer:
  assumes "size' \<le> max_consistent_size" "perf_loop_size size' = (bytes, n)" "length ds = n"
  shows "\<exists>ds'. perf_descs dir size' buf n bus ds = Inr ds' \<and> length ds' = n \<and> 0 < n \<and> n \<le> 128
    \<and> unat bytes \<le> 4194304 \<and> desc_next (ds' ! (n - 1)) = bus
    \<and> (\<forall>i<n. desc_rc dir (ds' ! i) = buf + of_nat (unat size' * i) \<and> desc_ep dir (ds' ! i) = 0
         \<and> desc_len (ds' ! i) = unat size' \<and> unat size' * i + unat size' \<le> unat bytes)"
proof -
  note fit = perf_loop_fits [OF assms(1,2)]
  define ds1 where "ds1 = map (\<lambda>i. xdma_desc_set (ds ! i) (buf + of_nat (unat size' * i)) 0 size' dir) [0..<n]"
  have loop: "for_loop n 0 (\<lambda>i. array_mod i (\<lambda>d.
       Inr (xdma_desc_set d (buf + of_nat (unat size' * i)) 0 size' dir))) ds = Inr ds1"
    using for_loop_array [of 0 n ds "\<lambda>i d. Inr (xdma_desc_set d (buf + of_nat (unat size' * i)) 0 size' dir)"
        "\<lambda>i d. xdma_desc_set d (buf + of_nat (unat size' * i)) 0 size' dir"] assms(3)
    by (simp add: ds1_def)
  have l1: "length ds1 = n" by (simp add: ds1_def)
  obtain d0 where d0: "xdma_desc_control (ds1 ! 0) 0 = Inr d0" by (simp add: xdma_desc_control_def)
  define ds2 where "ds2 = ds1[0 := d0]"
  define ds3 where "ds3 = ds2[n - 1 := xdma_desc_link (ds2 ! (n - 1)) (Some bus)]"
  have l2: "length ds2 = n" by (simp add: ds2_def l1)
  have run: "perf_descs dir size' buf n bus ds = Inr ds3"
    using loop l1 l2 fit(1) d0 by (simp add: perf_descs_def ds2_def ds3_def)
  have f1: "desc_rc dir (ds1 ! i) = buf + of_nat (unat size' * i) \<and> desc_ep dir (ds1 ! i) = 0
      \<and> desc_len (ds1 ! i) = unat size'" if "i < n" for i
    using that by (simp add: ds1_def)
  have f2: "desc_rc dir (ds2 ! i) = buf + of_nat (unat size' * i) \<and> desc_ep dir (ds2 ! i) = 0
      \<and> desc_len (ds2 ! i) = unat size'" if "i < n" for i
    using f1 [OF that] control_keeps_addr [OF d0] that l1 by (cases "i = 0") (simp_all add: ds2_def)
  have f3: "desc_rc dir (ds3 ! i) = buf + of_nat (unat size' * i) \<and> desc_ep dir (ds3 ! i) = 0
      \<and> desc_len (ds3 ! i) = unat size'" if "i < n" for i
    using f2 [OF that] that l2 by (cases "i = n - 1") (simp_all add: ds3_def link_last_keeps)
  have "unat size' * i + unat size' \<le> unat bytes" if "i < n" for i
  proof -
    have "unat size' * (i + 1) \<le> unat size' * n" using that by (intro mult_le_mono2) simp
    then show ?thesis using fit(3) by simp
  qed
  moreover have "desc_next (ds3 ! (n - 1)) = bus" using l2 fit(1) by (simp add: ds3_def link_fields)
  ultimately show ?thesis using run fit f3 l2 by (auto simp: ds3_def)
qed

subsection \<open>Requests that go wrong\<close>

text \<open>
  A user who may open the device can stop the kernel: a measurement with a transfer
  size above 4 MB runs into a BUG_ON, whatever the state of the engine.
\<close>

theorem perf_start_size_bug:
  assumes "e_xdma_perf (eng s) = None" "w_kern (wld s) (w_log (wld s)) (Kzalloc 3) \<noteq> 0"
    and "p_version user = IOCTL_XDMA_PERF_V1" "unat (p_transfer_size user) > 4194304"
  shows "char_sgdma_ioctl fresh user dst IOCTL_XDMA_PERF_START arg s = Inl BugOn"
proof -
  have "p_transfer_size user > max_consistent_size"
    using assms(4) by (simp add: max_consistent_size_def word_less_nat_alt)
  then show ?thesis using assms
    by (simp add: char_sgdma_ioctl_def ioctl_do_perf_start_def kcall_def Let_def xdma_performance_submit_def)
qed

text \<open>
  A start with a wrong version number is refused, but it leaves the measurement's structure
  behind: every later start finds the engine busy.
\<close>

lemma perf_start_version_busy:
  assumes "e_xdma_perf (eng s) = None" "w_kern (wld s) (w_log (wld s)) (Kzalloc 3) \<noteq> 0"
    and "p_version user \<noteq> IOCTL_XDMA_PERF_V1"
  shows "\<exists>s'. ioctl_do_perf_start fresh user arg s = Inr (- EINVAL, s')
    \<and> ioctl_do_perf_start fresh' user' arg' s' = Inr (- EBUSY, s')"
  using assms by (simp add: ioctl_do_perf_start_def kcall_def Let_def)

subsection \<open>The addressing mode\<close>

lemma alignments_sel [simp]:
  "xfers (engine_alignments s) = xfers s" "par (engine_alignments s) = par s"
  "wld (engine_alignments s) = emit (Rd (e_regs (eng s) + er R_alignments)) (wld s)"
  by (simp_all add: engine_alignments_def Let_def split_beta)

lemma alignments_eng:
  assumes "w_dev (wld s) (w_log (wld s)) (e_regs (eng s) + er R_alignments) = v" "v \<noteq> 0"
  shows "eng (engine_alignments s) = (eng s)\<lparr>e_addr_align := drop_bit 16 (v AND 0x00ff0000),
    e_len_granularity := drop_bit 8 (v AND 0x0000ff00), e_addr_bits := v AND 0x000000ff\<rparr>"
  unfolding engine_alignments_def Let_def split_beta using assms by simp

text \<open>
  Setting the addressing mode and reading it back gives the mode that was set; the
  device is told by one write to the set or the clear register, and the three fields of
  the alignment register, when it is not zero, become the engine's alignment, granularity
  and address width.
\<close>

theorem addrmode_round_trip:
  assumes "ioctl_do_addrmode_set dst arg s = (rc, s')" "rc = 0"
    and "\<forall>es. w_dev (wld s) es (e_regs (eng s) + er R_alignments) =
           push_bit 16 (ucast (a :: u8)) OR push_bit 8 (ucast (g :: u8)) OR ucast (b :: u8)"
    and "(a, g, b) \<noteq> (0, 0, 0)"
  shows "e_non_incr_addr (eng s') = (dst \<noteq> 0)
    \<and> writes (w_log (wld s')) = writes (w_log (wld s))
        @ [(e_regs (eng s) + er (if dst \<noteq> 0 then R_control_w1s else R_control_w1c), XDMA_CTRL_NON_INCR_ADDR)]
    \<and> e_addr_align (eng s') = ucast a \<and> e_len_granularity (eng s') = ucast g \<and> e_addr_bits (eng s') = ucast b
    \<and> (\<exists>w. ioctl_do_addrmode_get arg' s' = (w, snd (ioctl_do_addrmode_get arg' s'))
         \<and> w_log (wld (snd (ioctl_do_addrmode_get arg' s'))) =
             w_log (wld s') @ [Call (Put_user arg' (if dst \<noteq> 0 then 1 else 0))])"
proof -
  let ?w = "push_bit 16 (ucast a) OR push_bit 8 (ucast g) OR ucast b :: u32"
  have m: "(0x00ff0000 :: u32) = push_bit 16 (mask 8)" "(0x0000ff00 :: u32) = push_bit 8 (mask 8)"
      "(0x000000ff :: u32) = mask 8" by (simp_all add: mask_eq_decr_exp)
  have f: "drop_bit 16 (?w AND 0x00ff0000) = ucast a" "drop_bit 8 (?w AND 0x0000ff00) = ucast g"
      "?w AND 0x000000ff = ucast b"
    unfolding m by (rule bit_word_eqI; auto simp: bit_simps dest: bit_imp_le_length)+
  have nz: "?w \<noteq> 0"
  proof
    assume "?w = 0"
    then have "(ucast a :: u32) = 0" "(ucast g :: u32) = 0" "(ucast b :: u32) = 0" using f by simp_all
    moreover have "x = 0" if "(ucast x :: u32) = 0" for x :: u8
    proof -
      have "x = ucast (ucast x :: u32)" by (rule bit_word_eqI) (auto simp: bit_simps)
      also have "\<dots> = 0" by (simp only: that unsigned_0)
      finally show ?thesis .
    qed
    ultimately show False using assms(4) by blast
  qed
  define s1 where "s1 = write_reg XDMA_CTRL_NON_INCR_ADDR (e_regs (eng s) + er (if dst \<noteq> 0 then R_control_w1s else R_control_w1c))
    (upd_eng (e_non_incr_addr_update (\<lambda>_. dst \<noteq> 0)) (s\<lparr>wld := emit (Call (Get_user arg)) (wld s)\<rparr>))"
  have s': "s' = engine_alignments s1"
    using assms(1,2) by (auto simp: ioctl_do_addrmode_set_def kcall_def Let_def s1_def)
  have "w_dev (wld s1) (w_log (wld s1)) (e_regs (eng s1) + er R_alignments) = ?w"
    using assms(3) by (simp add: s1_def del: er_offsets)
  note al = alignments_eng [OF this nz]
  have e: "eng s' = (eng s1)\<lparr>e_addr_align := ucast a, e_len_granularity := ucast g, e_addr_bits := ucast b\<rparr>"
    unfolding s' al f ..
  have "writes (w_log (wld s')) = writes (w_log (wld s))
        @ [(e_regs (eng s) + er (if dst \<noteq> 0 then R_control_w1s else R_control_w1c), XDMA_CTRL_NON_INCR_ADDR)]"
    by (simp add: s' s1_def emit_def)
  then show ?thesis
    by (simp add: e ioctl_do_addrmode_get_def kcall_def Let_def) (simp add: s1_def)
qed

subsection \<open>Concrete runs\<close>

definition sample_perf :: "u32 \<Rightarrow> xdma_performance" where
  "sample_perf n = \<lparr>p_version = 1, p_transfer_size = n, p_stopped = 0, p_iterations = 0,
     p_clock_cycle_count = 0, p_data_cycle_count = 0, p_pending_count = 0\<rparr>"

theorem perf_descs_in_buffer_witness:
  "\<exists>ds'. perf_descs True 0x200000 0x8000 2 0x40 [zero_desc, zero_desc] = Inr ds'
     \<and> desc_rc True (ds' ! 1) = 0x208000 \<and> desc_next (ds' ! 1) = 0x40"
proof -
  have "perf_loop_size 0x200000 = (0x400000, 2)" "(0x200000 :: u32) \<le> max_consistent_size"
    by (simp_all add: perf_loop_size_def max_consistent_size_def)
  from perf_descs_in_buffer [OF this(2,1), of "[zero_desc, zero_desc]" True "0x8000" "0x40"]
  obtain ds' where "perf_descs True 0x200000 0x8000 2 0x40 [zero_desc, zero_desc] = Inr ds'"
    "desc_next (ds' ! 1) = 0x40" "\<forall>i<2. desc_rc True (ds' ! i) = 0x8000 + of_nat (unat (0x200000 :: u32) * i)"
    by auto
  then show ?thesis by auto
qed

theorem perf_start_size_bug_witness:
  "char_sgdma_ioctl (\<lambda>_. zero_desc) (sample_perf 0x400001) 0 IOCTL_XDMA_PERF_START 0x7000 sample_state = Inl BugOn"
  by (rule perf_start_size_bug)
    (simp_all add: sample_perf_def sample_state_def sample_engine_def idle_world_def IOCTL_XDMA_PERF_V1_def)

theorem addrmode_round_trip_witness:
  "\<exists>s'. ioctl_do_addrmode_set 1 0x7000 (sample_state\<lparr>wld := idle_world\<lparr>w_dev := (\<lambda>_ _. 0x40101), w_kern := (\<lambda>_ _. 0)\<rparr>\<rparr>)
      = (0, s') \<and> e_non_incr_addr (eng s') \<and> e_addr_align (eng s') = 4"
proof -
  let ?s = "sample_state\<lparr>wld := idle_world\<lparr>w_dev := (\<lambda>_ _. 0x40101), w_kern := (\<lambda>_ _. 0)\<rparr>\<rparr>"
  obtain rc s' where r: "ioctl_do_addrmode_set 1 0x7000 ?s = (rc, s')" by fastforce
  then have "rc = 0" by (auto simp: ioctl_do_addrmode_set_def kcall_def Let_def)
  with addrmode_round_trip [OF r, of 4 1 1] r show ?thesis by simp
qed

end
