(* ===== verification/Kernel_Ledger.thy ===== *)
theory Kernel_Ledger
  imports Kernel_World
begin

text \<open>
  What a driver holds of the kernel's resources, read off the log: a call that succeeds
  takes a resource, a call that gives it back releases it. The balance of a resource is
  the number of times it was taken minus the number of times it was released. A driver
  that cleans up leaves every balance as it found it; a negative change is a release of
  something that was never taken.
\<close>

datatype resource =
    R_device | R_msix | R_msi | R_regions | R_bar u64 | R_irq s32
  | R_chrdev nat nat nat | R_cdev nat nat | R_node nat nat | R_file

text \<open>What one call with the given result does to the balance of a resource.\<close>

fun gain :: "service \<Rightarrow> int \<Rightarrow> resource \<Rightarrow> int" where
  "gain Pci_enable_device r x = of_bool (r = 0 \<and> x = R_device)"
| "gain Pci_disable_device r x = - of_bool (x = R_device)"
| "gain (Pci_enable_msix n) r x = of_bool (r = 0 \<and> x = R_msix)"
| "gain Pci_disable_msix r x = - of_bool (x = R_msix)"
| "gain Pci_enable_msi r x = of_bool (r = 0 \<and> x = R_msi)"
| "gain Pci_disable_msi r x = - of_bool (x = R_msi)"
| "gain Pci_request_regions r x = of_bool (r = 0 \<and> x = R_regions)"
| "gain Pci_release_regions r x = - of_bool (x = R_regions)"
| "gain (Pci_iomap i n) r x = of_bool ((word_of_int r :: u64) \<noteq> 0 \<and> x = R_bar (word_of_int r))"
| "gain (Pci_iounmap a) r x = - of_bool (x = R_bar a)"
| "gain (Request_irq v) r x = of_bool (r = 0 \<and> x = R_irq v)"
| "gain (Free_irq v) r x = - of_bool (x = R_irq v)"
| "gain (Register_chrdev_region a b n) r x = of_bool (0 \<le> r \<and> x = R_chrdev a b n)"
| "gain (Unregister_chrdev_region a b n) r x = - of_bool (x = R_chrdev a b n)"
| "gain (Cdev_add a b n) r x = of_bool (0 \<le> r \<and> x = R_cdev a b)"
| "gain (Cdev_del a b) r x = - of_bool (x = R_cdev a b)"
| "gain (Device_create a b) r x = of_bool (r \<noteq> 0 \<and> x = R_node a b)"
| "gain (Device_destroy a b) r x = - of_bool (x = R_node a b)"
| "gain Device_create_file r x = of_bool (r = 0 \<and> x = R_file)"
| "gain Device_remove_file r x = - of_bool (x = R_file)"
| "gain _ r x = 0"

definition event_gain :: "event \<Rightarrow> int \<Rightarrow> resource \<Rightarrow> int" where
  "event_gain e r x = (case e of Call c \<Rightarrow> gain c r x | _ \<Rightarrow> 0)"

definition call_result :: "world \<Rightarrow> nat \<Rightarrow> int" where
  "call_result w i = (case w_log w ! i of Call c \<Rightarrow> w_kern w (take i (w_log w)) c | _ \<Rightarrow> 0)"

definition balance :: "world \<Rightarrow> resource \<Rightarrow> int" where
  "balance w x = (\<Sum>i\<leftarrow>[0..<length (w_log w)]. event_gain (w_log w ! i) (call_result w i) x)"

lemma balance_emit:
  "balance (emit e w) x = balance w x
     + event_gain e (case e of Call c \<Rightarrow> w_kern w (w_log w) c | _ \<Rightarrow> 0) x"
proof -
  have "(\<Sum>i\<leftarrow>[0..<length (w_log w)]. event_gain ((w_log w @ [e]) ! i) (call_result (emit e w) i) x) = balance w x"
    unfolding balance_def
    by (rule arg_cong [of _ _ sum_list], rule map_cong) (simp_all add: call_result_def nth_append split: event.split)
  moreover have "call_result (emit e w) (length (w_log w)) = (case e of Call c \<Rightarrow> w_kern w (w_log w) c | _ \<Rightarrow> 0)"
    by (simp add: call_result_def split: event.split)
  ultimately show ?thesis by (simp add: balance_def [of "emit e w"])
qed

lemma balance_register [simp]:
  "balance (write_register v a w) x = balance w x" "balance (snd (read_register a w)) x = balance w x"
  by (simp_all add: write_register_def read_register_def balance_emit event_gain_def)

lemma balance_kcall: "balance (snd (kcall c w)) x = balance w x + gain c (fst (kcall c w)) x"
  by (simp add: kcall_def balance_emit event_gain_def)

lemma balance_kcall0: "balance (kcall0 c w) x = balance w x + gain c (w_kern w (w_log w) c) x"
  by (simp add: kcall0_def balance_emit event_gain_def)

lemma balance_emit_other [simp]:
  "balance (emit (Wake q) w) x = balance w x" "balance (emit (Schedule_work n) w) x = balance w x"
  "balance (emit (Wr8 a v) w) x = balance w x" "balance (emit (Aio_complete i n') w) x = balance w x"
  by (simp_all add: balance_emit event_gain_def)

end
