(* ===== verification/Xdma_Device.thy ===== *)
theory Xdma_Device
  imports Kernel_Ledger Xdma_Ioctl "HOL-Library.Multiset"
begin

unbundle bit_operations_syntax

text \<open>
  The device structure of driver/xdma-core.c and include/xdma-core.h, the mapping of the
  device's BARs into kernel memory, and the interrupt handlers. Engines and character
  devices live in heaps and are named by numbers, like transfers; the device structure
  holds their names, as the code holds pointers.

  The lemmas show that the mapping of the BARs finds the configuration BAR or leaves
  nothing mapped, and that an interrupt schedules exactly the work of the engines that
  raised it.
\<close>

subsection \<open>The device structure\<close>

text \<open>An event of the user logic: \<open>q_events_lock\<close> tells whether its spin lock is taken.\<close>

record xdma_irq =
  q_events_irq :: u8
  q_events_lock :: bool

record xdma_char =
  c_major :: nat
  c_minor :: nat
  c_bar :: int
  c_engine :: "nat option"
  c_user_irq :: "nat option"
  c_sys_device :: bool

text \<open>
  The tables of engines and of their character devices have an index for the channel and
  one for the direction (0 to the device, 1 from it); the loops over them run over the
  declared dimensions.
\<close>

record xdma_dev =
  d_major :: nat
  d_instance :: nat
  d_user_char_dev :: "nat option"
  d_ctrl_char_dev :: "nat option"
  d_bypass_char_dev :: "nat \<Rightarrow> nat \<Rightarrow> nat option"
  d_bypass_char_dev_base :: "nat option"
  d_sgdma_char_dev :: "nat \<Rightarrow> nat \<Rightarrow> nat option"
  d_events_char_dev :: "nat \<Rightarrow> nat option"
  d_bar :: "iomem list"
  d_user_bar_idx :: int
  d_config_bar_idx :: int
  d_bypass_bar_idx :: int
  d_regions_in_use :: bool
  d_got_regions :: bool
  d_irq_count :: s32
  d_irq_line :: s32
  d_msi_enabled :: bool
  d_msix_enabled :: bool
  d_irq_user_count :: nat
  d_entry :: "s32 list"
  d_user_irq :: "xdma_irq list"
  d_engines_num :: int
  d_engine :: "nat \<Rightarrow> nat \<Rightarrow> nat option"

text \<open>What the driver reads of the kernel's \<open>struct pci_dev\<close>.\<close>

record pci_dev =
  pd_start :: "nat \<Rightarrow> u64"
  pd_end :: "nat \<Rightarrow> u64"
  pd_len :: "nat \<Rightarrow> u64"
  pd_irq :: s32
  pd_no_msi :: bool
  pd_bus_no_msi :: "bool list"

text \<open>
  The device with the heaps, the module's variables (\<open>dev_present\<close>, \<open>major\<close>, the parameters
  and whether \<open>g_xdma_class\<close> exists) and the world.
\<close>

record device =
  dv :: xdma_dev
  engs :: "nat \<Rightarrow> xdma_engine option"
  chars :: "nat \<Rightarrow> xdma_char option"
  next_obj :: nat
  dev_xfers :: "nat \<Rightarrow> xdma_transfer option"
  dev_next_xfer :: nat
  dev_present :: "bool list"
  major :: nat
  g_xdma_class :: bool
  dpar :: module_params
  dwld :: world
  pci :: pci_dev

definition upd_dv :: "(xdma_dev \<Rightarrow> xdma_dev) \<Rightarrow> device \<Rightarrow> device" where
  "upd_dv f d = d\<lparr>dv := f (dv d)\<rparr>"

definition upd_dwld :: "(world \<Rightarrow> world) \<Rightarrow> device \<Rightarrow> device" where
  "upd_dwld f d = d\<lparr>dwld := f (dwld d)\<rparr>"

definition dread :: "iomem \<Rightarrow> device \<Rightarrow> u32 \<times> device" where
  "dread a d = (let (v, w) = read_register a (dwld d) in (v, d\<lparr>dwld := w\<rparr>))"

definition dwrite :: "u32 \<Rightarrow> iomem \<Rightarrow> device \<Rightarrow> device" where
  "dwrite v a = upd_dwld (write_register v a)"

definition dcall :: "service \<Rightarrow> device \<Rightarrow> int \<times> device" where
  "dcall c d = (let (r, w) = kcall c (dwld d) in (r, d\<lparr>dwld := w\<rparr>))"

definition dcall0 :: "service \<Rightarrow> device \<Rightarrow> device" where
  "dcall0 c = upd_dwld (kcall0 c)"

definition engine_at :: "nat \<Rightarrow> device \<Rightarrow> xdma_engine run" where
  "engine_at n d = (case engs d n of None \<Rightarrow> Inl UseAfterFree | Some e \<Rightarrow> Inr e)"

definition char_at :: "nat \<Rightarrow> device \<Rightarrow> xdma_char run" where
  "char_at n d = (case chars d n of None \<Rightarrow> Inl UseAfterFree | Some c \<Rightarrow> Inr c)"

text \<open>A pointer into a BAR: the index may be out of the table, the BAR may be unmapped.\<close>

definition bar_ptr :: "int \<Rightarrow> device \<Rightarrow> iomem run" where
  "bar_ptr i d = (if i < 0 then Inl OutOfBounds
     else bindr (array_get (d_bar (dv d)) (nat i)) (\<lambda>a. if a = 0 then Inl NullDeref else Inr a))"

definition config_ptr :: "device \<Rightarrow> iomem run" where
  "config_ptr d = bar_ptr (d_config_bar_idx (dv d)) d"

text \<open>An operation on one engine, run on the device: the engine's own state is a view.\<close>

definition with_engine :: "nat \<Rightarrow> (engine_state \<Rightarrow> ('a \<times> engine_state) run) \<Rightarrow> device \<Rightarrow> ('a \<times> device) run" where
  "with_engine n f d =
     bindr (engine_at n d) (\<lambda>e.
     bindr (config_ptr d) (\<lambda>cfg.
     bindr (f \<lparr>eng = e, xfers = dev_xfers d, next_xfer = dev_next_xfer d, wld = dwld d,
              par = (dpar d)\<lparr>msix_enabled := d_msix_enabled (dv d), config_bar := cfg\<rparr>\<rparr>) (\<lambda>(r, s).
       Inr (r, d\<lparr>engs := (engs d)(n \<mapsto> eng s), dev_xfers := xfers s, dev_next_xfer := next_xfer s, dwld := wld s\<rparr>))))"

subsection \<open>Mapping the BARs\<close>

definition INT_MAX :: u64 where "INT_MAX = 0x7FFFFFFF"

definition set_bar :: "nat \<Rightarrow> iomem \<Rightarrow> device \<Rightarrow> device run" where
  "set_bar i a d = bindr (array_upd i (\<lambda>_. a) (d_bar (dv d))) (\<lambda>bs. Inr (upd_dv (d_bar_update (\<lambda>_. bs)) d))"

definition unmap_bar :: "nat \<Rightarrow> device \<Rightarrow> device run" where
  "unmap_bar i d = bindr (array_get (d_bar (dv d)) i) (\<lambda>a.
     if a \<noteq> 0 then set_bar i 0 (dcall0 (Pci_iounmap a) d) else Inr d)"

definition unmap_bars :: "device \<Rightarrow> device run" where
  "unmap_bars = for_loop XDMA_BAR_NUM 0 unmap_bar"

definition map_single_bar :: "nat \<Rightarrow> device \<Rightarrow> (int \<times> device) run" where
  "map_single_bar idx d =
     (let bar_len = pd_len (pci d) idx in
      bindr (set_bar idx 0 d) (\<lambda>d.
        if bar_len = 0 then Inr (0, d)
        else
          let map_len = (if bar_len > INT_MAX then INT_MAX else bar_len);
              (p, d) = dcall (Pci_iomap idx map_len) d
          in bindr (set_bar idx (word_of_int p) d) (\<lambda>d.
               if (word_of_int p :: iomem) = 0 then Inr (- 1, d)
               else Inr (sint (ucast map_len :: s32), d))))"

definition is_config_bar :: "nat \<Rightarrow> device \<Rightarrow> (bool \<times> device) run" where
  "is_config_bar idx d =
     bindr (bar_ptr (int idx) d) (\<lambda>bar.
       let (irq_id, d) = dread (bar + XDMA_OFS_INT_CTRL + ir R_identifier) d;
           (cfg_id, d) = dread (bar + XDMA_OFS_CONFIG + cr R_identifier) d
       in Inr (irq_id AND 0xffff0000 = IRQ_BLOCK_ID \<and> cfg_id AND 0xffff0000 = CONFIG_BLOCK_ID, d))"

definition identify_bars :: "nat list \<Rightarrow> nat \<Rightarrow> device \<Rightarrow> device" where
  "identify_bars bar_id_list config_bar_pos d =
     (if length bar_id_list = 2 then
        if config_bar_pos = 0 then upd_dv (d_bypass_bar_idx_update (\<lambda>_. int (bar_id_list ! 1))) d
        else if config_bar_pos = 1 then upd_dv (d_user_bar_idx_update (\<lambda>_. int (bar_id_list ! 0))) d
        else d
      else if length bar_id_list = 3 then
        if config_bar_pos = 1
        then upd_dv (\<lambda>v. v\<lparr>d_user_bar_idx := int (bar_id_list ! 0), d_bypass_bar_idx := int (bar_id_list ! 2)\<rparr>) d
        else d
      else d)"

text \<open>
  The loop over the BARs: whether all went well, the indices of the BARs found, the
  position of the configuration BAR among them.
\<close>

fun map_bars_loop :: "nat \<Rightarrow> nat \<Rightarrow> nat list \<Rightarrow> nat \<Rightarrow> device \<Rightarrow> (bool \<times> nat list \<times> nat \<times> device) run" where
  "map_bars_loop 0 i bar_ids pos d = Inr (True, bar_ids, pos, d)"
| "map_bars_loop (Suc k) i bar_ids pos d =
     bindr (map_single_bar i d) (\<lambda>(bar_len, d).
       if bar_len = 0 then map_bars_loop k (Suc i) bar_ids pos d
       else if bar_len < 0 then Inr (False, bar_ids, pos, d)
       else bindr (if int XDMA_BAR_SIZE \<le> bar_len \<and> d_config_bar_idx (dv d) < 0
                   then bindr (is_config_bar i d) (\<lambda>(flag, d).
                     Inr (if flag then (length bar_ids, upd_dv (d_config_bar_idx_update (\<lambda>_. int i)) d) else (pos, d)))
                   else Inr (pos, d)) (\<lambda>(pos, d).
            map_bars_loop k (Suc i) (bar_ids @ [i]) pos d))"

definition map_bars :: "device \<Rightarrow> (int \<times> device) run" where
  "map_bars d =
     bindr (map_bars_loop XDMA_BAR_NUM 0 [] 0 d) (\<lambda>(ok, bar_ids, pos, d).
       if \<not> ok \<or> d_config_bar_idx (dv d) < 0
       then bindr (unmap_bars d) (\<lambda>d. Inr (- 1, d))
       else Inr (0, identify_bars bar_ids pos d))"

subsection \<open>Interrupts\<close>

definition lock_irq :: "nat \<Rightarrow> device \<Rightarrow> device run" where
  "lock_irq i d = bindr (array_get (d_user_irq (dv d)) i) (\<lambda>q.
     if q_events_lock q then Inl Deadlock
     else Inr (upd_dv (d_user_irq_update (\<lambda>qs. qs[i := q\<lparr>q_events_lock := True\<rparr>])) d))"

definition unlock_irq :: "nat \<Rightarrow> device \<Rightarrow> device run" where
  "unlock_irq i d = bindr (array_upd i (q_events_lock_update (\<lambda>_. False)) (d_user_irq (dv d))) (\<lambda>qs.
     Inr (upd_dv (d_user_irq_update (\<lambda>_. qs)) d))"

definition user_irq_service :: "nat \<Rightarrow> device \<Rightarrow> device run" where
  "user_irq_service i d =
     bindr (lock_irq i d) (\<lambda>d.
     bindr (array_get (d_user_irq (dv d)) i) (\<lambda>q.
       unlock_irq i
         (if q_events_irq q = 0
          then upd_dwld (emit (Wake (Wq_event i)))
                 (upd_dv (d_user_irq_update (\<lambda>qs. qs[i := q\<lparr>q_events_irq := 1\<rparr>])) d)
          else d)))"

definition schedule_work :: "nat \<Rightarrow> device \<Rightarrow> device" where
  "schedule_work n = upd_dwld (emit (Schedule_work n))"

text \<open>The engine of a table entry is present and its interrupt fired.\<close>

definition isr_engine :: "nat \<Rightarrow> u32 \<Rightarrow> nat \<Rightarrow> device \<Rightarrow> device run" where
  "isr_engine dir ch_irq channel d = (case d_engine (dv d) channel dir of
       None \<Rightarrow> Inr d
     | Some n \<Rightarrow> bindr (engine_at n d) (\<lambda>e.
         Inr (if e_irq_bitmask e AND ch_irq \<noteq> 0 then schedule_work n d else d)))"

definition xdma_isr :: "device \<Rightarrow> device run" where
  "xdma_isr d =
     bindr (config_ptr d) (\<lambda>cfg.
       let irq_regs = cfg + XDMA_OFS_INT_CTRL;
           (ch_irq, d) = dread (irq_regs + ir R_channel_int_request) d;
           d = upd_dwld (channel_interrupts_disable cfg ch_irq) d;
           (user_irq, d) = dread (irq_regs + ir R_user_int_request) d
       in
       bindr (for_loop MAX_USER_IRQ 0 (\<lambda>i d. if user_irq AND push_bit i 1 \<noteq> 0 then user_irq_service i d else Inr d) d) (\<lambda>d.
       bindr (for_loop XDMA_CHANNEL_NUM_MAX 0 (isr_engine 0 ch_irq) d) (\<lambda>d.
       bindr (for_loop XDMA_CHANNEL_NUM_MAX 0 (isr_engine 1 ch_irq) d) (\<lambda>d.
         Inr (upd_dv (d_irq_count_update (\<lambda>c. c + 1)) d)))))"

definition xdma_user_irq :: "nat \<Rightarrow> device \<Rightarrow> device run" where
  "xdma_user_irq = user_irq_service"

definition xdma_channel_irq :: "nat \<Rightarrow> device \<Rightarrow> device run" where
  "xdma_channel_irq n d =
     bindr (engine_at n d) (\<lambda>e.
     bindr (config_ptr d) (\<lambda>cfg.
       let irq_regs = cfg + XDMA_OFS_INT_CTRL;
           (v, d) = dread (e_regs e + er R_interrupt_enable_mask) d;
           d = d\<lparr>engs := (engs d)(n \<mapsto> e\<lparr>e_interrupt_enable_mask_value := v\<rparr>)\<rparr>;
           d = dwrite v (e_regs e + er R_interrupt_enable_mask_w1c) d;
           d = snd (dread (irq_regs + ir R_channel_int_pending) d);
           d = schedule_work n d
       in Inr (upd_dv (d_irq_count_update (\<lambda>c. c + 1)) d)))"

text \<open>The deferred work of an engine, which the handlers schedule.\<close>

definition engine_work :: "(u32 \<times> xdma_result list) list \<Rightarrow> nat \<Rightarrow> device \<Rightarrow> device run" where
  "engine_work obs n d =
     bindr (with_engine n (\<lambda>s. bindr (engine_service_work obs s) (\<lambda>s. Inr ((), s))) d) (\<lambda>(_, d). Inr d)"

subsection \<open>Reading the state\<close>

lemma upd_dv_sel [simp]:
  "dv (upd_dv f d) = f (dv d)" "engs (upd_dv f d) = engs d" "chars (upd_dv f d) = chars d"
  "next_obj (upd_dv f d) = next_obj d" "dev_xfers (upd_dv f d) = dev_xfers d" "dev_next_xfer (upd_dv f d) = dev_next_xfer d"
  "dev_present (upd_dv f d) = dev_present d" "major (upd_dv f d) = major d" "g_xdma_class (upd_dv f d) = g_xdma_class d"
  "dpar (upd_dv f d) = dpar d" "dwld (upd_dv f d) = dwld d" "pci (upd_dv f d) = pci d"
  by (simp_all add: upd_dv_def)

lemma upd_dwld_sel [simp]:
  "dv (upd_dwld f d) = dv d" "engs (upd_dwld f d) = engs d" "chars (upd_dwld f d) = chars d"
  "next_obj (upd_dwld f d) = next_obj d" "dev_xfers (upd_dwld f d) = dev_xfers d" "dev_next_xfer (upd_dwld f d) = dev_next_xfer d"
  "dev_present (upd_dwld f d) = dev_present d" "major (upd_dwld f d) = major d" "g_xdma_class (upd_dwld f d) = g_xdma_class d"
  "dpar (upd_dwld f d) = dpar d" "dwld (upd_dwld f d) = f (dwld d)" "pci (upd_dwld f d) = pci d"
  by (simp_all add: upd_dwld_def)

lemma dwrite_eq: "dwrite v a d = upd_dwld (write_register v a) d"
  by (simp add: dwrite_def)

lemma dread_eq: "dread a d = (w_dev (dwld d) (w_log (dwld d)) a, upd_dwld (emit (Rd a)) d)"
  by (simp add: dread_def read_register_def upd_dwld_def)

lemma dcall_eq: "dcall c d = (w_kern (dwld d) (w_log (dwld d)) c, upd_dwld (emit (Call c)) d)"
  by (simp add: dcall_def kcall_def upd_dwld_def)

lemma dcall0_eq: "dcall0 c d = upd_dwld (emit (Call c)) d"
  by (simp add: dcall0_def upd_dwld_def kcall0_def)

lemma balance_call: "balance (emit (Call c) w) x = balance w x + gain c (w_kern w (w_log w) c) x"
  by (simp add: balance_emit event_gain_def)

lemma balance_Rd [simp]: "balance (emit (Rd a) w) x = balance w x"
  by (simp add: balance_emit event_gain_def)

subsection \<open>The BARs are accounted for\<close>

text \<open>The mappings the table holds, and the invariant that the ledger agrees with it.\<close>

definition bars_held :: "device \<Rightarrow> resource \<Rightarrow> int" where
  "bars_held d x = (case x of R_bar a \<Rightarrow> if a = 0 then 0 else int (count (mset (d_bar (dv d))) a) | _ \<Rightarrow> 0)"

definition bar_ledger :: "(resource \<Rightarrow> int) \<Rightarrow> device \<Rightarrow> bool" where
  "bar_ledger base d \<longleftrightarrow> length (d_bar (dv d)) = XDMA_BAR_NUM \<and> (\<forall>x. balance (dwld d) x = base x + bars_held d x)"

definition put_bar :: "nat \<Rightarrow> iomem \<Rightarrow> device \<Rightarrow> device" where
  "put_bar i a = upd_dv (d_bar_update (\<lambda>bs. bs[i := a]))"

lemma set_bar_in [simp]: "i < length (d_bar (dv d)) \<Longrightarrow> set_bar i a d = Inr (put_bar i a d)"
  by (simp add: set_bar_def put_bar_def upd_dv_def)

lemma put_bar_sel [simp]:
  "d_bar (dv (put_bar i a d)) = (d_bar (dv d))[i := a]" "dwld (put_bar i a d) = dwld d"
  "d_config_bar_idx (dv (put_bar i a d)) = d_config_bar_idx (dv d)"
  "d_user_bar_idx (dv (put_bar i a d)) = d_user_bar_idx (dv d)"
  "d_bypass_bar_idx (dv (put_bar i a d)) = d_bypass_bar_idx (dv d)" "pci (put_bar i a d) = pci d"
  by (simp_all add: put_bar_def)

lemma held_put_bar:
  assumes "i < length (d_bar (dv d))"
  shows "bars_held (put_bar i a d) x = bars_held d x
    + (of_bool (a \<noteq> 0 \<and> x = R_bar a) - of_bool (d_bar (dv d) ! i \<noteq> 0 \<and> x = R_bar (d_bar (dv d) ! i)))"
proof -
  let ?b = "d_bar (dv d)"
  have "0 < count (mset ?b) (?b ! i)" using assms by simp
  moreover have "mset (?b[i := a]) = add_mset a (mset ?b - {#?b ! i#})" using assms by (simp add: mset_update)
  ultimately show ?thesis by (auto simp: bars_held_def split: resource.splits)
qed

lemma held_cong: "d_bar (dv d') = d_bar (dv d) \<Longrightarrow> bars_held d' x = bars_held d x"
  by (simp add: bars_held_def split: resource.split)

text \<open>What mapping and unmapping leave alone.\<close>

definition but_bars :: "device \<Rightarrow> device" where
  "but_bars d = d\<lparr>dv := (dv d)\<lparr>d_bar := []\<rparr>, dwld := idle_world\<rparr>"

lemma but_bars_same [simp]:
  "but_bars (put_bar i a d) = but_bars d" "but_bars (upd_dwld f d) = but_bars d"
  by (simp_all add: but_bars_def put_bar_def upd_dv_def upd_dwld_def)

lemma but_bars_sel:
  "d_config_bar_idx (dv (but_bars d)) = d_config_bar_idx (dv d)" "d_user_bar_idx (dv (but_bars d)) = d_user_bar_idx (dv d)"
  "d_bypass_bar_idx (dv (but_bars d)) = d_bypass_bar_idx (dv d)" "pci (but_bars d) = pci d" "engs (but_bars d) = engs d"
  by (simp_all add: but_bars_def)

lemma but_barsD:
  assumes "but_bars d' = but_bars d"
  shows "d_config_bar_idx (dv d') = d_config_bar_idx (dv d)" "d_user_bar_idx (dv d') = d_user_bar_idx (dv d)"
    "d_bypass_bar_idx (dv d') = d_bypass_bar_idx (dv d)" "pci d' = pci d" "engs d' = engs d"
  using assms by (metis but_bars_sel)+

lemma unmap_bar_ok:
  assumes "bar_ledger base d" "i < XDMA_BAR_NUM"
  shows "\<exists>d'. unmap_bar i d = Inr d' \<and> bar_ledger base d' \<and> d_bar (dv d') = (d_bar (dv d))[i := 0] \<and> but_bars d' = but_bars d"
proof -
  let ?a = "d_bar (dv d) ! i"
  have i: "i < length (d_bar (dv d))" using assms by (simp add: bar_ledger_def)
  show ?thesis
  proof (cases "?a = 0")
    case True
    then have "(d_bar (dv d))[i := 0] = d_bar (dv d)" using i by (metis list_update_id)
    then show ?thesis using i True assms by (simp add: unmap_bar_def)
  next
    case False
    let ?d = "upd_dwld (emit (Call (Pci_iounmap ?a))) d"
    have "unmap_bar i d = Inr (put_bar i 0 ?d)" using i False by (simp add: unmap_bar_def dcall0_eq)
    moreover have "bar_ledger base (put_bar i 0 ?d)"
      using assms i False held_put_bar [of i ?d 0] by (auto simp: bar_ledger_def balance_call held_cong [of ?d d])
    ultimately show ?thesis by simp
  qed
qed

lemma unmap_bars_ok:
  assumes "bar_ledger base d"
  shows "\<exists>d'. unmap_bars d = Inr d' \<and> d_bar (dv d') = replicate XDMA_BAR_NUM 0
    \<and> (\<forall>x. balance (dwld d') x = base x) \<and> but_bars d' = but_bars d"
proof -
  let ?P = "\<lambda>j u. bar_ledger base u \<and> but_bars u = but_bars d \<and> (\<forall>i<j. d_bar (dv u) ! i = 0)"
  have "\<exists>d'. for_loop XDMA_BAR_NUM 0 unmap_bar d = Inr d' \<and> ?P (0 + XDMA_BAR_NUM) d'"
  proof (rule for_loop_total)
    show "?P 0 d" using assms by simp
  next
    fix j u
    assume j: "0 \<le> j" "j < 0 + XDMA_BAR_NUM" and u: "?P j u"
    from unmap_bar_ok [of base u j] j u obtain v where
      v: "unmap_bar j u = Inr v" "bar_ledger base v" "d_bar (dv v) = (d_bar (dv u))[j := 0]" "but_bars v = but_bars u" by auto
    moreover have "d_bar (dv v) ! i = 0" if "i < Suc j" for i
      using that u j v(3) by (cases "i = j") (auto simp: bar_ledger_def nth_list_update)
    ultimately show "\<exists>v. unmap_bar j u = Inr v \<and> ?P (Suc j) v"
      using u by simp
  qed
  then obtain d' where d': "unmap_bars d = Inr d'" "bar_ledger base d'" "but_bars d' = but_bars d"
    "\<forall>i<XDMA_BAR_NUM. d_bar (dv d') ! i = 0" by (auto simp: unmap_bars_def)
  have z: "d_bar (dv d') = replicate XDMA_BAR_NUM 0"
    using d'(2,4) by (auto intro!: nth_equalityI simp: bar_ledger_def)
  then have "bars_held d' x = 0" for x by (auto simp: bars_held_def split: resource.splits)
  then show ?thesis using d' z by (auto simp: bar_ledger_def)
qed

text \<open>What the search for the configuration BAR keeps while it maps.\<close>

definition found_bars :: "nat \<Rightarrow> nat list \<Rightarrow> nat \<Rightarrow> device \<Rightarrow> bool" where
  "found_bars i ids pos d \<longleftrightarrow>
     sorted_wrt (<) ids \<and> (\<forall>j\<in>set ids. j < i \<and> d_bar (dv d) ! j \<noteq> 0)
     \<and> (\<forall>j. i \<le> j \<longrightarrow> j < XDMA_BAR_NUM \<longrightarrow> d_bar (dv d) ! j = 0)
     \<and> (d_config_bar_idx (dv d) = - 1
        \<or> pos < length ids \<and> d_config_bar_idx (dv d) = int (ids ! pos) \<and> XDMA_BAR_SIZE \<le> unat (pd_len (pci d) (ids ! pos)))"

lemma map_single_bar_ok:
  assumes "bar_ledger base d" "i < XDMA_BAR_NUM" "d_bar (dv d) ! i = 0"
  shows "\<exists>n d'. map_single_bar i d = Inr (n, d') \<and> bar_ledger base d' \<and> but_bars d' = but_bars d
    \<and> (\<exists>a. d_bar (dv d') = (d_bar (dv d))[i := a]
        \<and> (n = 0 \<and> a = 0 \<or> n < 0 \<and> a = 0 \<or> 0 < n \<and> a \<noteq> 0 \<and> n \<le> int (unat (pd_len (pci d) i))))"
proof -
  let ?l = "pd_len (pci d) i" and ?b = "d_bar (dv d)"
  have i: "i < length ?b" using assms(1,2) by (simp add: bar_ledger_def)
  have z: "?b[i := 0] = ?b" using assms(3) by (metis list_update_id)
  let ?d0 = "put_bar i 0 d"
  have l0: "bar_ledger base ?d0" using assms(1) z by (simp add: bar_ledger_def held_cong [of ?d0 d])
  show ?thesis
  proof (cases "?l = 0")
    case True
    then have "map_single_bar i d = Inr (0, ?d0)" using i by (simp add: map_single_bar_def)
    then show ?thesis using l0 by auto
  next
    case False
    define m where "m = (if ?l > INT_MAX then INT_MAX else ?l)"
    define n where "n = unat m"
    have m: "n < 2 ^ 31" "0 < n" "n \<le> unat ?l"
      unfolding n_def using False by (auto simp: m_def INT_MAX_def word_less_nat_alt word_le_nat_alt not_less unat_gt_0 split: if_splits)
    then have s: "sint (ucast m :: s32) = int n"
      unfolding n_def by (subst sint_small) (simp_all add: unat_ucast_small)
    let ?p = "w_kern (dwld d) (w_log (dwld d)) (Pci_iomap i m)"
    let ?a = "word_of_int ?p :: iomem"
    let ?d1 = "upd_dwld (emit (Call (Pci_iomap i m))) ?d0"
    let ?d2 = "put_bar i ?a ?d1"
    have run: "map_single_bar i d = Inr (if ?a = 0 then - 1 else int n, ?d2)"
      using i False by (simp add: map_single_bar_def dcall_eq Let_def s flip: m_def)
    have "bar_ledger base ?d2"
      using l0 i assms(3) held_put_bar [of i ?d1 ?a]
      by (auto simp: bar_ledger_def balance_call held_cong [of ?d1 ?d0])
    moreover have "d_bar (dv ?d2) = (d_bar (dv d))[i := ?a]" by simp
    moreover have "but_bars ?d2 = but_bars d" by simp
    ultimately show ?thesis using run m
      by (cases "?a = 0") (force simp del: of_nat_unat)+
  qed
qed

lemma is_config_bar_ok:
  assumes "i < length (d_bar (dv d))" "d_bar (dv d) ! i \<noteq> 0"
  shows "\<exists>b d'. is_config_bar i d = Inr (b, d') \<and> dv d' = dv d \<and> pci d' = pci d
    \<and> (\<forall>x. balance (dwld d') x = balance (dwld d) x)"
  using assms by (auto simp: is_config_bar_def bar_ptr_def dread_eq Let_def)

lemma found_bars_add:
  assumes "found_bars i ids pos d" "d_bar (dv d') = (d_bar (dv d))[i := a]" "a \<noteq> 0" "i < XDMA_BAR_NUM"
    "length (d_bar (dv d)) = XDMA_BAR_NUM" "d_config_bar_idx (dv d') = d_config_bar_idx (dv d)" "pci d' = pci d"
  shows "found_bars (Suc i) (ids @ [i]) pos d'"
  using assms by (auto simp: found_bars_def sorted_wrt_append nth_list_update nth_append)

lemma map_bars_loop_ok:
  assumes "bar_ledger base d" "found_bars i ids pos d" "i + k = XDMA_BAR_NUM"
  shows "\<exists>ok ids' pos' d'. map_bars_loop k i ids pos d = Inr (ok, ids', pos', d')
    \<and> bar_ledger base d' \<and> pci d' = pci d \<and> (ok \<longrightarrow> found_bars XDMA_BAR_NUM ids' pos' d')
    \<and> d_user_bar_idx (dv d') = d_user_bar_idx (dv d) \<and> d_bypass_bar_idx (dv d') = d_bypass_bar_idx (dv d)"
  using assms
proof (induction k arbitrary: i ids pos d)
  case (Suc k)
  have i: "i < XDMA_BAR_NUM" "Suc i + k = XDMA_BAR_NUM" using Suc.prems(3) by simp_all
  have len: "length (d_bar (dv d)) = XDMA_BAR_NUM" using Suc.prems(1) by (simp add: bar_ledger_def)
  have zero: "d_bar (dv d) ! i = 0" using Suc.prems(2) i by (simp add: found_bars_def)
  from map_single_bar_ok [OF Suc.prems(1) i(1) zero] obtain n d1 a where
    m: "map_single_bar i d = Inr (n, d1)" "bar_ledger base d1" "but_bars d1 = but_bars d"
      "d_bar (dv d1) = (d_bar (dv d))[i := a]"
    and n: "n = 0 \<and> a = 0 \<or> n < 0 \<and> a = 0 \<or> 0 < n \<and> a \<noteq> 0 \<and> n \<le> int (unat (pd_len (pci d) i))"
    by blast
  note k = but_barsD [OF m(3)]
  from n consider "n = 0" "a = 0" | "n < 0" | "0 < n" "a \<noteq> 0" "n \<le> int (unat (pd_len (pci d) i))" by blast
  then show ?case
  proof cases
    case 1
    have "d_bar (dv d1) = d_bar (dv d)" using m(4) 1 zero by (metis list_update_id)
    then have "found_bars (Suc i) ids pos d1" using Suc.prems(2) k by (auto simp: found_bars_def)
    from Suc.IH [OF m(2) this i(2)] show ?thesis using m(1) 1 k by simp
  next
    case 2
    then show ?thesis using m k by (auto intro: exI [of _ False])
  next
    case 3
    note f1 = found_bars_add [OF Suc.prems(2) m(4) 3(2) i(1) len k(1,4)]
    have len1: "length (d_bar (dv d1)) = XDMA_BAR_NUM" and a1: "d_bar (dv d1) ! i \<noteq> 0"
      using m(4) 3(2) len i(1) by simp_all
    show ?thesis
    proof (cases "int XDMA_BAR_SIZE \<le> n \<and> d_config_bar_idx (dv d1) < 0")
      case False
      have "map_bars_loop (Suc k) i ids pos d = map_bars_loop k (Suc i) (ids @ [i]) pos d1"
        using m(1) 3(1) False by auto
      with Suc.IH [OF m(2) f1 i(2)] show ?thesis using k by simp
    next
      case True
      obtain b d2 where b: "is_config_bar i d1 = Inr (b, d2)" "dv d2 = dv d1" "pci d2 = pci d1"
        "\<forall>x. balance (dwld d2) x = balance (dwld d1) x"
        using is_config_bar_ok [of i d1] len1 a1 i(1) by auto
      let ?d3 = "if b then upd_dv (d_config_bar_idx_update (\<lambda>_. int i)) d2 else d2"
      let ?pos = "if b then length ids else pos"
      have l3: "bar_ledger base ?d3"
        using m(2) b by (auto simp: bar_ledger_def held_cong [of ?d3 d1] held_cong [of d2 d1])
      have big: "XDMA_BAR_SIZE \<le> unat (pd_len (pci d) i)" using 3(3) True by linarith
      have f3: "found_bars (Suc i) (ids @ [i]) ?pos ?d3"
        using f1 b big True k by (auto simp: found_bars_def nth_append split: if_splits)
      have "map_bars_loop (Suc k) i ids pos d = map_bars_loop k (Suc i) (ids @ [i]) ?pos ?d3"
        using m(1) 3(1) True b(1) by auto
      with Suc.IH [OF l3 f3 i(2)] show ?thesis using k b by (cases b) simp_all
    qed
  qed
qed auto

lemma map_bars_ok:
  assumes "d_bar (dv d) = replicate XDMA_BAR_NUM 0"
    "d_config_bar_idx (dv d) = - 1" "d_user_bar_idx (dv d) = - 1" "d_bypass_bar_idx (dv d) = - 1"
  shows "\<exists>rc d'. map_bars d = Inr (rc, d') \<and>
    (rc = - 1 \<and> d_bar (dv d') = replicate XDMA_BAR_NUM 0 \<and> (\<forall>x. balance (dwld d') x = balance (dwld d) x)
     \<or> rc = 0 \<and> (\<forall>x. balance (dwld d') x = balance (dwld d) x + bars_held d' x)
       \<and> (\<exists>c<XDMA_BAR_NUM. d_config_bar_idx (dv d') = int c \<and> d_bar (dv d') ! c \<noteq> 0
            \<and> XDMA_BAR_SIZE \<le> unat (pd_len (pci d) c)
            \<and> (d_user_bar_idx (dv d') = - 1 \<or> (\<exists>u<c. d_user_bar_idx (dv d') = int u \<and> d_bar (dv d') ! u \<noteq> 0))
            \<and> (d_bypass_bar_idx (dv d') = - 1
               \<or> (\<exists>b. c < b \<and> b < XDMA_BAR_NUM \<and> d_bypass_bar_idx (dv d') = int b \<and> d_bar (dv d') ! b \<noteq> 0))))"
proof -
  have l: "bar_ledger (balance (dwld d)) d" using assms(1) by (auto simp: bar_ledger_def bars_held_def split: resource.splits)
  have f: "found_bars 0 [] 0 d" using assms(1,2) by (simp add: found_bars_def)
  from map_bars_loop_ok [OF l f, of XDMA_BAR_NUM] obtain ok ids pos d1 where
    r: "map_bars_loop XDMA_BAR_NUM 0 [] 0 d = Inr (ok, ids, pos, d1)"
    and l1: "bar_ledger (balance (dwld d)) d1"
    and k: "pci d1 = pci d" "d_user_bar_idx (dv d1) = - 1" "d_bypass_bar_idx (dv d1) = - 1"
    and f1: "ok \<longrightarrow> found_bars XDMA_BAR_NUM ids pos d1"
    by (auto simp: assms(3,4) intro: that)
  show ?thesis
  proof (cases "\<not> ok \<or> d_config_bar_idx (dv d1) < 0")
    case True
    obtain d' where "unmap_bars d1 = Inr d'" "d_bar (dv d') = replicate XDMA_BAR_NUM 0"
      "\<forall>x. balance (dwld d') x = balance (dwld d) x"
      using unmap_bars_ok [OF l1] by (elim exE conjE) (rule that)
    then show ?thesis using r True by (simp add: map_bars_def)
  next
    case False
    let ?d' = "identify_bars ids pos d1"
    have b: "d_bar (dv ?d') = d_bar (dv d1)" "dwld ?d' = dwld d1"
        "d_config_bar_idx (dv ?d') = d_config_bar_idx (dv d1)"
      by (simp_all add: identify_bars_def)
    have "map_bars d = Inr (0, ?d')" using r False by (simp add: map_bars_def)
    moreover have "\<forall>x. balance (dwld ?d') x = balance (dwld d) x + bars_held ?d' x"
      using l1 b by (simp add: bar_ledger_def held_cong [of ?d' d1])
    moreover have w: "sorted_wrt (<) ids" "\<forall>j\<in>set ids. j < XDMA_BAR_NUM \<and> d_bar (dv d1) ! j \<noteq> 0"
        "pos < length ids" "d_config_bar_idx (dv d1) = int (ids ! pos)" "XDMA_BAR_SIZE \<le> unat (pd_len (pci d) (ids ! pos))"
      using f1 False k(1) by (auto simp: found_bars_def)
    have m: "ids ! q < XDMA_BAR_NUM \<and> d_bar (dv d1) ! (ids ! q) \<noteq> 0" if "q < length ids" for q
      using w(2) nth_mem [OF that] by blast
    have "d_user_bar_idx (dv ?d') = - 1 \<or> (0 < pos \<and> d_user_bar_idx (dv ?d') = int (ids ! 0))"
      using k by (simp add: identify_bars_def)
    then have u: "d_user_bar_idx (dv ?d') = - 1
        \<or> (\<exists>u<ids ! pos. d_user_bar_idx (dv ?d') = int u \<and> d_bar (dv ?d') ! u \<noteq> 0)"
      using sorted_wrt_nth_less [OF w(1), of 0 pos] w(3) m [of 0] unfolding b(1) by fastforce
    have "d_bypass_bar_idx (dv ?d') = - 1
        \<or> (\<exists>q. pos < q \<and> q < length ids \<and> d_bypass_bar_idx (dv ?d') = int (ids ! q))"
      using k by (auto simp: identify_bars_def intro: exI [of _ 1] exI [of _ 2])
    then have "d_bypass_bar_idx (dv ?d') = - 1
        \<or> (\<exists>q. ids ! pos < q \<and> q < XDMA_BAR_NUM \<and> d_bypass_bar_idx (dv ?d') = int q \<and> d_bar (dv ?d') ! q \<noteq> 0)"
      using sorted_wrt_nth_less [OF w(1)] m unfolding b(1) by blast
    ultimately show ?thesis using u w(4,5) m [OF w(3)] b(1,3) by auto
  qed
qed

text \<open>
  C23: Mapping the BARs of a fresh device either fails, and then nothing stays mapped, or
  it succeeds, and then the configuration BAR is known, it is mapped and at least 32 KB
  long, the BARs of the user logic and of the bypass, if any, are mapped and lie before and
  after it, and what was taken from the kernel is exactly what the table of BARs holds.
\<close>

theorem map_bars_outcome:
  assumes "d_bar (dv d) = replicate XDMA_BAR_NUM 0"
    "d_config_bar_idx (dv d) = - 1" "d_user_bar_idx (dv d) = - 1" "d_bypass_bar_idx (dv d) = - 1"
  shows "\<exists>rc d'. map_bars d = Inr (rc, d') \<and>
    (rc = - 1 \<and> d_bar (dv d') = replicate XDMA_BAR_NUM 0 \<and> (\<forall>x. balance (dwld d') x = balance (dwld d) x)
     \<or> rc = 0 \<and> (\<forall>x. balance (dwld d') x = balance (dwld d) x + bars_held d' x)
       \<and> (\<exists>c<XDMA_BAR_NUM. d_config_bar_idx (dv d') = int c \<and> d_bar (dv d') ! c \<noteq> 0
            \<and> XDMA_BAR_SIZE \<le> unat (pd_len (pci d) c)
            \<and> (d_user_bar_idx (dv d') = - 1 \<or> (\<exists>u<c. d_user_bar_idx (dv d') = int u \<and> d_bar (dv d') ! u \<noteq> 0))
            \<and> (d_bypass_bar_idx (dv d') = - 1
               \<or> (\<exists>b. c < b \<and> b < XDMA_BAR_NUM \<and> d_bypass_bar_idx (dv d') = int b \<and> d_bar (dv d') ! b \<noteq> 0))))"
  using assms by (rule map_bars_ok)

subsection \<open>The interrupt handler schedules what fired\<close>

text \<open>The device as the handlers need it: BARs mapped, event locks free, no dangling engine.\<close>

definition irq_ready :: "device \<Rightarrow> bool" where
  "irq_ready d \<longleftrightarrow> (\<exists>cfg. config_ptr d = Inr cfg) \<and> length (d_user_irq (dv d)) = MAX_USER_IRQ
     \<and> (\<forall>q\<in>set (d_user_irq (dv d)). \<not> q_events_lock q)
     \<and> (\<forall>c<XDMA_CHANNEL_NUM_MAX. \<forall>dir<2. \<forall>n. d_engine (dv d) c dir = Some n \<longrightarrow> engs d n \<noteq> None)"

definition fired :: "device \<Rightarrow> u32 \<Rightarrow> nat \<Rightarrow> nat \<Rightarrow> nat list" where
  "fired d ch_irq dir c = (case d_engine (dv d) c dir of None \<Rightarrow> []
     | Some n \<Rightarrow> (case engs d n of None \<Rightarrow> [] | Some e \<Rightarrow> if e_irq_bitmask e AND ch_irq \<noteq> 0 then [n] else []))"

definition log_add :: "event list \<Rightarrow> device \<Rightarrow> device" where
  "log_add es = upd_dwld (\<lambda>w. w\<lparr>w_log := w_log w @ es\<rparr>)"

lemma log_add_sel [simp]:
  "dv (log_add es d) = dv d" "engs (log_add es d) = engs d" "w_log (dwld (log_add es d)) = w_log (dwld d) @ es"
  "w_dev (dwld (log_add es d)) = w_dev (dwld d)" "w_kern (dwld (log_add es d)) = w_kern (dwld d)"
  by (simp_all add: log_add_def)

lemma log_add_nil [simp]: "log_add [] d = d"
  by (simp add: log_add_def upd_dwld_def)

lemma log_add_log_add [simp]: "log_add fs (log_add es d) = log_add (es @ fs) d"
  by (simp add: log_add_def upd_dwld_def)

lemma emit_log_add: "upd_dwld (emit e) d = log_add [e] d"
  by (simp add: log_add_def emit_def upd_dwld_def)

lemma fired_log_add [simp]: "fired (log_add es d) = fired d"
  by (intro ext) (simp add: fired_def split: option.split)

lemma isr_engine_ok:
  assumes "\<And>n. d_engine (dv d) c dir = Some n \<Longrightarrow> engs d n \<noteq> None"
  shows "isr_engine dir ch_irq c d = Inr (log_add (map Schedule_work (fired d ch_irq dir c)) d)"
  using assms
  by (auto simp: isr_engine_def fired_def engine_at_def schedule_work_def emit_log_add split: option.split)

lemma isr_engines_ok:
  assumes "\<forall>c n. i \<le> c \<and> c < i + k \<and> d_engine (dv d) c dir = Some n \<longrightarrow> engs d n \<noteq> None"
  shows "for_loop k i (isr_engine dir ch_irq) d
    = Inr (log_add (map Schedule_work (concat (map (fired d ch_irq dir) [i..<i + k]))) d)"
  using assms
proof (induction k arbitrary: i d)
  case (Suc k)
  have a: "isr_engine dir ch_irq i d = Inr (log_add (map Schedule_work (fired d ch_irq dir i)) d)"
    by (rule isr_engine_ok) (use spec [OF Suc.prems, of i] in simp)
  let ?d = "log_add (map Schedule_work (fired d ch_irq dir i)) d"
  have b: "for_loop k (Suc i) (isr_engine dir ch_irq) ?d
      = Inr (log_add (map Schedule_work (concat (map (fired ?d ch_irq dir) [Suc i..<Suc i + k]))) ?d)"
    by (rule Suc.IH) (use Suc.prems in \<open>auto dest: Suc_leD\<close>)
  have "[i..<i + Suc k] = i # [Suc i..<Suc i + k]" by (simp add: upt_rec)
  then show ?case using a b by simp
qed simp

text \<open>The events an interrupt of the user logic reports, and what the event state becomes.\<close>

definition noted :: "u32 \<Rightarrow> nat \<Rightarrow> xdma_irq \<Rightarrow> xdma_irq" where
  "noted v i q = (if bit v i \<and> q_events_irq q = 0 then q\<lparr>q_events_irq := 1\<rparr> else q)"

definition woken :: "device \<Rightarrow> u32 \<Rightarrow> nat \<Rightarrow> event list" where
  "woken d v i = (if bit v i \<and> q_events_irq (d_user_irq (dv d) ! i) = 0 then [Wake (Wq_event i)] else [])"

definition with_irqs :: "xdma_irq list \<Rightarrow> device \<Rightarrow> device" where
  "with_irqs qs = upd_dv (d_user_irq_update (\<lambda>_. qs))"

lemma with_irqs_sel [simp]:
  "d_user_irq (dv (with_irqs qs d)) = qs" "d_engine (dv (with_irqs qs d)) = d_engine (dv d)"
  "engs (with_irqs qs d) = engs d" "dwld (with_irqs qs d) = dwld d"
  "with_irqs rs (with_irqs qs d) = with_irqs rs d" "log_add es (with_irqs qs d) = with_irqs qs (log_add es d)"
  by (simp_all add: with_irqs_def upd_dv_def log_add_def upd_dwld_def)

lemma user_irq_service_ok:
  assumes "i < length (d_user_irq (dv d))" "\<not> q_events_lock (d_user_irq (dv d) ! i)" "bit v i"
  shows "user_irq_service i d
    = Inr (with_irqs ((d_user_irq (dv d))[i := noted v i (d_user_irq (dv d) ! i)]) (log_add (woken d v i) d))"
proof -
  let ?qs = "d_user_irq (dv d)"
  let ?q = "?qs ! i"
  have q: "?q\<lparr>q_events_lock := False\<rparr> = ?q" using assms(2) by simp
  have lock: "lock_irq i d = Inr (with_irqs (?qs[i := ?q\<lparr>q_events_lock := True\<rparr>]) d)"
    using assms(1,2) by (simp add: lock_irq_def with_irqs_def upd_dv_def)
  have unlock: "unlock_irq i u = Inr (with_irqs ((d_user_irq (dv u))[i := (d_user_irq (dv u) ! i)\<lparr>q_events_lock := False\<rparr>]) u)"
    if "i < length (d_user_irq (dv u))" for u
    using that by (simp add: unlock_irq_def with_irqs_def)
  have upd: "upd_dv (d_user_irq_update (\<lambda>qs. qs[i := r])) (with_irqs qs d) = with_irqs (qs[i := r]) d" for r qs
    by (simp add: with_irqs_def upd_dv_def)
  show ?thesis
  proof (cases "q_events_irq ?q = 0")
    case True
    have n: "?q\<lparr>q_events_irq := 1, q_events_lock := False\<rparr> = noted v i ?q"
      using True assms(2,3) by (simp add: noted_def)
    show ?thesis using True assms
      by (simp add: user_irq_service_def lock unlock upd emit_log_add woken_def n)
  next
    case False
    then show ?thesis using assms
      by (simp add: user_irq_service_def lock unlock woken_def noted_def q)
  qed
qed

lemma user_irqs_ok:
  assumes "i + k \<le> length (d_user_irq (dv d))" "\<forall>q\<in>set (d_user_irq (dv d)). \<not> q_events_lock q"
  shows "\<exists>qs. for_loop k i (\<lambda>i d. if v AND push_bit i 1 \<noteq> 0 then user_irq_service i d else Inr d) d
      = Inr (with_irqs qs (log_add (concat (map (woken d v) [i..<i + k])) d))
    \<and> length qs = length (d_user_irq (dv d))
    \<and> (\<forall>j<length qs. qs ! j = (if i \<le> j \<and> j < i + k then noted v j (d_user_irq (dv d) ! j) else d_user_irq (dv d) ! j))"
  using assms
proof (induction k arbitrary: i d)
  case 0
  have "with_irqs (d_user_irq (dv d)) d = d" by (simp add: with_irqs_def upd_dv_def)
  then show ?case by (auto intro: exI [of _ "d_user_irq (dv d)"])
next
  case (Suc k)
  let ?f = "\<lambda>i d. if v AND push_bit i 1 \<noteq> 0 then user_irq_service i d else Inr d"
  let ?q = "d_user_irq (dv d)"
  let ?d = "with_irqs (?q[i := noted v i (?q ! i)]) (log_add (woken d v i) d)"
  have i: "i < length ?q" "\<not> q_events_lock (?q ! i)" using Suc.prems by simp_all
  have one: "?f i d = Inr ?d"
  proof (cases "bit v i")
    case True
    then show ?thesis using user_irq_service_ok [OF i True] by (simp add: bit_iff_and_push_bit_not_eq_0)
  next
    case False
    then have "?d = d" by (simp add: noted_def woken_def with_irqs_def upd_dv_def)
    then show ?thesis using False by (simp add: bit_iff_and_push_bit_not_eq_0)
  qed
  have "\<not> q_events_lock (noted v i (?q ! i))" using i(2) by (simp add: noted_def)
  then have nolock: "\<forall>q\<in>set (d_user_irq (dv ?d)). \<not> q_events_lock q"
    using Suc.prems(2) by (auto dest!: set_update_subset_insert [THEN subsetD])
  from Suc.IH [of "Suc i" ?d] nolock Suc.prems(1) obtain qs where
    qs: "for_loop k (Suc i) ?f ?d = Inr (with_irqs qs (log_add (concat (map (woken ?d v) [Suc i..<Suc i + k])) ?d))"
      "length qs = length ?q"
      "\<forall>j<length qs. qs ! j = (if Suc i \<le> j \<and> j < Suc i + k then noted v j (?q ! j) else ?q[i := noted v i (?q ! i)] ! j)"
    by fastforce
  have w: "map (woken ?d v) [Suc i..<Suc i + k] = map (woken d v) [Suc i..<Suc i + k]"
    by (rule map_cong) (auto simp: woken_def)
  have up: "[i..<i + Suc k] = i # [Suc i..<Suc i + k]" by (simp add: upt_rec)
  have "for_loop (Suc k) i ?f d = Inr (with_irqs qs (log_add (concat (map (woken d v) [i..<i + Suc k])) d))"
    unfolding up for_loop.simps one bindr_Inr qs(1) w
    by (simp only: with_irqs_sel log_add_log_add list.map concat.simps)
  moreover have "\<forall>j<length qs. qs ! j = (if i \<le> j \<and> j < i + Suc k then noted v j (?q ! j) else ?q ! j)"
    using qs(2,3) i(1) by (auto simp: nth_list_update)
  ultimately show ?case using qs(2) by blast
qed

text \<open>
  C24: The interrupt handler reads which channels ask for service, masks exactly those,
  notes every user event whose bit is set, waking its waiters when the event is new, and
  schedules the work of exactly the engines whose interrupt fired, first those that write
  to the device and then those that read from it, in the order of the channels. It changes
  no engine, and it counts itself.
\<close>

theorem isr_schedules_fired:
  assumes "irq_ready d" "config_ptr d = Inr cfg"
    "ch_irq = w_dev (dwld d) (w_log (dwld d)) (cfg + 0x2044)"
    "v = w_dev (dwld d) (w_log (dwld d) @ [Rd (cfg + 0x2044), Wr (cfg + 0x2018) ch_irq]) (cfg + 0x2040)"
  shows "\<exists>d'. xdma_isr d = Inr d' \<and> engs d' = engs d
    \<and> w_log (dwld d') = w_log (dwld d) @ [Rd (cfg + 0x2044), Wr (cfg + 0x2018) ch_irq, Rd (cfg + 0x2040)]
        @ concat (map (woken d v) [0..<16])
        @ map Schedule_work (concat (map (fired d ch_irq 0) [0..<4]) @ concat (map (fired d ch_irq 1) [0..<4]))
    \<and> length (d_user_irq (dv d')) = 16
    \<and> (\<forall>i<16. d_user_irq (dv d') ! i = noted v i (d_user_irq (dv d) ! i))
    \<and> d_irq_count (dv d') = d_irq_count (dv d) + 1"
proof -
  let ?d1 = "log_add [Rd (cfg + 0x2044), Wr (cfg + 0x2018) ch_irq, Rd (cfg + 0x2040)] d"
  have len: "length (d_user_irq (dv ?d1)) = 16" and
    lk: "\<forall>q\<in>set (d_user_irq (dv ?d1)). \<not> q_events_lock q"
    using assms(1) by (auto simp: irq_ready_def MAX_USER_IRQ_def)
  from user_irqs_ok [of 0 16 ?d1 v] len lk obtain qs where
    q: "for_loop MAX_USER_IRQ 0 (\<lambda>i d. if v AND push_bit i 1 \<noteq> 0 then user_irq_service i d else Inr d) ?d1
        = Inr (with_irqs qs (log_add (concat (map (woken ?d1 v) [0..<16])) ?d1))"
      "length qs = 16" "\<forall>j<16. qs ! j = noted v j (d_user_irq (dv d) ! j)"
    by (auto simp: MAX_USER_IRQ_def)
  have wk: "woken ?d1 v = woken d v" by (intro ext) (simp add: woken_def)
  let ?d2 = "with_irqs qs (log_add (concat (map (woken d v) [0..<16])) ?d1)"
  have alive: "\<forall>c n. 0 \<le> c \<and> c < 0 + 4 \<and> d_engine (dv u) c dir = Some n \<longrightarrow> engs u n \<noteq> None"
    if "d_engine (dv u) = d_engine (dv d)" "engs u = engs d" "dir < 2" for u dir
    using that assms(1) by (auto simp: irq_ready_def XDMA_CHANNEL_NUM_MAX_def)
  have fr: "fired (with_irqs rs u) = fired u" for rs u by (intro ext) (simp add: fired_def split: option.split)
  let ?h = "map Schedule_work (concat (map (fired d ch_irq 0) [0..<4]))"
  have h: "for_loop XDMA_CHANNEL_NUM_MAX 0 (isr_engine 0 ch_irq) ?d2 = Inr (log_add ?h ?d2)"
    using isr_engines_ok [OF alive, of ?d2 0 ch_irq] by (simp add: XDMA_CHANNEL_NUM_MAX_def fr)
  have c: "for_loop XDMA_CHANNEL_NUM_MAX 0 (isr_engine 1 ch_irq) (log_add ?h ?d2)
      = Inr (log_add (map Schedule_work (concat (map (fired d ch_irq 1) [0..<4]))) (log_add ?h ?d2))"
    using isr_engines_ok [OF alive, of "log_add ?h ?d2" 1 ch_irq] by (simp add: XDMA_CHANNEL_NUM_MAX_def fr)
  have adr: "cfg + XDMA_OFS_INT_CTRL + ir R_channel_int_request = cfg + 0x2044"
      "cfg + XDMA_OFS_INT_CTRL + ir R_user_int_request = cfg + 0x2040"
      "cfg + XDMA_OFS_INT_CTRL + ir R_channel_int_enable_w1c = cfg + 0x2018"
    by (simp_all add: XDMA_OFS_INT_CTRL_def)
  have dis: "upd_dwld (channel_interrupts_disable cfg m) u = log_add [Wr (cfg + 0x2018) m] u" for m u
    by (simp only: channel_interrupts_disable_def adr write_register_def emit_def log_add_def upd_dwld_def)
  have start: "xdma_isr d = bindr (for_loop MAX_USER_IRQ 0
      (\<lambda>i d. if v AND push_bit i 1 \<noteq> 0 then user_irq_service i d else Inr d) ?d1) (\<lambda>d.
       bindr (for_loop XDMA_CHANNEL_NUM_MAX 0 (isr_engine 0 ch_irq) d) (\<lambda>d.
       bindr (for_loop XDMA_CHANNEL_NUM_MAX 0 (isr_engine 1 ch_irq) d) (\<lambda>d.
         Inr (upd_dv (d_irq_count_update (\<lambda>c. c + 1)) d))))"
    unfolding xdma_isr_def assms(2) bindr_Inr
    by (simp add: dread_eq Let_def dis emit_log_add adr assms(3,4)
        del: ir_offsets)
  have "xdma_isr d = Inr (upd_dv (d_irq_count_update (\<lambda>c. c + 1))
      (log_add (map Schedule_work (concat (map (fired d ch_irq 1) [0..<4]))) (log_add ?h ?d2)))"
    unfolding start q(1) wk by (simp only: bindr_Inr h c)
  then show ?thesis using q(2,3) by (simp add: with_irqs_def)
qed

subsection \<open>Concrete runs\<close>

definition no_dev :: xdma_dev where
  "no_dev = \<lparr>d_major = 0, d_instance = 0, d_user_char_dev = None, d_ctrl_char_dev = None,
     d_bypass_char_dev = (\<lambda>_ _. None), d_bypass_char_dev_base = None, d_sgdma_char_dev = (\<lambda>_ _. None),
     d_events_char_dev = (\<lambda>_. None), d_bar = replicate 6 0, d_user_bar_idx = - 1, d_config_bar_idx = - 1,
     d_bypass_bar_idx = - 1, d_regions_in_use = False, d_got_regions = False, d_irq_count = 0, d_irq_line = - 1,
     d_msi_enabled = False, d_msix_enabled = False, d_irq_user_count = 0, d_entry = replicate 32 0,
     d_user_irq = replicate 16 \<lparr>q_events_irq = 0, q_events_lock = False\<rparr>, d_engines_num = 0,
     d_engine = (\<lambda>_ _. None)\<rparr>"

text \<open>A device with one BAR of 64 KB.\<close>

definition sample_pci :: pci_dev where
  "sample_pci = \<lparr>pd_start = (\<lambda>_. 0xF0000000), pd_end = (\<lambda>i. if i = 0 then 0xF000FFFF else 0xF0000000),
     pd_len = (\<lambda>i. if i = 0 then 0x10000 else 0), pd_irq = 11, pd_no_msi = True, pd_bus_no_msi = []\<rparr>"

definition fresh_device :: device where
  "fresh_device = \<lparr>dv = no_dev, engs = Map.empty, chars = Map.empty, next_obj = 0, dev_xfers = Map.empty,
     dev_next_xfer = 0, dev_present = replicate 64 False, major = 0, g_xdma_class = True, dpar = sample_params,
     dwld = idle_world\<lparr>w_kern := (\<lambda>_ _. 0x10000),
       w_dev := (\<lambda>_ a. if a = 0x12000 then 0x1fc20006 else if a = 0x13000 then 0x1fc30006 else 0)\<rparr>,
     pci = sample_pci\<rparr>"

theorem map_bars_outcome_witness:
  "\<exists>d'. map_bars fresh_device = Inr (0, d') \<and> d_config_bar_idx (dv d') = 0 \<and> d_bar (dv d') ! 0 \<noteq> 0
     \<and> balance (dwld d') (R_bar 0x10000) = 1"
proof -
  have a: "d_bar (dv fresh_device) = replicate XDMA_BAR_NUM 0" "d_config_bar_idx (dv fresh_device) = - 1"
    "d_user_bar_idx (dv fresh_device) = - 1" "d_bypass_bar_idx (dv fresh_device) = - 1"
    by (simp_all add: fresh_device_def no_dev_def XDMA_BAR_NUM_def)
  have "run_ok (\<lambda>(rc, d). rc = 0 \<and> d_bar (dv d) = [0x10000, 0, 0, 0, 0, 0] \<and> d_config_bar_idx (dv d) = 0) (map_bars fresh_device)"
    by code_simp
  then obtain d' where d': "map_bars fresh_device = Inr (0, d')" "d_bar (dv d') = [0x10000, 0, 0, 0, 0, 0]"
    "d_config_bar_idx (dv d') = 0" by (auto elim!: run_okE)
  have b: "balance (dwld fresh_device) x = 0" for x by (simp add: balance_def fresh_device_def idle_world_def)
  have h: "bars_held d' (R_bar 0x10000) = 1" by (simp add: bars_held_def d'(2))
  from map_bars_outcome [OF a] d'(1) have "\<forall>x. balance (dwld d') x = balance (dwld fresh_device) x + bars_held d' x" by auto
  then show ?thesis using d' b h by simp
qed

text \<open>Two engines of channel 0; the first one's interrupt and user events 0 and 3 fire.\<close>

definition sample_device :: device where
  "sample_device = fresh_device\<lparr>
     dv := no_dev\<lparr>d_bar := [0x10000, 0, 0, 0, 0, 0], d_config_bar_idx := 0, d_engines_num := 2,
       d_engine := (\<lambda>c dir. if c = 0 then Some dir else None)\<rparr>,
     engs := [0 \<mapsto> sample_engine, 1 \<mapsto> sample_engine\<lparr>e_dir_to_dev := False, e_irq_bitmask := 2\<rparr>], next_obj := 2,
     dwld := idle_world\<lparr>w_dev := (\<lambda>_ a. if a = 0x12044 then 1 else if a = 0x12040 then 9 else 0)\<rparr>\<rparr>"

theorem isr_schedules_fired_witness:
  "\<exists>d'. xdma_isr sample_device = Inr d'
     \<and> w_log (dwld d') = [Rd 0x12044, Wr 0x12018 1, Rd 0x12040, Wake (Wq_event 0), Wake (Wq_event 3), Schedule_work 0]
     \<and> q_events_irq (d_user_irq (dv d') ! 3) = 1"
proof -
  have r: "irq_ready sample_device" "config_ptr sample_device = Inr 0x10000"
    by (auto simp: irq_ready_def config_ptr_def bar_ptr_def sample_device_def no_dev_def MAX_USER_IRQ_def
        XDMA_CHANNEL_NUM_MAX_def)
  have v: "1 = w_dev (dwld sample_device) (w_log (dwld sample_device)) (0x10000 + 0x2044)"
    "9 = w_dev (dwld sample_device) (w_log (dwld sample_device) @ [Rd (0x10000 + 0x2044), Wr (0x10000 + 0x2018) 1]) (0x10000 + 0x2040)"
    by (simp_all add: sample_device_def)
  have e: "concat (map (woken sample_device 9) [0..<16]) = [Wake (Wq_event 0), Wake (Wq_event 3)]"
    "concat (map (fired sample_device 1 0) [0..<4]) = [0]" "concat (map (fired sample_device 1 1) [0..<4]) = []"
    "noted 9 3 (d_user_irq (dv sample_device) ! 3) = \<lparr>q_events_irq = 1, q_events_lock = False\<rparr>"
    by code_simp+
  from isr_schedules_fired [OF r v] obtain d' where d: "xdma_isr sample_device = Inr d'"
    "w_log (dwld d') = w_log (dwld sample_device) @ [Rd (0x10000 + 0x2044), Wr (0x10000 + 0x2018) 1, Rd (0x10000 + 0x2040)]
        @ concat (map (woken sample_device 9) [0..<16])
        @ map Schedule_work (concat (map (fired sample_device 1 0) [0..<4]) @ concat (map (fired sample_device 1 1) [0..<4]))"
    "\<forall>i<16. d_user_irq (dv d') ! i = noted 9 i (d_user_irq (dv sample_device) ! i)"
    by (elim exE conjE) (rule that)
  have "q_events_irq (d_user_irq (dv d') ! 3) = 1" using d(3) e(4) by simp
  then show ?thesis using d(1) d(2) [unfolded e(1-3)] by (simp add: sample_device_def idle_world_def)
qed

end
