(* ===== verification/Xdma_Setup.thy ===== *)
theory Xdma_Setup
  imports Xdma_Device
begin

unbundle bit_operations_syntax

text \<open>
  Bringing up the engines and the interrupts of a device in driver/xdma-core.c: creating
  and destroying an engine, probing the channels, requesting and releasing interrupt
  vectors. The lemmas show that the engines found share neither registers nor interrupt
  bits, that interrupt vectors are requested all or none, and where the error paths
  release what was not acquired or release it twice.
\<close>

subsection \<open>Engines\<close>

definition XDMA_ENG_IRQ_NUM :: nat where "XDMA_ENG_IRQ_NUM = 1"
definition BYPASS_MODE_SPACING :: int where "BYPASS_MODE_SPACING = 0x0100"
definition POLL_WB_SIZE :: nat where "POLL_WB_SIZE = 32"

definition zero_engine :: xdma_engine where
  "zero_engine = \<lparr>e_magic = 0, e_regs = 0, e_sgdma_regs = 0, e_bypass_offset = 0,
     e_shutdown = 0, e_running = False, e_streaming = False, e_non_incr_addr = False, e_dir_to_dev = False,
     e_addr_align = 0, e_len_granularity = 0, e_addr_bits = 0, e_channel = 0, e_number_in_channel = 0,
     e_desc_dequeued = 0, e_status = 0, e_interrupt_enable_mask_value = 0, e_transfer_list = [],
     e_rx_tail = 0, e_rx_head = 0, e_rx_overrun = False, e_rx_buffer = 0, e_rx_transfer_cyclic = None,
     e_rx_result = None, e_rx_result_bus = 0, e_writeback = None, e_poll_mode_bus = 0, e_lock = False,
     e_msix_irq_line = 0, e_irq_bitmask = 0, e_xdma_perf = None, e_eop_found = False, e_user_buffer_index = 0\<rparr>"

definition upd_engine :: "nat \<Rightarrow> (xdma_engine \<Rightarrow> xdma_engine) \<Rightarrow> device \<Rightarrow> device" where
  "upd_engine n f d = d\<lparr>engs := (engs d)(n := map_option f (engs d n))\<rparr>"

definition free_engine :: "nat \<Rightarrow> device \<Rightarrow> device" where
  "free_engine n d = dcall0 (Kfree (of_nat n)) (d\<lparr>engs := (engs d)(n := None)\<rparr>)"

definition engine_msix_teardown :: "nat \<Rightarrow> device \<Rightarrow> device run" where
  "engine_msix_teardown n d = bindr (engine_at n d) (\<lambda>e.
     Inr (if e_msix_irq_line e \<noteq> 0 then dcall0 (Free_irq (e_msix_irq_line e)) d else d))"

definition engine_msix_setup :: "nat \<Rightarrow> device \<Rightarrow> (int \<times> device) run" where
  "engine_msix_setup n d =
     bindr (bug_on (engs d n = None)) (\<lambda>_.
     bindr (array_get (d_entry (dv d)) (nat (d_engines_num (dv d)) + MAX_USER_IRQ)) (\<lambda>vector.
       let (rc, d) = dcall (Request_irq vector) d in
       Inr (rc, if rc \<noteq> 0 then d else upd_engine n (e_msix_irq_line_update (\<lambda>_. vector)) d)))"

definition engine_writeback_teardown :: "nat \<Rightarrow> device \<Rightarrow> device run" where
  "engine_writeback_teardown n d = bindr (engine_at n d) (\<lambda>e.
     Inr (if e_writeback e \<noteq> None then dcall0 (Pci_free_consistent (e_poll_mode_bus e) POLL_WB_SIZE) d else d))"

definition engine_writeback_setup :: "nat \<Rightarrow> device \<Rightarrow> (int \<times> device) run" where
  "engine_writeback_setup n d = bindr (engine_at n d) (\<lambda>e.
     let bus = w_addr (dwld d) (w_log (dwld d));
         (virt, d) = dcall (Pci_alloc_consistent POLL_WB_SIZE) d;
         d = upd_engine n (e_poll_mode_bus_update (\<lambda>_. bus)) d
     in if virt = 0 then Inr (- 1, d)
        else
          let d = upd_engine n (e_writeback_update (\<lambda>_. Some 0)) d;
              d = dwrite (PCI_DMA_L bus) (e_regs e + er R_poll_mode_wb_lo) d;
              d = dwrite (PCI_DMA_H bus) (e_regs e + er R_poll_mode_wb_hi) d
          in Inr (0, d))"

definition create_interrupts :: "bool \<Rightarrow> bool \<Rightarrow> bool \<Rightarrow> u32" where
  "create_interrupts poll streaming dir_to_dev =
     (let w = XDMA_CTRL_IE_DESC_ALIGN_MISMATCH OR XDMA_CTRL_IE_MAGIC_STOPPED OR XDMA_CTRL_IE_READ_ERROR
            OR XDMA_CTRL_IE_DESC_ERROR in
      if poll then w
      else let w = w OR XDMA_CTRL_IE_DESC_STOPPED OR XDMA_CTRL_IE_DESC_COMPLETED in
           if streaming \<and> \<not> dir_to_dev then w OR XDMA_CTRL_IE_IDLE_STOPPED else w)"

text \<open>The fields of a new engine that do not depend on what the device answers.\<close>

definition new_engine :: "iomem \<Rightarrow> iomem \<Rightarrow> bool \<Rightarrow> nat \<Rightarrow> int \<Rightarrow> xdma_engine" where
  "new_engine cfg offset dir_to_dev channel engines_num = zero_engine\<lparr>
     e_magic := MAGIC_ENGINE, e_channel := channel, e_number_in_channel := (if dir_to_dev then 0 else 1),
     e_irq_bitmask := push_bit (nat engines_num * XDMA_ENG_IRQ_NUM) (push_bit XDMA_ENG_IRQ_NUM 1 - 1),
     e_bypass_offset := of_int (engines_num * BYPASS_MODE_SPACING),
     e_regs := cfg + offset, e_sgdma_regs := cfg + (offset + SGDMA_OFFSET_FROM_CHANNEL),
     e_dir_to_dev := dir_to_dev\<rparr>"

text \<open>The two later parts of \<open>engine_create\<close>: the vector and the registers, then the write-back memory and the interrupts.\<close>

definition engine_configure :: "nat \<Rightarrow> device \<Rightarrow> (nat option \<times> device) run" where
  "engine_configure n d =
     bindr (engine_at n d) (\<lambda>e.
     bindr (if poll_mode (dpar d) then engine_writeback_setup n d else Inr (0, d)) (\<lambda>(rc, d).
       if rc \<noteq> 0 then bindr (engine_msix_teardown n d) (\<lambda>d. Inr (None, free_engine n d))
       else
         let d = dwrite (create_interrupts (poll_mode (dpar d)) (e_streaming e) (e_dir_to_dev e))
                   (e_regs e + er R_interrupt_enable_mask) d
         in case e_rx_transfer_cyclic e of
              None \<Rightarrow> Inr (Some n, d)
            | Some t \<Rightarrow> bindr (with_engine n (transfer_queue t) d) (\<lambda>(_, d). Inr (Some n, d))))"

definition engine_setup :: "nat \<Rightarrow> device \<Rightarrow> (nat option \<times> device) run" where
  "engine_setup n d =
     bindr (if d_msix_enabled (dv d) then engine_msix_setup n d else Inr (0, d)) (\<lambda>(rc, d).
       if rc \<noteq> 0 then Inr (None, free_engine n d)
       else
         bindr (with_engine n (\<lambda>s.
           Inr ((), engine_alignments (write_reg XDMA_CTRL_NON_INCR_ADDR (e_regs (eng s) + er R_control_w1c) s)))
           (upd_dv (d_engines_num_update (\<lambda>k. k + 1)) d)) (\<lambda>(_, d).
         engine_configure n d))"

definition engine_create :: "iomem \<Rightarrow> bool \<Rightarrow> nat \<Rightarrow> device \<Rightarrow> (nat option \<times> device) run" where
  "engine_create offset dir_to_dev channel d =
     (let (p, d) = dcall (Kzalloc 4) d in
      if p = 0 then Inr (None, d)
      else
        bindr (config_ptr d) (\<lambda>cfg.
        let n = next_obj d;
            (ty, w) = get_engine_type (cfg + offset) (dwld d);
            e = (new_engine cfg offset dir_to_dev channel (d_engines_num (dv d)))\<lparr>e_streaming := ty \<noteq> 0\<rparr>
        in engine_setup n (d\<lparr>engs := (engs d)(n \<mapsto> e), next_obj := Suc n, dwld := w\<rparr>)))"

definition engine_destroy :: "nat \<Rightarrow> device \<Rightarrow> device run" where
  "engine_destroy n d =
     bindr (engine_at n d) (\<lambda>e.
     bindr (engine_msix_teardown n (dwrite 0 (e_regs e + er R_interrupt_enable_mask) d)) (\<lambda>d.
     bindr (if poll_mode (dpar d) then engine_writeback_teardown n d else Inr d) (\<lambda>d.
       Inr (upd_dv (d_engines_num_update (\<lambda>k. k - 1)) (free_engine n d)))))"

subsection \<open>Probing the channels\<close>

definition set_engine :: "nat \<Rightarrow> nat \<Rightarrow> nat option \<Rightarrow> device \<Rightarrow> device" where
  "set_engine c dir r = upd_dv (\<lambda>v. v\<lparr>d_engine := (d_engine v)(c := (d_engine v c)(dir := r))\<rparr>)"

definition remove_channel :: "nat \<Rightarrow> device \<Rightarrow> device run" where
  "remove_channel c d =
     bindr (case d_engine (dv d) c 0 of None \<Rightarrow> Inr d | Some n \<Rightarrow> engine_destroy n d) (\<lambda>d.
       case d_engine (dv d) c 1 of None \<Rightarrow> Inr d | Some n \<Rightarrow> engine_destroy n d)"

definition remove_engines :: "device \<Rightarrow> device run" where
  "remove_engines = for_loop XDMA_CHANNEL_NUM_MAX 0 remove_channel"

definition probe_for_engine :: "bool \<Rightarrow> nat \<Rightarrow> device \<Rightarrow> (int \<times> device) run" where
  "probe_for_engine dir_to_dev channel d =
     bindr (config_ptr d) (\<lambda>cfg.
     let offset = channel_offset dir_to_dev channel;
         dir_from_dev = (if dir_to_dev then 0 else 1);
         (engine_id, w) = get_engine_id (cfg + offset) (dwld d);
         (channel_id, w) = get_engine_channel_id (cfg + offset) w;
         d = d\<lparr>dwld := w\<rparr>
     in if engine_id \<noteq> (if dir_to_dev then XDMA_ID_H2C else XDMA_ID_C2H) then Inr (0, d)
        else if unat channel_id \<noteq> channel then Inr (0, d)
        else bindr (engine_create offset dir_to_dev channel d) (\<lambda>(r, d).
               Inr (if r = None then - 1 else 0, set_engine channel dir_from_dev r d)))"

fun probe_channels :: "bool \<Rightarrow> nat \<Rightarrow> nat \<Rightarrow> device \<Rightarrow> (int \<times> device) run" where
  "probe_channels dir_to_dev 0 channel d = Inr (0, d)"
| "probe_channels dir_to_dev (Suc k) channel d =
     bindr (probe_for_engine dir_to_dev channel d) (\<lambda>(rc, d).
       if rc \<noteq> 0 then Inr (rc, d) else probe_channels dir_to_dev k (Suc channel) d)"

definition probe_engines :: "device \<Rightarrow> (int \<times> device) run" where
  "probe_engines d =
     bindr (probe_channels True XDMA_CHANNEL_NUM_MAX 0 d) (\<lambda>(rc, d).
       if rc \<noteq> 0 then bindr (remove_engines d) (\<lambda>d. Inr (- 1, d))
       else bindr (probe_channels False XDMA_CHANNEL_NUM_MAX 0 d) (\<lambda>(_, d). Inr (0, d)))"

subsection \<open>Interrupt vectors\<close>

definition msi_vector_addr :: "iomem \<Rightarrow> reg_field \<Rightarrow> nat \<Rightarrow> iomem" where
  "msi_vector_addr cfg f i = cfg + XDMA_OFS_INT_CTRL + ir f + of_nat (4 * i)"

definition write_msix_vectors :: "device \<Rightarrow> device run" where
  "write_msix_vectors d =
     bindr (config_ptr d) (\<lambda>cfg.
       let d = dwrite (build_vector_reg 0 1 2 3) (msi_vector_addr cfg R_user_msi_vector 0) d;
           d = dwrite (build_vector_reg 4 5 6 7) (msi_vector_addr cfg R_user_msi_vector 1) d;
           d = dwrite (build_vector_reg 8 9 10 11) (msi_vector_addr cfg R_user_msi_vector 2) d;
           d = dwrite (build_vector_reg 12 13 14 15) (msi_vector_addr cfg R_user_msi_vector 3) d;
           d = dwrite (build_vector_reg 16 17 18 19) (msi_vector_addr cfg R_channel_msi_vector 0) d;
           d = dwrite (build_vector_reg 20 21 22 23) (msi_vector_addr cfg R_channel_msi_vector 1) d
       in Inr d)"

text \<open>The requests of the user vectors: the last status, and how many were granted.\<close>

fun request_user_irqs :: "nat \<Rightarrow> nat \<Rightarrow> device \<Rightarrow> (int \<times> nat \<times> device) run" where
  "request_user_irqs 0 i d = Inr (0, i, d)"
| "request_user_irqs (Suc k) i d =
     bindr (array_get (d_entry (dv d)) i) (\<lambda>vector.
       let (rc, d) = dcall (Request_irq vector) d in
       if rc \<noteq> 0 then Inr (rc, i, d) else request_user_irqs k (Suc i) d)"

fun free_user_irqs :: "nat \<Rightarrow> device \<Rightarrow> device run" where
  "free_user_irqs 0 d = Inr d"
| "free_user_irqs (Suc i) d =
     bindr (array_get (d_entry (dv d)) i) (\<lambda>vector. free_user_irqs i (dcall0 (Free_irq vector) d))"

definition msix_irq_setup :: "device \<Rightarrow> (int \<times> device) run" where
  "msix_irq_setup d =
     bindr (write_msix_vectors d) (\<lambda>d.
     bindr (request_user_irqs MAX_USER_IRQ 0 d) (\<lambda>(rc, i, d).
       if rc \<noteq> 0 then bindr (free_user_irqs i d) (\<lambda>d. Inr (- 1, d))
       else Inr (0, upd_dv (d_irq_user_count_update (\<lambda>_. MAX_USER_IRQ)) d)))"

definition irq_teardown :: "device \<Rightarrow> device run" where
  "irq_teardown d =
     (if d_msix_enabled (dv d)
      then for_loop (d_irq_user_count (dv d)) 0 (\<lambda>i d.
             bindr (array_get (d_entry (dv d)) i) (\<lambda>vector. Inr (dcall0 (Free_irq vector) d))) d
      else if d_irq_line (dv d) \<noteq> - 1 then Inr (dcall0 (Free_irq (d_irq_line (dv d))) d)
      else Inr d)"

text \<open>The legacy interrupt pin is written into the vector registers of the interrupt block.\<close>

definition legacy_vectors :: "device \<Rightarrow> device run" where
  "legacy_vectors d =
     (let (v, d) = dcall Pci_read_interrupt_pin d; pin = (word_of_int v :: u8) in
      if pin > 1 then
        let p = ucast (pin - 1) :: u32;
            w = push_bit 24 p OR push_bit 16 p OR push_bit 8 p OR p
        in bindr (config_ptr d) (\<lambda>cfg.
             let d = dwrite w (cfg + 0x2080) d;
                 d = dwrite w (cfg + 0x2080 + 4) d;
                 d = dwrite w (cfg + 0x2080 + 8) d;
                 d = dwrite w (cfg + 0x2080 + 0xC) d;
                 d = dwrite w (cfg + 0x20A0) d;
                 d = dwrite w (cfg + 0x20A0 + 4) d
             in Inr d)
      else Inr d)"

definition irq_setup :: "device \<Rightarrow> (int \<times> device) run" where
  "irq_setup d =
     (if d_msix_enabled (dv d) then msix_irq_setup d
      else
        bindr (if \<not> d_msi_enabled (dv d) then legacy_vectors d else Inr d) (\<lambda>d.
          let d = upd_dv (d_irq_line_update (\<lambda>_. pd_irq (pci d))) d in
          Inr (dcall (Request_irq (pd_irq (pci d))) d)))"

definition enable_credit_feature :: "device \<Rightarrow> device run" where
  "enable_credit_feature d =
     bindr (config_ptr d) (\<lambda>cfg.
       Inr (dwrite 0xF0000 (cfg + 0x6 * TARGET_SPACING + gr R_credit_feature_enable) d))"

subsection \<open>What bringing up an engine changes\<close>

text \<open>A device without its engines and its world; an engine without what it learns of the device.\<close>

definition but_engines :: "device \<Rightarrow> device" where
  "but_engines d = d\<lparr>engs := Map.empty, dwld := idle_world\<rparr>"

definition engine_core :: "xdma_engine \<Rightarrow> xdma_engine" where
  "engine_core e = e\<lparr>e_addr_align := 0, e_len_granularity := 0, e_addr_bits := 0, e_streaming := False,
     e_msix_irq_line := 0, e_writeback := None, e_poll_mode_bus := 0\<rparr>"

lemma but_engines_sel:
  "dv (but_engines d) = dv d" "next_obj (but_engines d) = next_obj d" "dpar (but_engines d) = dpar d"
  "pci (but_engines d) = pci d" "chars (but_engines d) = chars d"
  by (simp_all add: but_engines_def)

lemma but_enginesD:
  assumes "but_engines d' = but_engines d"
  shows "dv d' = dv d" "next_obj d' = next_obj d" "dpar d' = dpar d" "pci d' = pci d" "chars d' = chars d"
  using assms by (metis but_engines_sel)+

lemma but_engines_same [simp]:
  "but_engines (upd_dwld f d) = but_engines d" "but_engines (upd_engine n g d) = but_engines d"
  "but_engines (d\<lparr>engs := m\<rparr>) = but_engines d"
  by (simp_all add: but_engines_def upd_dwld_def upd_engine_def)

lemma upd_engine_sel [simp]:
  "dv (upd_engine n g d) = dv d" "engs (upd_engine n g d) = (engs d)(n := map_option g (engs d n))"
  "dwld (upd_engine n g d) = dwld d" "next_obj (upd_engine n g d) = next_obj d" "dpar (upd_engine n g d) = dpar d"
  by (simp_all add: upd_engine_def)

lemma engine_core_sel [simp]:
  "e_magic (engine_core e) = e_magic e" "e_regs (engine_core e) = e_regs e" "e_sgdma_regs (engine_core e) = e_sgdma_regs e"
  "e_channel (engine_core e) = e_channel e" "e_number_in_channel (engine_core e) = e_number_in_channel e"
  "e_irq_bitmask (engine_core e) = e_irq_bitmask e" "e_dir_to_dev (engine_core e) = e_dir_to_dev e"
  "e_lock (engine_core e) = e_lock e" "e_transfer_list (engine_core e) = e_transfer_list e"
  "e_running (engine_core e) = e_running e" "e_rx_transfer_cyclic (engine_core e) = e_rx_transfer_cyclic e"
  by (simp_all add: engine_core_def)

lemma engine_core_upd [simp]:
  "engine_core (e\<lparr>e_msix_irq_line := v\<rparr>) = engine_core e" "engine_core (e\<lparr>e_writeback := b\<rparr>) = engine_core e"
  "engine_core (e\<lparr>e_poll_mode_bus := a\<rparr>) = engine_core e" "engine_core (e\<lparr>e_streaming := t\<rparr>) = engine_core e"
  by (simp_all add: engine_core_def)

lemma core_alignments [simp]: "engine_core (eng (engine_alignments s)) = engine_core (eng s)"
  by (simp add: engine_alignments_def engine_core_def Let_def split_beta)

lemma core_write_reg [simp]: "eng (write_reg v a s) = eng s"
  by simp

lemma config_ptr_cong:
  "d_bar (dv d') = d_bar (dv d) \<Longrightarrow> d_config_bar_idx (dv d') = d_config_bar_idx (dv d) \<Longrightarrow> config_ptr d' = config_ptr d"
  by (simp add: config_ptr_def bar_ptr_def)

lemma config_ptr_same [simp]:
  "config_ptr (upd_dwld f d) = config_ptr d" "config_ptr (upd_engine n g d) = config_ptr d"
  "config_ptr (d\<lparr>engs := m, next_obj := k, dwld := w\<rparr>) = config_ptr d" "config_ptr (d\<lparr>engs := m\<rparr>) = config_ptr d"
  "config_ptr (d\<lparr>dwld := w\<rparr>) = config_ptr d" "config_ptr (d\<lparr>engs := m, next_obj := k\<rparr>) = config_ptr d"
  "config_ptr (upd_dv (d_engines_num_update h) d) = config_ptr d" "config_ptr (set_engine c dir r d) = config_ptr d"
  by (rule config_ptr_cong; simp add: set_engine_def)+

text \<open>The outcome of a step on engine \<open>n\<close>: nothing but that engine and the world changes.\<close>

definition engine_only :: "nat \<Rightarrow> device \<Rightarrow> device \<Rightarrow> bool" where
  "engine_only n d d' \<longleftrightarrow> but_engines d' = but_engines d
     \<and> (\<exists>e e'. engs d n = Some e \<and> engs d' = (engs d)(n \<mapsto> e') \<and> engine_core e' = engine_core e)"

lemma engine_only_refl: "engs d n = Some e \<Longrightarrow> engine_only n d d"
  unfolding engine_only_def by (metis fun_upd_idem)

lemma engine_only_trans: "engine_only n a b \<Longrightarrow> engine_only n b c \<Longrightarrow> engine_only n a c"
  by (auto simp: engine_only_def)

lemma engine_only_upd:
  "engs d n = Some e \<Longrightarrow> (\<And>e. engine_core (g e) = engine_core e) \<Longrightarrow> engine_only n d (upd_engine n g d)"
  by (auto simp: engine_only_def)

lemma engine_only_wld: "engs d n = Some e \<Longrightarrow> engine_only n d (upd_dwld f d)"
  by (auto simp: engine_only_def intro!: exI [of _ e] fun_upd_idem [symmetric])

lemma msix_setup_ok:
  assumes "engs d n = Some e" "nat (d_engines_num (dv d)) + MAX_USER_IRQ < length (d_entry (dv d))"
  shows "\<exists>rc d'. engine_msix_setup n d = Inr (rc, d') \<and> engine_only n d d'"
proof -
  let ?v = "d_entry (dv d) ! (nat (d_engines_num (dv d)) + MAX_USER_IRQ)"
  let ?u = "upd_dwld (emit (Call (Request_irq ?v))) d"
  have 1: "engine_only n d ?u" using assms(1) by (rule engine_only_wld)
  have "engine_only n ?u (upd_engine n (e_msix_irq_line_update (\<lambda>_. ?v)) ?u)"
    by (rule engine_only_upd) (use assms(1) in simp_all)
  with 1 assms show ?thesis by (auto simp: engine_msix_setup_def dcall_eq Let_def intro: engine_only_trans)
qed

lemma writeback_setup_ok:
  assumes "engs d n = Some e"
  shows "\<exists>rc d'. engine_writeback_setup n d = Inr (rc, d') \<and> engine_only n d d'"
proof -
  let ?bus = "w_addr (dwld d) (w_log (dwld d))"
  let ?d1 = "upd_dwld (emit (Call (Pci_alloc_consistent POLL_WB_SIZE))) d"
  let ?d2 = "upd_engine n (e_poll_mode_bus_update (\<lambda>_. ?bus)) ?d1"
  let ?d3 = "upd_engine n (e_writeback_update (\<lambda>_. Some 0)) ?d2"
  have 1: "engine_only n d ?d1" using assms by (rule engine_only_wld)
  have 2: "engine_only n ?d1 ?d2" by (rule engine_only_upd) (use assms in simp_all)
  have 3: "engine_only n ?d2 ?d3" by (rule engine_only_upd) (use assms in simp_all)
  have 4: "engine_only n ?d3 (upd_dwld f ?d3)" for f by (rule engine_only_wld) (use assms in simp)
  have 5: "upd_dwld f (upd_dwld g u) = upd_dwld (f \<circ> g) u" for f g u by (simp add: upd_dwld_def)
  show ?thesis
    using assms 1 2 3 4 by (auto simp: engine_writeback_setup_def engine_at_def dcall_eq dwrite_eq Let_def 5
        intro: engine_only_trans)
qed

lemma alignments_ok:
  assumes "engs d n = Some e" "config_ptr d = Inr cfg"
  shows "\<exists>d'. with_engine n (\<lambda>s. Inr ((), engine_alignments (write_reg v (e_regs (eng s) + a) s))) d = Inr ((), d')
    \<and> engine_only n d d'"
proof -
  have "xfers (engine_alignments s) = xfers s" "next_xfer (engine_alignments s) = next_xfer s" for s
    by (simp_all add: engine_alignments_def Let_def split_beta)
  then show ?thesis using assms by (auto simp: with_engine_def engine_at_def engine_only_def but_engines_def)
qed

lemma configure_ok:
  assumes "engs d n = Some e" "e_rx_transfer_cyclic e = None"
  shows "\<exists>r d' e'. engine_configure n d = Inr (r, d') \<and> but_engines d' = but_engines d
    \<and> (r = None \<and> engs d' = (engs d)(n := None)
       \<or> r = Some n \<and> engs d' = (engs d)(n \<mapsto> e') \<and> engine_core e' = engine_core e)"
proof -
  have "\<exists>rc d1. (if poll_mode (dpar d) then engine_writeback_setup n d else Inr (0, d)) = Inr (rc, d1) \<and> engine_only n d d1"
    using writeback_setup_ok [OF assms(1)] engine_only_refl [OF assms(1)] by auto
  then obtain rc d1 where wb: "(if poll_mode (dpar d) then engine_writeback_setup n d else Inr (0, d)) = Inr (rc, d1)"
    and o: "engine_only n d d1" by blast
  from o assms(1) obtain e1 where e1: "engs d1 = (engs d)(n \<mapsto> e1)" "engine_core e1 = engine_core e"
    and k: "but_engines d1 = but_engines d" by (auto simp: engine_only_def)
  show ?thesis
  proof (cases "rc = 0")
    case True
    let ?d = "dwrite (create_interrupts (poll_mode (dpar d1)) (e_streaming e) (e_dir_to_dev e))
                   (e_regs e + er R_interrupt_enable_mask) d1"
    have "engine_configure n d = Inr (Some n, ?d)"
      using True wb assms by (simp add: engine_configure_def engine_at_def Let_def del: er_offsets)
    then show ?thesis using e1 k by (auto simp: dwrite_eq)
  next
    case False
    let ?d = "if e_msix_irq_line e1 \<noteq> 0 then dcall0 (Free_irq (e_msix_irq_line e1)) d1 else d1"
    have "engine_msix_teardown n d1 = Inr ?d" using e1 by (simp add: engine_msix_teardown_def engine_at_def)
    then have "engine_configure n d = Inr (None, free_engine n ?d)"
      using False wb assms(1) by (simp add: engine_configure_def engine_at_def)
    then show ?thesis using e1 k by (auto simp: free_engine_def dcall0_eq)
  qed
qed

lemma setup_ok:
  assumes e: "engs d n = Some e" "e_rx_transfer_cyclic e = None" "config_ptr d = Inr cfg"
    and len: "nat (d_engines_num (dv d)) + MAX_USER_IRQ < length (d_entry (dv d))"
  shows "\<exists>r d' e' k. engine_setup n d = Inr (r, d') \<and> next_obj d' = next_obj d \<and> dpar d' = dpar d
    \<and> dv d' = (dv d)\<lparr>d_engines_num := d_engines_num (dv d) + of_bool k\<rparr>
    \<and> (r = None \<and> engs d' = (engs d)(n := None)
       \<or> r = Some n \<and> k \<and> engs d' = (engs d)(n \<mapsto> e') \<and> engine_core e' = engine_core e)"
proof -
  have "\<exists>rc d1. (if d_msix_enabled (dv d) then engine_msix_setup n d else Inr (0, d)) = Inr (rc, d1) \<and> engine_only n d d1"
    using msix_setup_ok [OF e(1) len] engine_only_refl [OF e(1)] by auto
  then obtain rc d1 where m: "(if d_msix_enabled (dv d) then engine_msix_setup n d else Inr (0, d)) = Inr (rc, d1)"
    and o: "engine_only n d d1" by blast
  from o e(1) obtain e1 where e1: "engs d1 = (engs d)(n \<mapsto> e1)" "engine_core e1 = engine_core e"
    and k1: "but_engines d1 = but_engines d" by (auto simp: engine_only_def)
  note k1 = but_enginesD [OF k1]
  show ?thesis
  proof (cases "rc = 0")
    case False
    then have "engine_setup n d = Inr (None, free_engine n d1)" using m by (simp add: engine_setup_def)
    then show ?thesis using k1 e1 by (auto simp: free_engine_def dcall0_eq intro!: exI [of _ False])
  next
    case True
    let ?d1 = "upd_dv (d_engines_num_update (\<lambda>k. k + 1)) d1"
    have c1: "config_ptr ?d1 = Inr cfg" using e(3) k1 config_ptr_cong [of d1 d] by simp
    obtain d2 where a: "with_engine n (\<lambda>s. Inr ((), engine_alignments
        (write_reg XDMA_CTRL_NON_INCR_ADDR (e_regs (eng s) + er R_control_w1c) s))) ?d1 = Inr ((), d2)"
      and o2: "engine_only n ?d1 d2"
      using alignments_ok [of ?d1 n e1 cfg] e1 c1 by (auto simp del: er_offsets)
    from o2 e1 obtain e2 where e2: "engs d2 = (engs d)(n \<mapsto> e2)" "engine_core e2 = engine_core e"
      and k2: "but_engines d2 = but_engines ?d1" by (auto simp: engine_only_def)
    note k2 = but_enginesD [OF k2]
    have "e_rx_transfer_cyclic e2 = None" using arg_cong [OF e2(2), of e_rx_transfer_cyclic] e(2) by simp
    with configure_ok [of d2 n e2] e2 obtain r d' e' where c: "engine_configure n d2 = Inr (r, d')" "but_engines d' = but_engines d2"
      "r = None \<and> engs d' = (engs d)(n := None) \<or> r = Some n \<and> engs d' = (engs d)(n \<mapsto> e') \<and> engine_core e' = engine_core e"
      by auto
    have "engine_setup n d = Inr (r, d')" using True m a c(1) by (simp add: engine_setup_def del: er_offsets)
    then show ?thesis using c(3) but_enginesD [OF c(2)] k2 k1 by (auto intro!: exI [of _ True])
  qed
qed

text \<open>
  Creating an engine gives either no engine, leaving the others alone, or a fresh one with
  the number of engines found so far as its interrupt bit.
\<close>

lemma engine_create_ok:
  assumes cfg: "config_ptr d = Inr cfg" and num: "0 \<le> d_engines_num (dv d)" "d_engines_num (dv d) < 16"
    and len: "length (d_entry (dv d)) = 32" and fresh: "engs d (next_obj d) = None"
  shows "\<exists>r d' k. engine_create off dir ch d = Inr (r, d') \<and> next_obj d \<le> next_obj d' \<and> next_obj d' \<le> next_obj d + 1
    \<and> dv d' = (dv d)\<lparr>d_engines_num := d_engines_num (dv d) + of_bool k\<rparr> \<and> dpar d' = dpar d
    \<and> (case r of None \<Rightarrow> engs d' = engs d
       | Some n \<Rightarrow> k \<and> n = next_obj d \<and> next_obj d' = n + 1
           \<and> (\<exists>e. engs d' = (engs d)(n \<mapsto> e)
                \<and> engine_core e = new_engine cfg off dir ch (d_engines_num (dv d))))"
proof -
  let ?n = "next_obj d"
  let ?new = "new_engine cfg off dir ch (d_engines_num (dv d))"
  have new: "engine_core ?new = ?new" "e_rx_transfer_cyclic ?new = None"
    by (simp_all add: engine_core_def new_engine_def zero_engine_def)
  have free: "(engs d)(?n := None) = engs d" using fresh by (simp add: fun_upd_idem)
  define p where "p = w_kern (dwld d) (w_log (dwld d)) (Kzalloc 4)"
  define d1 where "d1 = upd_dwld (emit (Call (Kzalloc 4))) d"
  have p: "dcall (Kzalloc 4) d = (p, d1)" by (simp add: dcall_eq p_def d1_def)
  have d1: "dv d1 = dv d" "engs d1 = engs d" "next_obj d1 = ?n" "dpar d1 = dpar d" "config_ptr d1 = Inr cfg"
    using cfg by (simp_all add: d1_def)
  show ?thesis
  proof (cases "p = 0")
    case True
    then have "engine_create off dir ch d = Inr (None, d1)" by (simp add: engine_create_def p)
    then show ?thesis using d1 by (auto intro!: exI [of _ False])
  next
    case False
    obtain ty w where ty: "get_engine_type (cfg + off) (dwld d1) = (ty, w)" by fastforce
    let ?e = "?new\<lparr>e_streaming := ty \<noteq> 0\<rparr>"
    define d2 where "d2 = d1\<lparr>engs := (engs d)(?n \<mapsto> ?e), next_obj := Suc ?n, dwld := w\<rparr>"
    have d2: "dv d2 = dv d" "engs d2 = (engs d)(?n \<mapsto> ?e)" "next_obj d2 = Suc ?n" "dpar d2 = dpar d" "config_ptr d2 = Inr cfg"
      using d1 cfg by (simp_all add: d2_def)
    have run: "engine_create off dir ch d = engine_setup ?n d2"
      using False by (simp add: engine_create_def p d1 ty Let_def d2_def)
    have a: "engs d2 ?n = Some ?e" "e_rx_transfer_cyclic ?e = None" "config_ptr d2 = Inr cfg"
        "nat (d_engines_num (dv d2)) + MAX_USER_IRQ < length (d_entry (dv d2))"
      using d2 new num len by (simp_all add: MAX_USER_IRQ_def)
    from setup_ok [OF a] obtain r d' e' k where
      s: "engine_setup ?n d2 = Inr (r, d')" "next_obj d' = Suc ?n" "dpar d' = dpar d"
        "dv d' = (dv d)\<lparr>d_engines_num := d_engines_num (dv d) + of_bool k\<rparr>"
        "r = None \<and> engs d' = (engs d)(?n := None) \<or> r = Some ?n \<and> k \<and> engs d' = (engs d)(?n \<mapsto> e') \<and> engine_core e' = ?new"
      unfolding d2 engine_core_upd new(1) fun_upd_upd by (elim exE conjE) (rule that)
    have "case r of None \<Rightarrow> engs d' = engs d
       | Some n \<Rightarrow> k \<and> n = ?n \<and> next_obj d' = n + 1 \<and> (\<exists>e. engs d' = (engs d)(n \<mapsto> e) \<and> engine_core e = ?new)"
      using s(2,5) free by (cases r) auto
    with s(1-4) show ?thesis unfolding run by (intro exI [of _ r] exI [of _ d'] exI [of _ k]) simp
  qed
qed

subsection \<open>The engines found do not overlap\<close>

text \<open>
  What probing keeps: the heap is fresh beyond \<open>next_obj\<close>; every engine of the table is
  alive, has the registers of its slot and, as its interrupt bit, the number of engines
  found before it; two slots have different engines and different bits.
\<close>

definition slot_engine :: "iomem \<Rightarrow> nat \<Rightarrow> nat \<Rightarrow> nat \<Rightarrow> xdma_engine \<Rightarrow> bool" where
  "slot_engine cfg c dir k e \<longleftrightarrow> engine_core e = new_engine cfg (channel_offset (dir = 0) c) (dir = 0) c (int k)"

definition slots_ok :: "iomem \<Rightarrow> (nat \<Rightarrow> nat \<Rightarrow> nat option) \<Rightarrow> (nat \<Rightarrow> xdma_engine option) \<Rightarrow> int \<Rightarrow> (nat \<Rightarrow> nat) \<Rightarrow> bool" where
  "slots_ok cfg T E k b \<longleftrightarrow>
     (\<forall>c dir n. T c dir = Some n \<longrightarrow> dir < 2 \<and> int (b n) < k \<and> (\<exists>e. E n = Some e \<and> slot_engine cfg c dir (b n) e))
     \<and> inj_on b {n. \<exists>c dir. T c dir = Some n}
     \<and> (\<forall>c dir c' dir' n. T c dir = Some n \<longrightarrow> T c' dir' = Some n \<longrightarrow> c = c' \<and> dir = dir')"

definition probed :: "iomem \<Rightarrow> device \<Rightarrow> bool" where
  "probed cfg d \<longleftrightarrow>
     config_ptr d = Inr cfg \<and> length (d_entry (dv d)) = 32 \<and> 0 \<le> d_engines_num (dv d)
     \<and> (\<forall>n\<ge>next_obj d. engs d n = None)
     \<and> (\<exists>b. slots_ok cfg (d_engine (dv d)) (engs d) (d_engines_num (dv d)) b)"

lemma slots_mono: "slots_ok cfg T E k b \<Longrightarrow> k \<le> k' \<Longrightarrow> slots_ok cfg T E k' b"
  by (fastforce simp: slots_ok_def)

lemma set_engine_sel [simp]:
  "d_engine (dv (set_engine c dir r d)) = (d_engine (dv d))(c := (d_engine (dv d) c)(dir := r))"
  "engs (set_engine c dir r d) = engs d" "next_obj (set_engine c dir r d) = next_obj d"
  "d_engines_num (dv (set_engine c dir r d)) = d_engines_num (dv d)" "d_entry (dv (set_engine c dir r d)) = d_entry (dv d)"
  "dpar (set_engine c dir r d) = dpar d" "dwld (set_engine c dir r d) = dwld d"
  "d_bar (dv (set_engine c dir r d)) = d_bar (dv d)" "d_config_bar_idx (dv (set_engine c dir r d)) = d_config_bar_idx (dv d)"
  by (simp_all add: set_engine_def)

lemma probed_world: "probed cfg d \<Longrightarrow> probed cfg (d\<lparr>dwld := w\<rparr>)"
  by (simp add: probed_def)

lemma probed_none:
  assumes "probed cfg d" "d_engine (dv d) c dir = None" "engs d' = engs d" "next_obj d \<le> next_obj d'"
    "dv d' = (dv d)\<lparr>d_engines_num := k\<rparr>" "d_engines_num (dv d) \<le> k"
  shows "probed cfg (set_engine c dir None d')"
proof -
  have t: "(d_engine (dv d))(c := (d_engine (dv d) c)(dir := None)) = d_engine (dv d)"
    using assms(2) by (intro ext) (simp add: fun_upd_def)
  have "config_ptr d' = config_ptr d" using assms(5) by (intro config_ptr_cong) simp_all
  then show ?thesis using assms t by (auto simp: probed_def del: ext intro: slots_mono)
qed

lemma probed_some:
  assumes p: "probed cfg d" and free: "d_engine (dv d) c dir = None" and dir: "dir < 2"
    and d': "engs d' = (engs d)(next_obj d \<mapsto> e)" "next_obj d' = next_obj d + 1"
      "dv d' = (dv d)\<lparr>d_engines_num := d_engines_num (dv d) + 1\<rparr>"
    and e: "engine_core e = new_engine cfg (channel_offset (dir = 0) c) (dir = 0) c (d_engines_num (dv d))"
  shows "probed cfg (set_engine c dir (Some (next_obj d)) d')"
proof -
  let ?n = "next_obj d" and ?T = "d_engine (dv d)" and ?k = "d_engines_num (dv d)"
  let ?T' = "?T(c := (?T c)(dir := Some ?n))"
  from p obtain b where ok: "slots_ok cfg ?T (engs d) ?k b"
    and fresh: "\<forall>n\<ge>?n. engs d n = None" and k: "0 \<le> ?k" by (auto simp: probed_def)
  from ok have b: "\<forall>c dir n. ?T c dir = Some n \<longrightarrow> dir < 2 \<and> int (b n) < ?k
      \<and> (\<exists>e. engs d n = Some e \<and> slot_engine cfg c dir (b n) e)"
    and inj: "inj_on b {n. \<exists>c dir. ?T c dir = Some n}"
    and uniq: "\<forall>c dir c' dir' n. ?T c dir = Some n \<longrightarrow> ?T c' dir' = Some n \<longrightarrow> c = c' \<and> dir = dir'"
    unfolding slots_ok_def by blast+
  have old: "?T c' dir' \<noteq> Some ?n" for c' dir' using b fresh by (metis option.distinct(1) order_refl)
  let ?b = "b(?n := nat ?k)"
  have ran: "{n. \<exists>c dir. ?T' c dir = Some n} \<subseteq> insert ?n {n. \<exists>c dir. ?T c dir = Some n}" by (auto split: if_splits)
  have "nat ?k \<notin> b ` {n. \<exists>c dir. ?T c dir = Some n}" using b k by force
  then have inj': "inj_on ?b {n. \<exists>c dir. ?T' c dir = Some n}"
    using inj old by (intro inj_on_subset [OF _ ran]) (auto simp: inj_on_def image_iff; metis)
  have slots: "\<forall>c' dir' n. ?T' c' dir' = Some n \<longrightarrow> dir' < 2 \<and> int (?b n) < ?k + 1
      \<and> (\<exists>e. engs d' n = Some e \<and> slot_engine cfg c' dir' (?b n) e)"
    using b old dir e k d'(1) by (fastforce simp: slot_engine_def split: if_splits)
  have uniq': "\<forall>c1 dir1 c2 dir2 n. ?T' c1 dir1 = Some n \<longrightarrow> ?T' c2 dir2 = Some n \<longrightarrow> c1 = c2 \<and> dir1 = dir2"
    using uniq old by (auto split: if_splits)
  have "slots_ok cfg ?T' (engs d') (?k + 1) ?b" unfolding slots_ok_def using slots inj' uniq' by blast
  moreover have "\<forall>n\<ge>?n + 1. engs d' n = None" using fresh d'(1) by simp
  moreover have "config_ptr d' = config_ptr d" using d'(3) by (intro config_ptr_cong) simp_all
  ultimately show ?thesis using p d'(2,3) k unfolding probed_def by (simp del: fun_upd_apply) blast
qed

lemma probe_for_engine_ok:
  assumes p: "probed cfg d" and num: "d_engines_num (dv d) < 16" and free: "d_engine (dv d) c (if dir then 0 else 1) = None"
  shows "\<exists>rc d'. probe_for_engine dir c d = Inr (rc, d') \<and> probed cfg d' \<and> d_engines_num (dv d') \<le> d_engines_num (dv d) + 1
    \<and> dpar d' = dpar d
    \<and> (\<exists>r. d_engine (dv d') = (d_engine (dv d))(c := (d_engine (dv d) c)((if dir then 0 else 1) := r)) \<and> (rc \<noteq> 0 \<longrightarrow> r = None))"
proof -
  let ?i = "if dir then 0 else 1 :: nat"
  let ?T = "d_engine (dv d)"
  have t: "?T(c := (?T c)(?i := None)) = ?T" using free by (intro ext) (simp add: fun_upd_def)
  from p have cfg: "config_ptr d = Inr cfg" "length (d_entry (dv d)) = 32" "0 \<le> d_engines_num (dv d)" "engs d (next_obj d) = None"
    by (simp_all add: probed_def)
  obtain v w where g: "get_engine_id (cfg + channel_offset dir c) (dwld d) = (v, w)" by fastforce
  obtain v' w' where g': "get_engine_channel_id (cfg + channel_offset dir c) w = (v', w')" by fastforce
  let ?d = "d\<lparr>dwld := w'\<rparr>"
  show ?thesis
  proof (cases "v \<noteq> (if dir then XDMA_ID_H2C else XDMA_ID_C2H) \<or> unat v' \<noteq> c")
    case True
    then have "probe_for_engine dir c d = Inr (0, ?d)" by (auto simp: probe_for_engine_def cfg g g' Let_def)
    then show ?thesis using p t by (auto intro!: probed_world exI [of _ None])
  next
    case False
    have a: "config_ptr ?d = Inr cfg" "0 \<le> d_engines_num (dv ?d)" "d_engines_num (dv ?d) < 16" "length (d_entry (dv ?d)) = 32"
        "engs ?d (next_obj ?d) = None"
      using cfg num by simp_all
    obtain r d1 k where
      c: "engine_create (channel_offset dir c) dir c ?d = Inr (r, d1)" "next_obj ?d \<le> next_obj d1"
        "dv d1 = (dv ?d)\<lparr>d_engines_num := d_engines_num (dv ?d) + of_bool k\<rparr>" "dpar d1 = dpar ?d"
      and cr: "case r of None \<Rightarrow> engs d1 = engs ?d
        | Some n \<Rightarrow> k \<and> n = next_obj ?d \<and> next_obj d1 = n + 1
           \<and> (\<exists>e. engs d1 = (engs ?d)(n \<mapsto> e)
                \<and> engine_core e = new_engine cfg (channel_offset dir c) dir c (d_engines_num (dv ?d)))"
      using engine_create_ok [OF a, of "channel_offset dir c" dir c] by (elim exE conjE) (rule that)
    have nv: "v = (if dir then XDMA_ID_H2C else XDMA_ID_C2H)" "unat v' = c" using False by auto
    have run: "probe_for_engine dir c d = Inr (if r = None then - 1 else 0, set_engine c ?i r d1)"
      unfolding probe_for_engine_def cfg bindr_Inr Let_def g g' prod.case using nv c(1) by simp
    have "probed cfg (set_engine c ?i r d1)"
    proof (cases r)
      case None
      have "engs d1 = engs d" "next_obj d \<le> next_obj d1" "dv d1 = (dv d)\<lparr>d_engines_num := d_engines_num (dv d) + of_bool k\<rparr>"
          "d_engines_num (dv d) \<le> d_engines_num (dv d) + of_bool k"
        using None cr c(2,3) by simp_all
      from probed_none [OF p free this] show ?thesis unfolding None .
    next
      case (Some n)
      have i: "(?i = 0) = dir" "?i < 2" by simp_all
      from cr Some obtain e where e: "k" "n = next_obj d" "next_obj d1 = next_obj d + 1" "engs d1 = (engs d)(next_obj d \<mapsto> e)"
        "engine_core e = new_engine cfg (channel_offset (?i = 0) c) (?i = 0) c (d_engines_num (dv d))"
        unfolding i by auto
      from c(3) e(1) have dv1: "dv d1 = (dv d)\<lparr>d_engines_num := d_engines_num (dv d) + 1\<rparr>" by simp
      show ?thesis using probed_some [OF p free i(2) e(4,3) dv1 e(5)] unfolding Some e(2) .
    qed
    moreover have "d_engines_num (dv d1) \<le> d_engines_num (dv d) + 1" using c(3) by simp
    ultimately show ?thesis using run c(4) c(3)
      by (intro exI [of _ "if r = None then - 1 else 0"] exI [of _ "set_engine c ?i r d1"]) (simp del: fun_upd_apply, blast)
  qed
qed

lemma probe_channels_ok:
  assumes "probed cfg d" "d_engines_num (dv d) + int k < 16" "\<forall>c'\<ge>c. d_engine (dv d) c' (if dir then 0 else 1) = None"
  shows "\<exists>rc d'. probe_channels dir k c d = Inr (rc, d') \<and> probed cfg d'
    \<and> d_engines_num (dv d') \<le> d_engines_num (dv d) + int k \<and> dpar d' = dpar d
    \<and> (\<forall>c'. d_engine (dv d') c' (if dir then 1 else 0) = d_engine (dv d) c' (if dir then 1 else 0))
    \<and> (\<forall>c'\<ge>c + k. d_engine (dv d') c' (if dir then 0 else 1) = None)"
  using assms
proof (induction k arbitrary: c d)
  case (Suc k)
  let ?i = "if dir then 0 else 1 :: nat" and ?o = "if dir then 1 else 0 :: nat"
  obtain rc d1 r where
    a: "probe_for_engine dir c d = Inr (rc, d1)" "probed cfg d1" "d_engines_num (dv d1) \<le> d_engines_num (dv d) + 1"
       "dpar d1 = dpar d" "d_engine (dv d1) = (d_engine (dv d))(c := (d_engine (dv d) c)(?i := r))" "rc \<noteq> 0 \<longrightarrow> r = None"
    using probe_for_engine_ok [OF Suc.prems(1), of c dir] Suc.prems(2,3) by fastforce
  have o: "\<forall>c'. d_engine (dv d1) c' ?o = d_engine (dv d) c' ?o" using a(5) by (cases dir) auto
  have n: "\<forall>c'\<ge>Suc c. d_engine (dv d1) c' ?i = None" using a(5) Suc.prems(3) by auto
  show ?case
  proof (cases "rc = 0")
    case True
    have "d_engines_num (dv d1) + int k < 16" using a(3) Suc.prems(2) by simp
    from Suc.IH [OF a(2) this n] obtain rc' d' where
      "probe_channels dir k (Suc c) d1 = Inr (rc', d')" "probed cfg d'"
      "d_engines_num (dv d') \<le> d_engines_num (dv d1) + int k" "dpar d' = dpar d1"
      "\<forall>c'. d_engine (dv d') c' ?o = d_engine (dv d1) c' ?o" "\<forall>c'\<ge>Suc c + k. d_engine (dv d') c' ?i = None"
      by (elim exE conjE) (rule that)
    then show ?thesis using a o True by simp
  next
    case False
    have "\<forall>c'\<ge>c + Suc k. d_engine (dv d1) c' ?i = None" using n by simp
    then show ?thesis using a(1-4) o False by simp
  qed
qed auto

lemma engine_destroy_ok:
  assumes "engs d n = Some e"
  shows "\<exists>d'. engine_destroy n d = Inr d' \<and> engs d' = (engs d)(n := None) \<and> d_engine (dv d') = d_engine (dv d)"
  using assms
  by (auto simp: engine_destroy_def engine_at_def engine_msix_teardown_def engine_writeback_teardown_def dwrite_eq dcall0_eq
      free_engine_def)

text \<open>The engines of the table are alive, and no engine is in it twice.\<close>

definition table_ok :: "(nat \<Rightarrow> nat \<Rightarrow> nat option) \<Rightarrow> (nat \<Rightarrow> xdma_engine option) \<Rightarrow> nat \<Rightarrow> bool" where
  "table_ok T E j \<longleftrightarrow> (\<forall>c dir n. T c dir = Some n \<longrightarrow> c < XDMA_CHANNEL_NUM_MAX \<and> dir < 2 \<and> (if c < j then E n = None else E n \<noteq> None))
     \<and> (\<forall>c dir c' dir' n. T c dir = Some n \<longrightarrow> T c' dir' = Some n \<longrightarrow> c = c' \<and> dir = dir')"

lemma probed_table:
  assumes "probed cfg d" "\<forall>c dir n. d_engine (dv d) c dir = Some n \<longrightarrow> c < 4"
  shows "table_ok (d_engine (dv d)) (engs d) 0"
proof -
  from assms(1) obtain b where "slots_ok cfg (d_engine (dv d)) (engs d) (d_engines_num (dv d)) b" by (auto simp: probed_def)
  then show ?thesis using assms(2) unfolding table_ok_def slots_ok_def XDMA_CHANNEL_NUM_MAX_def
    by (metis not_less_zero option.distinct(1))
qed

lemma remove_slot_ok:
  assumes "\<And>n. d_engine (dv d) c dir = Some n \<Longrightarrow> engs d n \<noteq> None"
  shows "\<exists>d'. (case d_engine (dv d) c dir of None \<Rightarrow> Inr d | Some n \<Rightarrow> engine_destroy n d) = Inr d'
    \<and> d_engine (dv d') = d_engine (dv d)
    \<and> engs d' = (case d_engine (dv d) c dir of None \<Rightarrow> engs d | Some n \<Rightarrow> (engs d)(n := None))"
proof (cases "d_engine (dv d) c dir")
  case (Some n)
  then obtain e where "engs d n = Some e" using assms by blast
  from engine_destroy_ok [OF this] Some show ?thesis by auto
qed simp

lemma remove_channel_ok:
  assumes "table_ok (d_engine (dv d)) (engs d) j"
  shows "\<exists>d'. remove_channel j d = Inr d' \<and> d_engine (dv d') = d_engine (dv d) \<and> table_ok (d_engine (dv d)) (engs d') (Suc j)"
proof -
  let ?T = "d_engine (dv d)"
  have t: "c < XDMA_CHANNEL_NUM_MAX \<and> dir < 2 \<and> (if c < j then engs d n = None else engs d n \<noteq> None)"
    if "?T c dir = Some n" for c dir n
    using assms that unfolding table_ok_def by blast
  have u: "c = c' \<and> dir = dir'" if "?T c dir = Some n" "?T c' dir' = Some n" for c dir c' dir' n
    using assms that unfolding table_ok_def by blast
  have "engs d n \<noteq> None" if "?T j 0 = Some n" for n using t [OF that] by simp
  then obtain d1 where d1: "(case ?T j 0 of None \<Rightarrow> Inr d | Some n \<Rightarrow> engine_destroy n d) = Inr d1" "d_engine (dv d1) = ?T"
    "engs d1 = (case ?T j 0 of None \<Rightarrow> engs d | Some n \<Rightarrow> (engs d)(n := None))"
    using remove_slot_ok [of d j 0] by blast
  have "engs d1 n \<noteq> None" if "d_engine (dv d1) j 1 = Some n" for n
    using that t [of j 1 n] u [of j 1 n j 0] d1(2,3) by (auto split: option.split)
  then obtain d2 where d2: "(case d_engine (dv d1) j 1 of None \<Rightarrow> Inr d1 | Some n \<Rightarrow> engine_destroy n d1) = Inr d2" "d_engine (dv d2) = ?T"
    "engs d2 = (case ?T j 1 of None \<Rightarrow> engs d1 | Some n \<Rightarrow> (engs d1)(n := None))"
    using remove_slot_ok [of d1 j 1] d1(2) by auto
  have gone: "engs d2 n = (if ?T j 0 = Some n \<or> ?T j 1 = Some n then None else engs d n)" for n
    using d1(3) d2(3) by (auto split: option.split)
  have "if c < Suc j then engs d2 n = None else engs d2 n \<noteq> None" if "?T c dir = Some n" for c dir n
  proof (cases "c = j")
    case True
    moreover have "dir = 0 \<or> dir = 1" using t [OF that] by auto
    ultimately show ?thesis using that gone by auto
  next
    case False
    then have "?T j i \<noteq> Some n" for i using u that by blast
    then show ?thesis using t [OF that] gone False by (auto simp: less_Suc_eq)
  qed
  then have "table_ok ?T (engs d2) (Suc j)" using t u unfolding table_ok_def by blast
  then show ?thesis using d1(1) d2(1,2) by (auto simp: remove_channel_def)
qed

lemma remove_engines_ok:
  assumes "table_ok (d_engine (dv d)) (engs d) 0"
  shows "\<exists>d'. remove_engines d = Inr d' \<and> d_engine (dv d') = d_engine (dv d)
    \<and> table_ok (d_engine (dv d)) (engs d') XDMA_CHANNEL_NUM_MAX"
proof -
  let ?P = "\<lambda>j u. d_engine (dv u) = d_engine (dv d) \<and> table_ok (d_engine (dv d)) (engs u) j"
  have "\<exists>t. for_loop XDMA_CHANNEL_NUM_MAX 0 remove_channel d = Inr t \<and> ?P (0 + XDMA_CHANNEL_NUM_MAX) t"
    by (rule for_loop_total) (use assms remove_channel_ok in \<open>auto, metis\<close>)
  then show ?thesis by (simp add: remove_engines_def)
qed

text \<open>An engine in a slot of a probed device, and two engines in different slots.\<close>

lemma slot_fields:
  assumes "slots_ok cfg tab es k bit_of" "k \<le> 8" "tab c dir = Some n"
  shows "\<exists>e. es n = Some e \<and> e_regs e = cfg + channel_offset (dir = 0) c \<and> e_dir_to_dev e = (dir = 0)
    \<and> e_channel e = c \<and> e_number_in_channel e = dir \<and> e_transfer_list e = [] \<and> \<not> e_lock e
    \<and> e_irq_bitmask e = push_bit (bit_of n) 1 \<and> bit_of n < 8"
proof -
  from assms(1,3) obtain e where e: "es n = Some e" "slot_engine cfg c dir (bit_of n) e" and k: "int (bit_of n) < k" "dir < 2"
    unfolding slots_ok_def by blast
  from e(2) have "engine_core e = new_engine cfg (channel_offset (dir = 0) c) (dir = 0) c (int (bit_of n))"
    by (simp add: slot_engine_def)
  note f = arg_cong [OF this, of e_regs] arg_cong [OF this, of e_dir_to_dev] arg_cong [OF this, of e_channel]
    arg_cong [OF this, of e_number_in_channel] arg_cong [OF this, of e_transfer_list] arg_cong [OF this, of e_lock]
    arg_cong [OF this, of e_irq_bitmask]
  show ?thesis using f e(1) k assms(2) by (auto simp: new_engine_def zero_engine_def XDMA_ENG_IRQ_NUM_def)
qed

lemma slots_apart:
  assumes s: "slots_ok cfg tab es k bit_of" "k \<le> 8" and t: "tab c dir = Some n" "tab c' dir' = Some n'" "(c', dir') \<noteq> (c, dir)"
  shows "n' \<noteq> n \<and> e_irq_bitmask (the (es n')) AND e_irq_bitmask (the (es n)) = 0"
proof -
  have n: "n' \<noteq> n" using s(1) t unfolding slots_ok_def by blast
  then have "bit_of n' \<noteq> bit_of n"
    using s(1) t unfolding slots_ok_def by (metis (mono_tags, lifting) inj_onD mem_Collect_eq)
  then have "push_bit (bit_of n') 1 AND push_bit (bit_of n) (1 :: u32) = 0"
    by (auto intro!: bit_word_eqI simp: bit_simps)
  then show ?thesis using n slot_fields [OF s t(1)] slot_fields [OF s t(2)] by auto
qed

lemma probed_dir: "probed cfg d \<Longrightarrow> d_engine (dv d) c dir = Some n \<Longrightarrow> dir < 2"
  by (auto simp: probed_def slots_ok_def)

text \<open>The table has entries for the four channels only when the loops have left the others alone.\<close>

lemma four_channels:
  assumes "probed cfg d" "\<forall>c\<ge>4. d_engine (dv d) c 0 = None" "\<forall>c\<ge>4. d_engine (dv d) c 1 = None" "d_engine (dv d) c dir = Some n"
  shows "c < 4"
  using assms(2-4) probed_dir [OF assms(1,4)] by (cases "dir = 0") (auto simp: less_2_cases_iff intro: ccontr)

text \<open>
  C25: Probing a fresh device returns. If it succeeds, every engine found is alive and has
  the register window of its channel and direction, an empty queue and a free lock, and a
  single interrupt bit; and engines of different slots share neither the structure nor the
  interrupt bit, so that an interrupt names one engine. If it fails, every engine that was
  found has been released.
\<close>

theorem probe_engines_outcome:
  assumes "config_ptr d = Inr cfg" "d_engine (dv d) = (\<lambda>_ _. None)" "d_engines_num (dv d) = 0"
    "length (d_entry (dv d)) = 32" "\<forall>n\<ge>next_obj d. engs d n = None"
  shows "\<exists>rc d'. probe_engines d = Inr (rc, d')
    \<and> (\<forall>c dir n. d_engine (dv d') c dir = Some n \<longrightarrow> c < 4 \<and> dir < 2 \<and>
        (if rc \<noteq> 0 then engs d' n = None
         else (\<exists>e b. engs d' n = Some e \<and> e_regs e = cfg + channel_offset (dir = 0) c \<and> e_dir_to_dev e = (dir = 0)
                \<and> e_channel e = c \<and> e_number_in_channel e = dir \<and> e_transfer_list e = [] \<and> \<not> e_lock e
                \<and> e_irq_bitmask e = push_bit b 1 \<and> b < 8)
            \<and> (\<forall>c' dir' n'. d_engine (dv d') c' dir' = Some n' \<longrightarrow> (c', dir') \<noteq> (c, dir) \<longrightarrow>
                n' \<noteq> n \<and> e_irq_bitmask (the (engs d' n')) AND e_irq_bitmask (the (engs d' n)) = 0)))"
proof -
  have p: "probed cfg d" using assms by (auto simp: probed_def slots_ok_def)
  from probe_channels_ok [OF p, of 4 0 True] assms(2,3) obtain rc d1 where
    a: "probe_channels True 4 0 d = Inr (rc, d1)" "probed cfg d1" "d_engines_num (dv d1) \<le> 4"
       "\<forall>c. d_engine (dv d1) c 1 = None" "\<forall>c\<ge>4. d_engine (dv d1) c 0 = None" by auto
  show ?thesis
  proof (cases "rc = 0")
    case False
    have "c < 4" if "d_engine (dv d1) c dir = Some n" for c dir n using four_channels [OF a(2,5) _ that] a(4) by simp
    then have "table_ok (d_engine (dv d1)) (engs d1) 0" by (intro probed_table [OF a(2)]) blast
    from remove_engines_ok [OF this] obtain d' where
      r: "remove_engines d1 = Inr d'" "table_ok (d_engine (dv d')) (engs d') XDMA_CHANNEL_NUM_MAX" by metis
    have "probe_engines d = Inr (- 1, d')" using False a(1) r by (simp add: probe_engines_def XDMA_CHANNEL_NUM_MAX_def)
    moreover have "c < 4 \<and> dir < 2 \<and> engs d' n = None" if "d_engine (dv d') c dir = Some n" for c dir n
      using r(2) that by (auto simp: table_ok_def XDMA_CHANNEL_NUM_MAX_def)
    ultimately show ?thesis by (intro exI [of _ "- 1"] exI [of _ d']) simp
  next
    case True
    from probe_channels_ok [OF a(2), of 4 0 False] a(3,4) obtain rc' d' where
      b: "probe_channels False 4 0 d1 = Inr (rc', d')" "probed cfg d'" "d_engines_num (dv d') \<le> 8"
         "\<forall>c. d_engine (dv d') c 0 = d_engine (dv d1) c 0" "\<forall>c\<ge>4. d_engine (dv d') c 1 = None" by auto
    have run: "probe_engines d = Inr (0, d')" using True a(1) b(1) by (simp add: probe_engines_def XDMA_CHANNEL_NUM_MAX_def)
    from b(2) obtain bit_of where s: "slots_ok cfg (d_engine (dv d')) (engs d') (d_engines_num (dv d')) bit_of"
      by (auto simp: probed_def)
    have none0: "\<forall>c\<ge>4. d_engine (dv d') c 0 = None" using a(5) b(4) by simp
    show ?thesis
    proof (intro exI [of _ 0] exI [of _ d'] conjI allI impI, rule run)
      fix c dir n assume t: "d_engine (dv d') c dir = Some n"
      show "c < 4" "dir < 2" using four_channels [OF b(2) none0 b(5) t] probed_dir [OF b(2) t] .
      show "if (0 :: int) \<noteq> 0 then engs d' n = None
         else (\<exists>e b. engs d' n = Some e \<and> e_regs e = cfg + channel_offset (dir = 0) c \<and> e_dir_to_dev e = (dir = 0)
                \<and> e_channel e = c \<and> e_number_in_channel e = dir \<and> e_transfer_list e = [] \<and> \<not> e_lock e
                \<and> e_irq_bitmask e = push_bit b 1 \<and> b < 8)
            \<and> (\<forall>c' dir' n'. d_engine (dv d') c' dir' = Some n' \<longrightarrow> (c', dir') \<noteq> (c, dir) \<longrightarrow>
                n' \<noteq> n \<and> e_irq_bitmask (the (engs d' n')) AND e_irq_bitmask (the (engs d' n)) = 0)"
        using slot_fields [OF s b(3) t] slots_apart [OF s b(3) t] by simp metis
    qed
  qed
qed

subsection \<open>Interrupt vectors are requested all or none\<close>

text \<open>How often the vectors of the table entries from \<open>i\<close> to \<open>j\<close> are a given resource.\<close>

definition vectors :: "s32 list \<Rightarrow> nat \<Rightarrow> nat \<Rightarrow> resource \<Rightarrow> int" where
  "vectors es i j x = (\<Sum>l\<leftarrow>[i..<j]. of_bool (x = R_irq (es ! l)))"

lemma vectors_simps [simp]:
  "vectors es i i x = 0" "vectors es 0 (Suc j) x = vectors es 0 j x + of_bool (x = R_irq (es ! j))"
  by (simp_all add: vectors_def)

lemma vectors_first: "i < j \<Longrightarrow> vectors es i j x = of_bool (x = R_irq (es ! i)) + vectors es (Suc i) j x"
  by (simp add: vectors_def upt_conv_Cons)

lemma request_user_irqs_ok:
  assumes "i + k \<le> length (d_entry (dv d))"
  shows "\<exists>rc j d'. request_user_irqs k i d = Inr (rc, j, d') \<and> i \<le> j \<and> j \<le> i + k \<and> (rc = 0 \<longrightarrow> j = i + k)
    \<and> dv d' = dv d \<and> (\<forall>x. balance (dwld d') x = balance (dwld d) x + vectors (d_entry (dv d)) i j x)"
  using assms
proof (induction k arbitrary: i d)
  case (Suc k)
  let ?v = "d_entry (dv d) ! i"
  let ?r = "w_kern (dwld d) (w_log (dwld d)) (Request_irq ?v)"
  let ?d = "upd_dwld (emit (Call (Request_irq ?v))) d"
  have i: "i < length (d_entry (dv d))" using Suc.prems by simp
  show ?case
  proof (cases "?r = 0")
    case True
    from Suc.IH [of "Suc i" ?d] Suc.prems obtain rc j d' where
      r: "request_user_irqs k (Suc i) ?d = Inr (rc, j, d')" "Suc i \<le> j" "j \<le> Suc i + k" "rc = 0 \<longrightarrow> j = Suc i + k"
        "dv d' = dv d" "\<forall>x. balance (dwld d') x = balance (dwld ?d) x + vectors (d_entry (dv d)) (Suc i) j x"
      by auto
    have "balance (dwld d') x = balance (dwld d) x + vectors (d_entry (dv d)) i j x" for x
      using r(2,6) True vectors_first [of i j "d_entry (dv d)" x] by (auto simp: balance_call)
    then show ?thesis using r(1-5) i True by (auto simp: dcall_eq Let_def)
  next
    case False
    have "balance (dwld ?d) x = balance (dwld d) x" for x using False by (simp add: balance_call)
    then show ?thesis using i False by (auto simp: dcall_eq Let_def)
  qed
qed auto

lemma free_user_irqs_ok:
  assumes "i \<le> length (d_entry (dv d))"
  shows "\<exists>d'. free_user_irqs i d = Inr d' \<and> dv d' = dv d
    \<and> (\<forall>x. balance (dwld d') x = balance (dwld d) x - vectors (d_entry (dv d)) 0 i x)"
  using assms
proof (induction i arbitrary: d)
  case (Suc i)
  let ?d = "upd_dwld (emit (Call (Free_irq (d_entry (dv d) ! i)))) d"
  from Suc.IH [of ?d] Suc.prems obtain d' where
    "free_user_irqs i ?d = Inr d'" "dv d' = dv d"
    "\<forall>x. balance (dwld d') x = balance (dwld ?d) x - vectors (d_entry (dv d)) 0 i x" by auto
  then show ?case using Suc.prems by (auto simp: dcall0_eq balance_call)
qed simp

lemma teardown_user_ok:
  assumes "i + k \<le> length (d_entry (dv d))"
  shows "\<exists>d'. for_loop k i (\<lambda>i d. bindr (array_get (d_entry (dv d)) i) (\<lambda>vector. Inr (dcall0 (Free_irq vector) d))) d = Inr d'
    \<and> dv d' = dv d \<and> (\<forall>x. balance (dwld d') x = balance (dwld d) x - vectors (d_entry (dv d)) i (i + k) x)"
  using assms
proof (induction k arbitrary: i d)
  case (Suc k)
  let ?d = "upd_dwld (emit (Call (Free_irq (d_entry (dv d) ! i)))) d"
  from Suc.IH [of "Suc i" ?d] Suc.prems obtain d' where
    d': "for_loop k (Suc i) (\<lambda>i d. bindr (array_get (d_entry (dv d)) i) (\<lambda>vector. Inr (dcall0 (Free_irq vector) d))) ?d = Inr d'"
      "dv d' = dv d" "\<forall>x. balance (dwld d') x = balance (dwld ?d) x - vectors (d_entry (dv d)) (Suc i) (Suc i + k) x" by auto
  have "vectors (d_entry (dv d)) i (i + Suc k) x
      = of_bool (x = R_irq (d_entry (dv d) ! i)) + vectors (d_entry (dv d)) (Suc i) (Suc i + k) x" for x
    using vectors_first [of i "i + Suc k"] by simp
  then show ?case using d' Suc.prems by (auto simp: dcall0_eq balance_call)
qed simp

lemma write_vectors_ok:
  assumes "config_ptr d = Inr cfg"
  shows "\<exists>d'. write_msix_vectors d = Inr d' \<and> dv d' = dv d \<and> (\<forall>x. balance (dwld d') x = balance (dwld d) x)"
  using assms by (simp add: write_msix_vectors_def dwrite_eq Let_def)

lemma irq_setup_msix:
  assumes "d_msix_enabled (dv d)" "length (d_entry (dv d)) = 32" "config_ptr d = Inr cfg"
  shows "\<exists>rc d1. irq_setup d = Inr (rc, d1)
    \<and> dv d1 = (dv d)\<lparr>d_irq_user_count := (if rc = 0 then 16 else d_irq_user_count (dv d))\<rparr>
    \<and> (\<forall>x. balance (dwld d1) x = balance (dwld d) x + (if rc = 0 then vectors (d_entry (dv d)) 0 16 x else 0))"
proof -
  obtain da where a: "write_msix_vectors d = Inr da" "dv da = dv d" "\<forall>x. balance (dwld da) x = balance (dwld d) x"
    using write_vectors_ok [OF assms(3)] by blast
  obtain rc j db where b: "request_user_irqs 16 0 da = Inr (rc, j, db)" "j \<le> 16" "rc = 0 \<longrightarrow> j = 16" "dv db = dv d"
    "\<forall>x. balance (dwld db) x = balance (dwld d) x + vectors (d_entry (dv d)) 0 j x"
    using request_user_irqs_ok [of 0 16 da] assms(2) a(2,3) by auto
  show ?thesis
  proof (cases "rc = 0")
    case True
    have "irq_setup d = Inr (0, upd_dv (d_irq_user_count_update (\<lambda>_. 16)) db)"
      using True a(1) b(1) assms(1) by (simp add: irq_setup_def msix_irq_setup_def MAX_USER_IRQ_def)
    moreover have "dv (upd_dv (d_irq_user_count_update (\<lambda>_. 16)) db) = (dv d)\<lparr>d_irq_user_count := 16\<rparr>" using b(4) by simp
    ultimately show ?thesis using True b(3,5) by (intro exI [of _ 0] exI conjI) auto
  next
    case False
    obtain d1 where f: "free_user_irqs j db = Inr d1" "dv d1 = dv d" "\<forall>x. balance (dwld d1) x = balance (dwld d) x"
      using free_user_irqs_ok [of j db] b(2,4,5) assms(2) by auto
    have "irq_setup d = Inr (- 1, d1)"
      using False a(1) b(1) f(1) assms(1) by (simp add: irq_setup_def msix_irq_setup_def MAX_USER_IRQ_def)
    then show ?thesis using f(2,3) by (intro exI [of _ "- 1"] exI [of _ d1]) simp
  qed
qed

text \<open>What the teardown releases.\<close>

definition irqs_held :: "device \<Rightarrow> resource \<Rightarrow> int" where
  "irqs_held d x =
     (if d_msix_enabled (dv d) then vectors (d_entry (dv d)) 0 (d_irq_user_count (dv d)) x
      else of_bool (d_irq_line (dv d) \<noteq> - 1 \<and> x = R_irq (d_irq_line (dv d))))"

lemma irq_teardown_ok:
  assumes "d_irq_user_count (dv d) \<le> length (d_entry (dv d))"
  shows "\<exists>d'. irq_teardown d = Inr d' \<and> dv d' = dv d \<and> (\<forall>x. balance (dwld d') x = balance (dwld d) x - irqs_held d x)"
  using teardown_user_ok [of 0 "d_irq_user_count (dv d)" d] assms
  by (auto simp: irq_teardown_def irqs_held_def dcall0_eq balance_call)

text \<open>
  C26: With MSI-X, setting up the interrupts either requests the sixteen user vectors or,
  when one is refused, releases those it got; and the teardown that follows, on success or
  on failure, leaves every interrupt line as it was found.
\<close>

theorem irq_setup_teardown:
  assumes "d_msix_enabled (dv d)" "d_irq_user_count (dv d) = 0" "length (d_entry (dv d)) = 32" "config_ptr d = Inr cfg"
  shows "\<exists>rc d1 d2. irq_setup d = Inr (rc, d1) \<and> irq_teardown d1 = Inr d2
    \<and> (\<forall>x. balance (dwld d1) x = balance (dwld d) x + (if rc = 0 then vectors (d_entry (dv d)) 0 16 x else 0))
    \<and> (\<forall>x. balance (dwld d2) x = balance (dwld d) x)"
proof -
  obtain rc d1 where s: "irq_setup d = Inr (rc, d1)"
    "dv d1 = (dv d)\<lparr>d_irq_user_count := (if rc = 0 then 16 else d_irq_user_count (dv d))\<rparr>"
    "\<forall>x. balance (dwld d1) x = balance (dwld d) x + (if rc = 0 then vectors (d_entry (dv d)) 0 16 x else 0)"
    using irq_setup_msix [OF assms(1,3,4)] by blast
  have "d_irq_user_count (dv d1) \<le> length (d_entry (dv d1))" using s(2) assms(2,3) by simp
  from irq_teardown_ok [OF this] show ?thesis using s assms(1,2) by (auto simp: irqs_held_def)
qed

lemma legacy_vectors_ok:
  assumes "config_ptr d = Inr cfg"
  shows "\<exists>d'. legacy_vectors d = Inr d' \<and> dv d' = dv d \<and> pci d' = pci d \<and> (\<forall>x. balance (dwld d') x = balance (dwld d) x)"
  using assms by (auto simp: legacy_vectors_def dcall_eq dwrite_eq Let_def balance_call)

text \<open>
  Without MSI-X the line is recorded before it is requested: when the request fails,
  the teardown that follows on the error path releases a line the driver never held.
\<close>

theorem irq_setup_failure_frees:
  assumes "\<not> d_msix_enabled (dv d)" "config_ptr d = Inr cfg" "pd_irq (pci d) \<noteq> - 1"
    and "irq_setup d = Inr (rc, d1)" "rc \<noteq> 0"
  shows "\<exists>d2. irq_teardown d1 = Inr d2
    \<and> balance (dwld d2) (R_irq (pd_irq (pci d))) = balance (dwld d) (R_irq (pd_irq (pci d))) - 1"
proof -
  obtain da where a: "(if \<not> d_msi_enabled (dv d) then legacy_vectors d else Inr d) = Inr da" "dv da = dv d" "pci da = pci d"
    "\<forall>x. balance (dwld da) x = balance (dwld d) x"
    using legacy_vectors_ok [OF assms(2)] by (cases "d_msi_enabled (dv d)") auto
  let ?i = "pd_irq (pci d)"
  let ?db = "upd_dv (d_irq_line_update (\<lambda>_. ?i)) da"
  have "irq_setup d = Inr (dcall (Request_irq ?i) ?db)" using assms(1) a(1,3) by (simp add: irq_setup_def)
  then have d1: "d1 = upd_dwld (emit (Call (Request_irq ?i))) ?db" "rc = w_kern (dwld da) (w_log (dwld da)) (Request_irq ?i)"
    using assms(4) by (simp_all add: dcall_eq)
  have "balance (dwld d1) (R_irq ?i) = balance (dwld d) (R_irq ?i)" using a(4) d1 assms(5) by (simp add: balance_call)
  moreover have "irq_teardown d1 = Inr (upd_dwld (emit (Call (Free_irq ?i))) d1)"
    using assms(1,3) a(2) by (simp add: d1(1) irq_teardown_def dcall0_eq)
  ultimately show ?thesis by (simp add: balance_call)
qed

subsection \<open>Every channel that answers is found\<close>

text \<open>
  On a device whose registers do not change, with interrupts on one line, without polling
  and with memory to be had, probing finds exactly the channels that identify themselves.
\<close>

definition steady :: "(iomem \<Rightarrow> u32) \<Rightarrow> device \<Rightarrow> bool" where
  "steady f d \<longleftrightarrow> (\<forall>l a. w_dev (dwld d) l a = f a) \<and> (\<forall>l. w_kern (dwld d) l (Kzalloc 4) \<noteq> 0)
     \<and> \<not> d_msix_enabled (dv d) \<and> \<not> poll_mode (dpar d)"

definition identifies :: "(iomem \<Rightarrow> u32) \<Rightarrow> iomem \<Rightarrow> bool \<Rightarrow> nat \<Rightarrow> bool" where
  "identifies f cfg dir c \<longleftrightarrow>
     (let v = f (cfg + channel_offset dir c) in
      drop_bit 16 (v AND 0xffff0000) = (if dir then XDMA_ID_H2C else XDMA_ID_C2H) \<and> unat (drop_bit 8 (v AND 0x00000f00)) = c)"

lemma steady_extends:
  assumes "steady f d" "extends (dwld d) (dwld d')" "d_msix_enabled (dv d') = d_msix_enabled (dv d)" "dpar d' = dpar d"
  shows "steady f d'"
  using assms by (auto simp: steady_def extends_def)

lemma setup_plain:
  assumes "\<not> d_msix_enabled (dv d)" "\<not> poll_mode (dpar d)" "engs d n = Some e" "e_rx_transfer_cyclic e = None"
    "config_ptr d = Inr cfg"
  shows "\<exists>d'. engine_setup n d = Inr (Some n, d') \<and> extends (dwld d) (dwld d')"
proof -
  have r: "e_rx_transfer_cyclic (eng (engine_alignments s)) = e_rx_transfer_cyclic (eng s)" for s
    by (metis core_alignments engine_core_sel(11))
  show ?thesis
    using assms by (auto simp: engine_setup_def with_engine_def engine_at_def engine_configure_def Let_def dwrite_eq r
        simp del: er_offsets split: option.split)
qed

lemma create_plain:
  assumes "steady f d" "config_ptr d = Inr cfg"
  shows "\<exists>n d'. engine_create off dir c d = Inr (Some n, d') \<and> extends (dwld d) (dwld d')"
proof -
  define p where "p = w_kern (dwld d) (w_log (dwld d)) (Kzalloc 4)"
  define d1 where "d1 = upd_dwld (emit (Call (Kzalloc 4))) d"
  have p: "dcall (Kzalloc 4) d = (p, d1)" "p \<noteq> 0" using assms(1) by (simp_all add: dcall_eq p_def d1_def steady_def)
  have d1: "dv d1 = dv d" "next_obj d1 = next_obj d" "engs d1 = engs d" "dpar d1 = dpar d" "config_ptr d1 = Inr cfg"
      "extends (dwld d) (dwld d1)"
    using assms by (simp_all add: d1_def)
  obtain ty w where ty: "get_engine_type (cfg + off) (dwld d1) = (ty, w)" by fastforce
  then have w: "extends (dwld d1) w" by (auto simp: get_engine_type_def read_register_def Let_def)
  let ?e = "(new_engine cfg off dir c (d_engines_num (dv d)))\<lparr>e_streaming := ty \<noteq> 0\<rparr>"
  let ?d2 = "d1\<lparr>engs := (engs d)(next_obj d \<mapsto> ?e), next_obj := Suc (next_obj d), dwld := w\<rparr>"
  have "engine_create off dir c d = engine_setup (next_obj d) ?d2"
    using p by (simp add: engine_create_def d1 ty Let_def)
  moreover have "\<exists>d'. engine_setup (next_obj d) ?d2 = Inr (Some (next_obj d), d') \<and> extends (dwld ?d2) (dwld d')"
    by (rule setup_plain [of _ _ ?e cfg]) (use assms(1) d1 in \<open>simp_all add: steady_def new_engine_def zero_engine_def\<close>)
  ultimately show ?thesis using extends_trans [OF extends_trans [OF d1(6) w]] by auto
qed

lemma probe_for_engine_finds:
  assumes s: "steady f d" and p: "probed cfg d" and num: "d_engines_num (dv d) < 16"
    and free: "d_engine (dv d) c (if dir then 0 else 1) = None"
  shows "\<exists>d'. probe_for_engine dir c d = Inr (0, d') \<and> steady f d' \<and> probed cfg d'
    \<and> d_engines_num (dv d') \<le> d_engines_num (dv d) + 1
    \<and> (\<exists>r. d_engine (dv d') = (d_engine (dv d))(c := (d_engine (dv d) c)((if dir then 0 else 1) := r))
         \<and> (r \<noteq> None \<longleftrightarrow> identifies f cfg dir c))"
proof -
  let ?i = "if dir then 0 else 1 :: nat"
  let ?a = "cfg + channel_offset dir c"
  let ?w = "emit (Rd ?a) (emit (Rd ?a) (dwld d))"
  have cfg: "config_ptr d = Inr cfg" using p by (simp add: probed_def)
  have g: "get_engine_id ?a (dwld d) = (drop_bit 16 (f ?a AND 0xffff0000), emit (Rd ?a) (dwld d))"
      "get_engine_channel_id ?a (emit (Rd ?a) (dwld d)) = (drop_bit 8 (f ?a AND 0xf00), ?w)"
    using s by (simp_all add: get_engine_id_def get_engine_channel_id_def read_register_def steady_def)
  have run: "probe_for_engine dir c d = (if identifies f cfg dir c
      then bindr (engine_create (channel_offset dir c) dir c (d\<lparr>dwld := ?w\<rparr>)) (\<lambda>(r, d).
               Inr (if r = None then - 1 else 0, set_engine c ?i r d))
      else Inr (0, d\<lparr>dwld := ?w\<rparr>))"
    unfolding probe_for_engine_def cfg bindr_Inr Let_def g prod.case by (auto simp: identifies_def Let_def)
  have sw: "steady f (d\<lparr>dwld := ?w\<rparr>)" by (rule steady_extends [OF s]) auto
  obtain rc d' r where o: "probe_for_engine dir c d = Inr (rc, d')" "probed cfg d'" "d_engines_num (dv d') \<le> d_engines_num (dv d) + 1"
      "dpar d' = dpar d" "d_engine (dv d') = (d_engine (dv d))(c := (d_engine (dv d) c)(?i := r))"
    using probe_for_engine_ok [OF p num free] by (elim exE conjE) (rule that)
  show ?thesis
  proof (cases "identifies f cfg dir c")
    case True
    have cw: "config_ptr (d\<lparr>dwld := ?w\<rparr>) = Inr cfg" using cfg by simp
    obtain n d1 where e: "engine_create (channel_offset dir c) dir c (d\<lparr>dwld := ?w\<rparr>) = Inr (Some n, d1)"
      "extends ?w (dwld d1)" using create_plain [OF sw cw, of "channel_offset dir c" dir c] by auto
    have r: "rc = 0" "d' = set_engine c ?i (Some n) d1" using o(1) run True e(1) by simp_all
    have num': "0 \<le> d_engines_num (dv d)" "length (d_entry (dv d)) = 32" "engs d (next_obj d) = None" using p by (simp_all add: probed_def)
    have "d_msix_enabled (dv d1) = d_msix_enabled (dv d)"
      using engine_create_ok [OF cw, of "channel_offset dir c" dir c] num num' e(1) by auto
    then have "steady f d'" using e(2) o(4) r(2)
      by (intro steady_extends [OF sw]) (auto simp: set_engine_def)
    moreover have "r \<noteq> None"
    proof -
      have "d_engine (dv d') c ?i = Some n" by (simp add: r(2))
      then show ?thesis using o(5) by simp
    qed
    ultimately show ?thesis using o r True by blast
  next
    case False
    then have d': "rc = 0" "d' = d\<lparr>dwld := ?w\<rparr>" using o(1) run by simp_all
    then have "r = None" using o(5) free by (metis device.select_convs(1) device.surjective device.update_convs(11) fun_upd_same)
    then show ?thesis using o d' sw False by blast
  qed
qed

lemma probe_channels_finds:
  assumes "steady f d" "probed cfg d" "d_engines_num (dv d) + int k < 16"
    "\<forall>c'\<ge>c. d_engine (dv d) c' (if dir then 0 else 1) = None"
  shows "\<exists>d'. probe_channels dir k c d = Inr (0, d') \<and> steady f d' \<and> probed cfg d'
    \<and> d_engines_num (dv d') \<le> d_engines_num (dv d) + int k
    \<and> (\<forall>c' dir'. d_engine (dv d') c' dir' \<noteq> None \<longleftrightarrow>
          (if dir' = (if dir then 0 else 1) \<and> c \<le> c' \<and> c' < c + k then identifies f cfg dir c'
           else d_engine (dv d) c' dir' \<noteq> None))"
  using assms
proof (induction k arbitrary: c d)
  case (Suc k)
  let ?i = "if dir then 0 else 1 :: nat"
  obtain d1 r where a: "probe_for_engine dir c d = Inr (0, d1)" "steady f d1" "probed cfg d1"
      "d_engines_num (dv d1) \<le> d_engines_num (dv d) + 1"
      "d_engine (dv d1) = (d_engine (dv d))(c := (d_engine (dv d) c)(?i := r))" "r \<noteq> None \<longleftrightarrow> identifies f cfg dir c"
    using probe_for_engine_finds [OF Suc.prems(1,2), of c dir] Suc.prems(3,4) by fastforce
  have b: "d_engines_num (dv d1) + int k < 16" "\<forall>c'\<ge>Suc c. d_engine (dv d1) c' ?i = None"
    using a(4,5) Suc.prems(3,4) by auto
  obtain d' where d': "probe_channels dir k (Suc c) d1 = Inr (0, d')" "steady f d'" "probed cfg d'"
      "d_engines_num (dv d') \<le> d_engines_num (dv d1) + int k"
    and t: "\<forall>c' dir'. d_engine (dv d') c' dir' \<noteq> None \<longleftrightarrow>
          (if dir' = ?i \<and> Suc c \<le> c' \<and> c' < Suc c + k then identifies f cfg dir c' else d_engine (dv d1) c' dir' \<noteq> None)"
    using Suc.IH [OF a(2,3) b] by (elim exE conjE) (rule that)
  have "d_engine (dv d') c' dir' \<noteq> None \<longleftrightarrow>
      (if dir' = ?i \<and> c \<le> c' \<and> c' < c + Suc k then identifies f cfg dir c' else d_engine (dv d) c' dir' \<noteq> None)" for c' dir'
    using t a(5,6) by (cases "c' = c") auto
  then show ?case using a(1,4) d' by auto
qed auto

lemma probe_finds_all:
  assumes "steady f d" "config_ptr d = Inr cfg" "d_engine (dv d) = (\<lambda>_ _. None)" "d_engines_num (dv d) = 0"
    "length (d_entry (dv d)) = 32" "\<forall>n\<ge>next_obj d. engs d n = None"
  shows "\<exists>d'. probe_engines d = Inr (0, d')
    \<and> (\<forall>c<4. (d_engine (dv d') c 0 \<noteq> None \<longleftrightarrow> identifies f cfg True c) \<and> (d_engine (dv d') c 1 \<noteq> None \<longleftrightarrow> identifies f cfg False c))"
proof -
  have p: "probed cfg d" using assms by (auto simp: probed_def slots_ok_def)
  from probe_channels_finds [OF assms(1) p, of 4 0 True] assms(3,4) obtain d1 where
    a: "probe_channels True 4 0 d = Inr (0, d1)" "steady f d1" "probed cfg d1" "d_engines_num (dv d1) \<le> 4"
      "\<forall>c dir. d_engine (dv d1) c dir \<noteq> None \<longleftrightarrow> dir = 0 \<and> c < 4 \<and> identifies f cfg True c" by auto
  have none: "\<forall>c'\<ge>0. d_engine (dv d1) c' (if False then 0 else 1) = None" using a(5) by (metis if_False option.exhaust_sel zero_neq_one)
  have num: "d_engines_num (dv d1) + int 4 < 16" using a(4) by simp
  from probe_channels_finds [OF a(2,3) num none] obtain d2 where
    b: "probe_channels False 4 0 d1 = Inr (0, d2)"
      "\<forall>c dir. d_engine (dv d2) c dir \<noteq> None \<longleftrightarrow> (if dir = 1 \<and> c < 4 then identifies f cfg False c else d_engine (dv d1) c dir \<noteq> None)"
    by auto
  have "probe_engines d = Inr (0, d2)" using a(1) b(1) by (simp add: probe_engines_def XDMA_CHANNEL_NUM_MAX_def)
  then show ?thesis using a(5) b(2) by auto
qed

subsection \<open>Concrete runs\<close>

text \<open>A mapped device whose first BAR answers as one channel in each direction.\<close>

definition unprobed_device :: device where
  "unprobed_device = fresh_device\<lparr>
     dv := no_dev\<lparr>d_bar := [0x10000, 0, 0, 0, 0, 0], d_config_bar_idx := 0\<rparr>,
     dwld := idle_world\<lparr>w_dev := (\<lambda>_ a. if a = 0x10000 then 0x1fc00006 else if a = 0x11000 then 0x1fc10006 else 0)\<rparr>\<rparr>"

lemma unprobed_config: "config_ptr unprobed_device = Inr 0x10000"
  by (simp add: config_ptr_def bar_ptr_def unprobed_device_def)

text \<open>With MSI-X enabled; the kernel of this world refuses every vector.\<close>

theorem irq_setup_teardown_witness:
  "\<exists>rc d1 d2. irq_setup (upd_dv (\<lambda>v. v\<lparr>d_msix_enabled := True\<rparr>) unprobed_device) = Inr (rc, d1) \<and> irq_teardown d1 = Inr d2
     \<and> balance (dwld d2) (R_irq 0) = balance (dwld unprobed_device) (R_irq 0)"
proof -
  let ?d = "upd_dv (\<lambda>v. v\<lparr>d_msix_enabled := True\<rparr>) unprobed_device"
  have a: "d_msix_enabled (dv ?d)" "d_irq_user_count (dv ?d) = 0" "length (d_entry (dv ?d)) = 32" "config_ptr ?d = Inr 0x10000"
    by (simp_all add: unprobed_device_def no_dev_def fresh_device_def config_ptr_def bar_ptr_def)
  from irq_setup_teardown [OF a] obtain rc d1 d2 where r: "irq_setup ?d = Inr (rc, d1)" "irq_teardown d1 = Inr d2"
    "\<forall>x. balance (dwld d2) x = balance (dwld ?d) x" by (elim exE conjE) (rule that)
  then show ?thesis using r by auto
qed

theorem irq_setup_failure_frees_witness:
  "\<exists>rc d1 d2. irq_setup unprobed_device = Inr (rc, d1) \<and> irq_teardown d1 = Inr d2
     \<and> balance (dwld d2) (R_irq 11) = - 1"
proof -
  have "run_ok (\<lambda>(rc, d). rc \<noteq> 0) (irq_setup unprobed_device)" by code_simp
  then obtain rc d1 where r: "irq_setup unprobed_device = Inr (rc, d1)" "rc \<noteq> 0" by (auto elim!: run_okE)
  have a: "\<not> d_msix_enabled (dv unprobed_device)" "pd_irq (pci unprobed_device) = 11" "w_log (dwld unprobed_device) = []"
    by (simp_all add: unprobed_device_def no_dev_def fresh_device_def sample_pci_def idle_world_def)
  have b: "balance (dwld unprobed_device) x = 0" for x using a(3) by (simp add: balance_def)
  from irq_setup_failure_frees [OF a(1) unprobed_config _ r] show ?thesis using r(1) by (auto simp: a(2) b)
qed

theorem probe_engines_outcome_witness:
  "\<exists>d' n m. probe_engines unprobed_device = Inr (0, d') \<and> d_engine (dv d') 0 0 = Some n \<and> d_engine (dv d') 0 1 = Some m
     \<and> n \<noteq> m \<and> e_irq_bitmask (the (engs d' n)) AND e_irq_bitmask (the (engs d' m)) = 0"
proof -
  have a: "d_engine (dv unprobed_device) = (\<lambda>_ _. None)" "d_engines_num (dv unprobed_device) = 0"
    "length (d_entry (dv unprobed_device)) = 32" "\<forall>n\<ge>next_obj unprobed_device. engs unprobed_device n = None"
    by (simp_all add: unprobed_device_def no_dev_def fresh_device_def)
  let ?f = "\<lambda>a. if a = 0x10000 then 0x1fc00006 else if a = 0x11000 then 0x1fc10006 else 0 :: u32"
  have s: "steady ?f unprobed_device"
    by (simp add: steady_def unprobed_device_def no_dev_def fresh_device_def idle_world_def sample_params_def)
  have i: "identifies ?f 0x10000 True 0" "identifies ?f 0x10000 False 0" by code_simp+
  from probe_finds_all [OF s unprobed_config a] i obtain d' n m where d': "probe_engines unprobed_device = Inr (0, d')"
    "d_engine (dv d') 0 0 = Some n" "d_engine (dv d') 0 1 = Some m" by force
  have t: "\<forall>c dir n. d_engine (dv d') c dir = Some n \<longrightarrow> (\<forall>c' dir' n'. d_engine (dv d') c' dir' = Some n' \<longrightarrow> (c', dir') \<noteq> (c, dir) \<longrightarrow>
      n' \<noteq> n \<and> e_irq_bitmask (the (engs d' n')) AND e_irq_bitmask (the (engs d' n)) = 0)"
    using probe_engines_outcome [OF unprobed_config a] d'(1) by auto
  have "n \<noteq> m \<and> e_irq_bitmask (the (engs d' n)) AND e_irq_bitmask (the (engs d' m)) = 0"
    using t [rule_format, OF d'(3,2)] by simp
  with d' show ?thesis by blast
qed

end
