(* ===== verification/Xdma_Chardev.thy ===== *)
theory Xdma_Chardev
  imports Xdma_Setup
begin

unbundle bit_operations_syntax

text \<open>
  The character devices of a board in driver/xdma-core.c: their numbers, their creation and
  destruction, and the operations of the control, event and bypass devices (those of the
  DMA engines are in the theories of the data path). The lemmas show that the minor numbers
  of a board never collide, that destroying a device gives back what creating it took,
  that an event is reported to one reader, and where the operations leave the BAR they
  are meant for.
\<close>

subsection \<open>Device numbers\<close>

datatype chardev_type =
    CHAR_USER | CHAR_CTRL | CHAR_EVENTS | CHAR_XDMA_H2C | CHAR_XDMA_C2H | CHAR_BYPASS_H2C | CHAR_BYPASS_C2H | CHAR_BYPASS

fun type_index :: "chardev_type \<Rightarrow> nat" where
  "type_index CHAR_USER = 0" | "type_index CHAR_CTRL = 1" | "type_index CHAR_EVENTS = 2"
| "type_index CHAR_XDMA_H2C = 3" | "type_index CHAR_XDMA_C2H = 4"
| "type_index CHAR_BYPASS_H2C = 5" | "type_index CHAR_BYPASS_C2H = 6" | "type_index CHAR_BYPASS = 7"

definition XDMA_MINOR_BASE :: nat where "XDMA_MINOR_BASE = 0"
definition XDMA_MINOR_COUNT :: nat where "XDMA_MINOR_COUNT = 255"
definition MAX_XDMA_DEVICES :: nat where "MAX_XDMA_DEVICES = 64"

text \<open>An allocation that fails leaves the number 0 in the zeroed structure.\<close>

definition gen_dev_major :: "device \<Rightarrow> nat \<times> device" where
  "gen_dev_major d =
     (if major d = 0
      then let (rc, d) = dcall (Alloc_chrdev_region XDMA_MINOR_BASE XDMA_MINOR_COUNT) d;
               (m, d) = dcall Alloc_chrdev_major d
           in (if rc < 0 then 0 else nat m, d)
      else (major d, d\<lparr>major := major d - 1\<rparr>))"

definition gen_dev_minor :: "xdma_engine option \<Rightarrow> chardev_type \<Rightarrow> int \<Rightarrow> int run" where
  "gen_dev_minor engine type event_id =
     (if type = CHAR_XDMA_H2C \<or> type = CHAR_XDMA_C2H \<or> type = CHAR_BYPASS_H2C \<or> type = CHAR_BYPASS_C2H then
        (case engine of
           None \<Rightarrow> Inl BugOn
         | Some e \<Rightarrow>
             bindr (bug_on (2 \<le> e_number_in_channel e)) (\<lambda>_.
             let tmp = int (e_number_in_channel e) * 4 in
             Inr ((if type = CHAR_XDMA_H2C \<or> type = CHAR_XDMA_C2H then 32 else 64) + tmp + int (e_channel e))))
      else if type = CHAR_BYPASS then Inr 100
      else if type = CHAR_EVENTS then Inr (10 + event_id)
      else Inr (int (type_index type)))"

datatype file_ops = Sg_polled_fops | Sg_interrupt_fops | Ctrl_fops | Events_fops | Bypass_fops

fun select_file_ops :: "bool \<Rightarrow> chardev_type \<Rightarrow> file_ops" where
  "select_file_ops poll CHAR_XDMA_H2C = (if poll then Sg_polled_fops else Sg_interrupt_fops)"
| "select_file_ops poll CHAR_XDMA_C2H = (if poll then Sg_polled_fops else Sg_interrupt_fops)"
| "select_file_ops poll CHAR_USER = Ctrl_fops"
| "select_file_ops poll CHAR_CTRL = Ctrl_fops"
| "select_file_ops poll CHAR_EVENTS = Events_fops"
| "select_file_ops poll CHAR_BYPASS_H2C = Bypass_fops"
| "select_file_ops poll CHAR_BYPASS_C2H = Bypass_fops"
| "select_file_ops poll CHAR_BYPASS = Bypass_fops"

subsection \<open>Creating and destroying a device\<close>

text \<open>The name of a device is made of its type, the instance and a channel or event.\<close>

definition config_kobject :: "xdma_char \<Rightarrow> xdma_engine option \<Rightarrow> chardev_type \<Rightarrow> device \<Rightarrow> (int \<times> device) run" where
  "config_kobject c engine type d =
     (let name = (\<lambda>n. Inr (dcall (Kobject_set_name (type_index type) (d_instance (dv d)) n) d)) in
      case type of
        CHAR_EVENTS \<Rightarrow> name (nat (c_bar c))
      | CHAR_BYPASS \<Rightarrow> name 0
      | CHAR_USER \<Rightarrow> name 0
      | CHAR_CTRL \<Rightarrow> name 0
      | _ \<Rightarrow> (case engine of None \<Rightarrow> Inl BugOn | Some e \<Rightarrow> name (e_channel e)))"

definition create_dev :: "xdma_char \<Rightarrow> device \<Rightarrow> int \<times> device" where
  "create_dev c d =
     (let (p, d) = dcall (Device_create (c_major c) (c_minor c)) d in (if p = 0 then - 1 else 0, d))"

text \<open>
  The search for an instance number reads \<open>dev_present\<close> before it tests the bound, as the
  code does.
\<close>

function find_instance :: "nat \<Rightarrow> bool list \<Rightarrow> nat run" where
  "find_instance i present =
     bindr (array_get present i) (\<lambda>p. if p \<and> i < MAX_XDMA_DEVICES then find_instance (Suc i) present else Inr i)"
  by auto
termination by (relation "measure (\<lambda>(i, present). MAX_XDMA_DEVICES - i)") auto

declare find_instance.simps [simp del]

definition new_instance :: "device \<Rightarrow> (bool \<times> device) run" where
  "new_instance d =
     (if d_major (dv d) = 0 then
        bindr (find_instance 0 (dev_present d)) (\<lambda>i.
          if i = MAX_XDMA_DEVICES then Inr (False, d)
          else
            let d = upd_dv (d_instance_update (\<lambda>_. i)) (d\<lparr>dev_present := (dev_present d)[i := True]\<rparr>);
                (m, d) = gen_dev_major d
            in Inr (True, upd_dv (d_major_update (\<lambda>_. m)) d))
      else Inr (True, d))"

text \<open>
  The registration of a device that has its number: its region, its operations and its
  node. A failure undoes what was done, with the counts the code uses.
\<close>

definition register_char :: "xdma_char \<Rightarrow> device \<Rightarrow> bool \<times> device" where
  "register_char c d =
     (let (rc, d) = (if major d \<noteq> 0 then dcall (Register_chrdev_region (c_major c) (c_minor c) 1) d else (0, d)) in
      if rc < 0 then (False, d)
      else
        let (rc, d) = dcall (Cdev_add (c_major c) (c_minor c) XDMA_MINOR_COUNT) d in
        if rc < 0 then (False, dcall0 (Unregister_chrdev_region (c_major c) (c_minor c) XDMA_MINOR_COUNT) d)
        else
          let (rc, d) = (if g_xdma_class d then create_dev c d else (0, d)) in
          if rc < 0
          then (False, dcall0 (Unregister_chrdev_region (c_major c) (c_minor c) XDMA_MINOR_COUNT)
                         (dcall0 (Cdev_del (c_major c) (c_minor c)) d))
          else (True, d))"

definition free_char :: "nat \<Rightarrow> device \<Rightarrow> device" where
  "free_char n d = dcall0 (Kfree (of_nat n)) (d\<lparr>chars := (chars d)(n := None)\<rparr>)"

text \<open>The engine is \<open>None\<close> for a device of the board itself.\<close>

definition create_sg_char :: "int \<Rightarrow> nat option \<Rightarrow> chardev_type \<Rightarrow> device \<Rightarrow> (nat option \<times> device) run" where
  "create_sg_char bar engine type d =
     (let (p, d) = dcall (Kzalloc 5) d; n = next_obj d; d = d\<lparr>next_obj := Suc n\<rparr> in
      if p = 0 then Inr (None, d)
      else
        bindr (new_instance d) (\<lambda>(ok, d).
          if \<not> ok then Inr (None, free_char n d)
          else
            bindr (case engine of None \<Rightarrow> Inr None | Some m \<Rightarrow> bindr (engine_at m d) (\<lambda>e. Inr (Some e))) (\<lambda>ce.
            bindr (gen_dev_minor ce type bar) (\<lambda>minor.
            let c = \<lparr>c_major = d_major (dv d), c_minor = nat minor, c_bar = bar, c_engine = engine,
                     c_user_irq = (if type = CHAR_EVENTS then Some (nat bar) else None), c_sys_device = False\<rparr>
            in
            bindr (config_kobject c ce type d) (\<lambda>(rc, d).
              if rc \<noteq> 0 then Inr (None, free_char n d)
              else
                let (ok, d) = register_char c d in
                if \<not> ok then Inr (None, free_char n d)
                else Inr (Some n, d\<lparr>chars := (chars d)(n \<mapsto> c\<lparr>c_sys_device := g_xdma_class d\<rparr>)\<rparr>))))))"

definition destroy_sg_char :: "nat \<Rightarrow> device \<Rightarrow> device run" where
  "destroy_sg_char n d =
     bindr (char_at n d) (\<lambda>c.
     bindr (bug_on (\<not> g_xdma_class d)) (\<lambda>_.
     bindr (bug_on (\<not> c_sys_device c)) (\<lambda>_.
       let d = dcall0 (Device_destroy (c_major c) (c_minor c)) d;
           d = dcall0 (Cdev_del (c_major c) (c_minor c)) d;
           d = dcall0 (Unregister_chrdev_region (c_major c) (c_minor c) 1) d
       in Inr (free_char n d))))"

subsection \<open>The operations of the control device\<close>

definition EAGAIN :: int where "EAGAIN = 11"
definition ENODEV :: int where "ENODEV = 19"

definition char_open :: "nat \<Rightarrow> device \<Rightarrow> int run" where
  "char_open n d = bindr (char_at n d) (\<lambda>_. Inr 0)"

definition char_close :: "nat \<Rightarrow> device \<Rightarrow> int run" where
  "char_close n d = bindr (char_at n d) (\<lambda>_. Inr 0)"

text \<open>Reading and writing take the position only: the code does not look at the count.\<close>

definition char_ctrl_read :: "nat \<Rightarrow> u64 \<Rightarrow> u64 \<Rightarrow> device \<Rightarrow> (int \<times> u64 \<times> device) run" where
  "char_ctrl_read n buf pos d =
     bindr (char_at n d) (\<lambda>c.
       if pos AND 3 \<noteq> 0 then Inr (- EPROTO, pos, d)
       else
         bindr (bar_ptr (c_bar c) d) (\<lambda>bar.
           let (w, d) = dread (bar + pos) d;
               d = dcall0 (Copy_word_to_user buf w) d
           in Inr (4, pos + 4, d)))"

text \<open>\<open>user\<close> is what \<open>copy_from_user\<close> leaves in the variable, also when it fails.\<close>

definition char_ctrl_write :: "nat \<Rightarrow> u32 \<Rightarrow> u64 \<Rightarrow> u64 \<Rightarrow> device \<Rightarrow> (int \<times> u64 \<times> device) run" where
  "char_ctrl_write n user buf pos d =
     bindr (char_at n d) (\<lambda>c.
       if pos AND 3 \<noteq> 0 then Inr (- EPROTO, pos, d)
       else
         bindr (bar_ptr (c_bar c) d) (\<lambda>bar.
           let d = dcall0 (Copy_from_user 0 buf 4) d;
               d = dwrite user (bar + pos) d
           in Inr (4, pos + 4, d)))"

record vm_area =
  vm_start :: u64
  vm_end :: u64
  vm_pgoff :: u64

definition PAGE_SHIFT :: nat where "PAGE_SHIFT = 12"

definition bridge_mmap :: "nat \<Rightarrow> vm_area \<Rightarrow> device \<Rightarrow> (int \<times> device) run" where
  "bridge_mmap n vma d =
     bindr (char_at n d) (\<lambda>c.
       let bar = nat (c_bar c);
           off = push_bit PAGE_SHIFT (vm_pgoff vma);
           phys = pd_start (pci d) bar + off;
           vsize = vm_end vma - vm_start vma;
           psize = pd_end (pci d) bar - pd_start (pci d) bar + 1 - off
       in if vsize > psize then Inr (- EINVAL, d)
          else
            let (rc, d) = dcall (Io_remap_pfn_range (vm_start vma) (drop_bit PAGE_SHIFT phys) vsize) d in
            Inr (if rc \<noteq> 0 then - EAGAIN else 0, d))"

subsection \<open>Events\<close>

text \<open>What waiting for an event gives: a status, and the interrupts that came meanwhile.\<close>

type_synonym event_wait = "device \<Rightarrow> (int \<times> device) run"

definition char_events_read :: "event_wait \<Rightarrow> nat \<Rightarrow> u64 \<Rightarrow> u64 \<Rightarrow> u64 \<Rightarrow> device \<Rightarrow> (int \<times> device) run" where
  "char_events_read wait n buf cnt pos d =
     bindr (char_at n d) (\<lambda>c. case c_user_irq c of
         None \<Rightarrow> Inl BugOn
       | Some i \<Rightarrow>
         if cnt \<noteq> 4 then Inr (- EPROTO, d)
         else if pos AND 3 \<noteq> 0 then Inr (- EPROTO, d)
         else
           bindr (wait d) (\<lambda>(rc, d).
             if rc = - ERESTARTSYS then Inr (- ERESTARTSYS, d)
             else
               bindr (lock_irq i d) (\<lambda>d.
               bindr (array_get (d_user_irq (dv d)) i) (\<lambda>q.
               bindr (unlock_irq i (upd_dv (d_user_irq_update (\<lambda>qs. qs[i := q\<lparr>q_events_irq := 0\<rparr>])) d)) (\<lambda>d.
                 Inr (4, dcall0 (Copy_word_to_user buf (ucast (q_events_irq q))) d))))))"

text \<open>The poll mask: readable (\<open>POLLIN | POLLRDNORM\<close>) when an event is pending.\<close>

definition char_events_poll :: "nat \<Rightarrow> device \<Rightarrow> (u32 \<times> device) run" where
  "char_events_poll n d =
     bindr (char_at n d) (\<lambda>c. case c_user_irq c of
         None \<Rightarrow> Inl BugOn
       | Some i \<Rightarrow>
         bindr (lock_irq i d) (\<lambda>d.
         bindr (array_get (d_user_irq (dv d)) i) (\<lambda>q.
         bindr (unlock_irq i d) (\<lambda>d. Inr (if q_events_irq q \<noteq> 0 then 0x41 else 0, d)))))"

subsection \<open>The bypass device\<close>

text \<open>
  The state of copying: the offset in the user's buffer, the status and the device. The
  source of a copy is given as the offset in the array of descriptors.
\<close>

definition copy_desc_step :: "u64 \<Rightarrow> nat \<Rightarrow> nat \<Rightarrow> nat \<times> int \<times> device \<Rightarrow> (nat \<times> int \<times> device) run" where
  "copy_desc_step buf buf_size i = (\<lambda>(buf_offset, rc, d).
     if buf_offset + DESC_SIZE \<le> buf_size then
       let (copy_err, d) = dcall (Copy_to_user (buf + of_nat buf_offset) (of_nat (i * DESC_SIZE)) DESC_SIZE) d in
       if copy_err \<noteq> 0 then Inr (buf_size, - EINVAL, d) else Inr (buf_offset + DESC_SIZE, rc, d)
     else Inr (buf_offset, - ENOMEM, d))"

definition copy_desc_data :: "xdma_transfer \<Rightarrow> u64 \<Rightarrow> nat \<Rightarrow> nat \<Rightarrow> device \<Rightarrow> (int \<times> nat \<times> device) run" where
  "copy_desc_data x buf buf_offset buf_size d =
     bindr (bug_on (buf = 0)) (\<lambda>_.
     bindr (for_loop (t_desc_num x) 0 (copy_desc_step buf buf_size) (buf_offset, 0, d)) (\<lambda>(buf_offset, rc, d).
       Inr (rc, buf_offset, d)))"

fun bypass_read_loop :: "nat list \<Rightarrow> u64 \<Rightarrow> nat \<Rightarrow> int \<Rightarrow> nat \<Rightarrow> device \<Rightarrow> (int \<times> nat \<times> device) run" where
  "bypass_read_loop [] buf cnt rc buf_offset d = Inr (rc, buf_offset, d)"
| "bypass_read_loop (t # ts) buf cnt rc buf_offset d =
     (case dev_xfers d t of
        None \<Rightarrow> Inl UseAfterFree
      | Some x \<Rightarrow> bindr (copy_desc_data x buf buf_offset cnt d) (\<lambda>(rc, buf_offset, d).
          bypass_read_loop ts buf cnt rc buf_offset d))"

definition lock_engine :: "nat \<Rightarrow> device \<Rightarrow> device run" where
  "lock_engine m d = bindr (engine_at m d) (\<lambda>e.
     if e_lock e then Inl Deadlock else Inr (upd_engine m (e_lock_update (\<lambda>_. True)) d))"

definition unlock_engine :: "nat \<Rightarrow> device \<Rightarrow> device" where
  "unlock_engine m = upd_engine m (e_lock_update (\<lambda>_. False))"

definition char_engine :: "xdma_char \<Rightarrow> nat run" where
  "char_engine c = (case c_engine c of None \<Rightarrow> Inl BugOn | Some m \<Rightarrow> Inr m)"

definition char_bypass_read :: "nat \<Rightarrow> u64 \<Rightarrow> u64 \<Rightarrow> device \<Rightarrow> (int \<times> device) run" where
  "char_bypass_read n buf cnt d =
     bindr (char_at n d) (\<lambda>c.
     bindr (char_engine c) (\<lambda>m.
     bindr (engine_at m d) (\<lambda>e.
     bindr (bug_on (e_magic e \<noteq> MAGIC_ENGINE)) (\<lambda>_.
       if cnt AND 3 \<noteq> 0 then Inr (- EINVAL, d)
       else if buf = 0 then Inr (- EINVAL, d)
       else if d_bypass_bar_idx (dv d) < 0 then Inr (- ENODEV, d)
       else
         bindr (lock_engine m d) (\<lambda>d.
         bindr (bypass_read_loop (e_transfer_list e) buf (unat cnt) 0 0 d) (\<lambda>(rc, buf_offset, d).
           Inr (if rc < 0 then rc else int buf_offset, unlock_engine m d)))))))"

text \<open>
  \<open>user i\<close> is the word at offset \<open>4 * i\<close> of the user's buffer. Every word is written to
  the same address. The count is a multiple of 4, so the loop runs \<open>cnt div 4\<close> times.
\<close>

fun bypass_write_loop :: "nat \<Rightarrow> nat \<Rightarrow> (nat \<Rightarrow> u32) \<Rightarrow> u64 \<Rightarrow> iomem \<Rightarrow> int \<Rightarrow> device \<Rightarrow> int \<times> device" where
  "bypass_write_loop 0 i user buf bypass_addr rc d = (rc, d)"
| "bypass_write_loop (Suc k) i user buf bypass_addr rc d =
     (let (copy_err, d) = dcall (Copy_from_user 0 (buf + of_nat (4 * i)) 4) d in
      if copy_err = 0
      then bypass_write_loop k (Suc i) user buf bypass_addr (int (4 * Suc i)) (dwrite (user i) bypass_addr d)
      else (- EINVAL, d))"

definition char_bypass_write :: "nat \<Rightarrow> (nat \<Rightarrow> u32) \<Rightarrow> u64 \<Rightarrow> u64 \<Rightarrow> device \<Rightarrow> (int \<times> device) run" where
  "char_bypass_write n user buf cnt d =
     bindr (char_at n d) (\<lambda>c.
     bindr (char_engine c) (\<lambda>m.
     bindr (engine_at m d) (\<lambda>e.
     bindr (bug_on (e_magic e \<noteq> MAGIC_ENGINE)) (\<lambda>_.
       if cnt AND 3 \<noteq> 0 then Inr (- EINVAL, d)
       else if buf = 0 then Inr (- EINVAL, d)
       else if d_bypass_bar_idx (dv d) < 0 then Inr (- ENODEV, d)
       else
         bindr (lock_engine m d) (\<lambda>d.
         bindr (bar_ptr (d_bypass_bar_idx (dv d)) d) (\<lambda>bar.
           let bypass_addr = bar + 4 * ucast (e_bypass_offset e);
               (rc, d) = bypass_write_loop (unat cnt div 4) 0 user buf bypass_addr 0 d
           in Inr (rc, unlock_engine m d)))))))"

subsection \<open>Minor numbers do not collide\<close>

text \<open>A device of an engine is created with the type of the engine's direction.\<close>

definition fits :: "chardev_type \<Rightarrow> xdma_engine option \<Rightarrow> int \<Rightarrow> bool" where
  "fits type engine event_id \<longleftrightarrow>
     (\<forall>e. engine = Some e \<longrightarrow> e_channel e < 4
        \<and> (type = CHAR_XDMA_H2C \<or> type = CHAR_BYPASS_H2C \<longrightarrow> e_number_in_channel e = 0)
        \<and> (type = CHAR_XDMA_C2H \<or> type = CHAR_BYPASS_C2H \<longrightarrow> e_number_in_channel e = 1))
     \<and> (type = CHAR_EVENTS \<longrightarrow> 0 \<le> event_id \<and> event_id < 16)"

text \<open>
  The minor number of a device tells its type and, for the devices of engines, the
  channel, for the event devices, the event: no two devices of a board have the same, and
  all are below the number of minors that is reserved.
\<close>

theorem minors_unique:
  assumes "gen_dev_minor e t i = Inr m" "gen_dev_minor e' t' i' = Inr m" "fits t e i" "fits t' e' i'"
  shows "t = t' \<and> (t = CHAR_EVENTS \<longrightarrow> i = i')
    \<and> (t \<in> {CHAR_XDMA_H2C, CHAR_XDMA_C2H, CHAR_BYPASS_H2C, CHAR_BYPASS_C2H}
        \<longrightarrow> map_option e_channel e = map_option e_channel e')
    \<and> 0 \<le> m \<and> m < int XDMA_MINOR_COUNT"
  using assms
  by (cases t; cases t'; cases e; cases e')
    (auto simp: gen_dev_minor_def fits_def XDMA_MINOR_COUNT_def bindr_eq_Inr, presburger+)

subsection \<open>Destroying gives back what creating took\<close>

lemma register_balance:
  assumes "register_char c d = (True, d')"
  shows "balance (dwld d') x = balance (dwld d) x
      + of_bool (major d \<noteq> 0 \<and> x = R_chrdev (c_major c) (c_minor c) 1) + of_bool (x = R_cdev (c_major c) (c_minor c))
      + of_bool (g_xdma_class d \<and> x = R_node (c_major c) (c_minor c))
    \<and> chars d' = chars d \<and> g_xdma_class d' = g_xdma_class d \<and> major d' = major d"
  using assms
  by (auto simp: register_char_def dcall_eq create_dev_def Let_def balance_call split: if_splits)

lemma balance_upd_dwld_call [simp]:
  "balance (dwld (dcall0 c d)) x = balance (dwld d) x + gain c (w_kern (dwld d) (w_log (dwld d)) c) x"
  by (simp add: dcall0_eq balance_call)

lemma new_instance_balance:
  assumes "new_instance d = Inr (ok, d')"
  shows "balance (dwld d') x = balance (dwld d) x \<and> chars d' = chars d \<and> engs d' = engs d \<and> g_xdma_class d' = g_xdma_class d
    \<and> next_obj d' = next_obj d"
  using assms
  by (auto simp: new_instance_def bindr_eq_Inr gen_dev_major_def dcall_eq Let_def balance_call split: if_splits)

lemma config_kobject_balance:
  assumes "config_kobject c e t d = Inr (rc, d')"
  shows "balance (dwld d') x = balance (dwld d) x \<and> chars d' = chars d \<and> engs d' = engs d \<and> g_xdma_class d' = g_xdma_class d
    \<and> major d' = major d"
  using assms
  by (auto simp: config_kobject_def dcall_eq Let_def balance_call split: chardev_type.splits option.splits)

text \<open>What a device that was created holds.\<close>

lemma create_sg_char_ok:
  assumes "create_sg_char bar en t d = Inr (Some n, d1)"
  shows "\<exists>c. chars d1 n = Some c \<and> n = next_obj d \<and> chars d1 = (chars d)(n \<mapsto> c) \<and> c_sys_device c = g_xdma_class d
    \<and> g_xdma_class d1 = g_xdma_class d
    \<and> (\<forall>x. balance (dwld d1) x = balance (dwld d) x
        + of_bool (major d1 \<noteq> 0 \<and> x = R_chrdev (c_major c) (c_minor c) 1) + of_bool (x = R_cdev (c_major c) (c_minor c))
        + of_bool (g_xdma_class d \<and> x = R_node (c_major c) (c_minor c)))"
proof -
  define d0 where "d0 = (upd_dwld (emit (Call (Kzalloc 5))) d)\<lparr>next_obj := Suc (next_obj d)\<rparr>"
  have d0: "balance (dwld d0) x = balance (dwld d) x" "chars d0 = chars d" "g_xdma_class d0 = g_xdma_class d" for x
    by (simp_all add: d0_def balance_call)
  from assms obtain d2 ce m rc d3 d4 where
    n: "n = next_obj d" and i: "new_instance d0 = Inr (True, d2)"
    and k: "config_kobject \<lparr>c_major = d_major (dv d2), c_minor = nat m, c_bar = bar, c_engine = en,
       c_user_irq = (if t = CHAR_EVENTS then Some (nat bar) else None), c_sys_device = False\<rparr> ce t d2 = Inr (rc, d3)"
    and r: "register_char \<lparr>c_major = d_major (dv d2), c_minor = nat m, c_bar = bar, c_engine = en,
       c_user_irq = (if t = CHAR_EVENTS then Some (nat bar) else None), c_sys_device = False\<rparr> d3 = (True, d4)"
    and d1: "d1 = d4\<lparr>chars := (chars d4)(n \<mapsto> \<lparr>c_major = d_major (dv d2), c_minor = nat m, c_bar = bar, c_engine = en,
       c_user_irq = (if t = CHAR_EVENTS then Some (nat bar) else None), c_sys_device = g_xdma_class d4\<rparr>)\<rparr>"
    unfolding create_sg_char_def dcall_eq Let_def prod.case
    by (auto simp: bindr_eq_Inr d0_def split: if_splits prod.splits)
  show ?thesis
    using new_instance_balance [OF i] config_kobject_balance [OF k] register_balance [OF r] d0 n
    by (auto simp: d1)
qed

text \<open>
  C27: Destroying a character device that was created gives back its number, its operations
  and its node, and frees it. The exception is a board whose major number is dynamic: its
  whole region was reserved at once, a single number that was never reserved by itself is
  given back, and the region stays.
\<close>

theorem create_destroy_char:
  assumes "create_sg_char bar en t d = Inr (Some n, d1)" "g_xdma_class d"
  shows "\<exists>d2 c. destroy_sg_char n d1 = Inr d2 \<and> chars d1 n = Some c \<and> chars d2 = (chars d)(n := None)
    \<and> (\<forall>x. balance (dwld d2) x = balance (dwld d) x
         - of_bool (major d1 = 0 \<and> x = R_chrdev (c_major c) (c_minor c) 1))"
proof -
  from create_sg_char_ok [OF assms(1)] obtain c where
    c: "chars d1 n = Some c" "chars d1 = (chars d)(n \<mapsto> c)" "c_sys_device c" "g_xdma_class d1"
    and b: "\<forall>x. balance (dwld d1) x = balance (dwld d) x
        + of_bool (major d1 \<noteq> 0 \<and> x = R_chrdev (c_major c) (c_minor c) 1) + of_bool (x = R_cdev (c_major c) (c_minor c))
        + of_bool (x = R_node (c_major c) (c_minor c))"
    using assms(2) by auto
  let ?d = "dcall0 (Unregister_chrdev_region (c_major c) (c_minor c) 1) (dcall0 (Cdev_del (c_major c) (c_minor c))
      (dcall0 (Device_destroy (c_major c) (c_minor c)) d1))"
  have run: "destroy_sg_char n d1 = Inr (free_char n ?d)"
    using c by (simp add: destroy_sg_char_def char_at_def)
  have ch: "chars (free_char n ?d) = (chars d)(n := None)" using c by (simp add: free_char_def dcall0_eq)
  have "balance (dwld (free_char n ?d)) x = balance (dwld d) x
         - of_bool (major d1 = 0 \<and> x = R_chrdev (c_major c) (c_minor c) 1)" for x
    using b by (auto simp: free_char_def)
  then show ?thesis using run ch c by blast
qed

subsection \<open>Mapping a BAR into user space\<close>

text \<open>
  C28: A mapping request that starts inside the BAR is granted to the kernel's mapping
  function exactly when it ends inside the BAR, and otherwise refused with -EINVAL. A
  request that starts beyond the end of the BAR is granted as well, up to almost the whole
  address space: the remaining size is computed without a sign and wraps around, so that
  the user maps physical memory that is not the device's.
\<close>

theorem bridge_mmap_window:
  assumes "chars d n = Some c" "unat (pd_start (pci d) (nat (c_bar c))) + len = unat (pd_end (pci d) (nat (c_bar c))) + 1"
    "len < 2 ^ 64" "unat (vm_pgoff vma) * 4096 < 2 ^ 64" "v = unat (vm_end vma - vm_start vma)"
  shows "\<exists>rc d'. bridge_mmap n vma d = Inr (rc, d') \<and>
    (if (if unat (vm_pgoff vma) * 4096 \<le> len then unat (vm_pgoff vma) * 4096 + v \<le> len
         else v + unat (vm_pgoff vma) * 4096 \<le> 2 ^ 64 + len)
     then (rc = 0 \<or> rc = - EAGAIN) \<and> w_log (dwld d') = w_log (dwld d) @ [Call (Io_remap_pfn_range (vm_start vma)
            (drop_bit 12 (pd_start (pci d) (nat (c_bar c)) + push_bit 12 (vm_pgoff vma))) (vm_end vma - vm_start vma))]
     else rc = - EINVAL \<and> w_log (dwld d') = w_log (dwld d))"
proof -
  let ?b = "nat (c_bar c)"
  let ?off = "push_bit 12 (vm_pgoff vma)"
  let ?p = "pd_end (pci d) ?b - pd_start (pci d) ?b + 1 - ?off"
  have o: "unat ?off = unat (vm_pgoff vma) * 4096"
    using assms(4) by (simp add: push_bit_eq_mult unat_mult_lem [THEN iffD1])
  have "word_of_nat (unat (pd_start (pci d) ?b) + len) = (word_of_nat (unat (pd_end (pci d) ?b) + 1) :: u64)" using assms(2) by simp
  then have l: "pd_end (pci d) ?b - pd_start (pci d) ?b + 1 = word_of_nat len"
    by (simp add: algebra_simps)
  have ul: "unat (word_of_nat len :: u64) = len" using assms(3) by (simp add: unat_of_nat_small)
  have p: "unat ?p = (if unat ?off \<le> len then len - unat ?off else 2 ^ 64 + len - unat ?off)"
    unfolding l using unat_less_2p [of ?off] by (auto simp: unat_sub_if_size word_size ul)
  have le: "vm_end vma - vm_start vma > ?p \<longleftrightarrow> \<not> (if unat ?off \<le> len then unat ?off + v \<le> len else v + unat ?off \<le> 2 ^ 64 + len)"
    using unat_less_2p [of ?off] by (auto simp: word_less_nat_alt p assms(5))
  show ?thesis
    using assms(1) le by (auto simp: bridge_mmap_def char_at_def Let_def PAGE_SHIFT_def dcall_eq o emit_def)
qed

subsection \<open>Events\<close>

text \<open>\<open>k\<close> interrupts of an event while its reader waits.\<close>

fun interrupts :: "nat \<Rightarrow> nat \<Rightarrow> device \<Rightarrow> device run" where
  "interrupts 0 i d = Inr d"
| "interrupts (Suc k) i d = bindr (xdma_user_irq i d) (interrupts k i)"

definition irq_set :: "nat \<Rightarrow> xdma_irq \<Rightarrow> device \<Rightarrow> device" where
  "irq_set i q d = with_irqs ((d_user_irq (dv d))[i := q]) d"

lemma irq_set_sel [simp]:
  "d_user_irq (dv (irq_set i q d)) = (d_user_irq (dv d))[i := q]" "chars (irq_set i q d) = chars d"
  "dwld (irq_set i q d) = dwld d" "irq_set i r (irq_set i q d) = irq_set i r d"
  by (simp_all add: irq_set_def) (simp_all add: with_irqs_def upd_dv_def)

lemma user_irq_service_pending:
  assumes "i < length (d_user_irq (dv d))" "i < 32" "d_user_irq (dv d) ! i = \<lparr>q_events_irq = v, q_events_lock = False\<rparr>"
  shows "user_irq_service i d = Inr (irq_set i \<lparr>q_events_irq = if v = 0 then 1 else v, q_events_lock = False\<rparr>
     (log_add (if v = 0 then [Wake (Wq_event i)] else []) d))"
  using user_irq_service_ok [of i d "- 1"] assms
  by (simp add: noted_def woken_def irq_set_def)

lemma interrupts_ok:
  assumes "i < length (d_user_irq (dv d))" "i < 32" "d_user_irq (dv d) ! i = \<lparr>q_events_irq = v, q_events_lock = False\<rparr>"
  shows "interrupts (Suc k) i d = Inr (irq_set i \<lparr>q_events_irq = if v = 0 then 1 else v, q_events_lock = False\<rparr>
     (log_add (if v = 0 then [Wake (Wq_event i)] else []) d))"
  using assms
proof (induction k arbitrary: d v)
  case 0
  then show ?case by (simp add: xdma_user_irq_def user_irq_service_pending)
next
  case (Suc k)
  show ?case
    using user_irq_service_pending [OF Suc.prems] Suc.IH [of "irq_set i \<lparr>q_events_irq = if v = 0 then 1 else v, q_events_lock = False\<rparr>
     (log_add (if v = 0 then [Wake (Wq_event i)] else []) d)" "if v = 0 then 1 else v"] Suc.prems
    by (simp add: xdma_user_irq_def interrupts.simps(2) [of "Suc k"] del: interrupts.simps(2))
qed

lemma take_event:
  assumes "i < length (d_user_irq (dv d))" "d_user_irq (dv d) ! i = \<lparr>q_events_irq = v, q_events_lock = False\<rparr>"
  shows "lock_irq i d = Inr (irq_set i \<lparr>q_events_irq = v, q_events_lock = True\<rparr> d)"
    "unlock_irq i (irq_set i \<lparr>q_events_irq = u, q_events_lock = True\<rparr> d) = Inr (irq_set i \<lparr>q_events_irq = u, q_events_lock = False\<rparr> d)"
    "upd_dv (d_user_irq_update (\<lambda>qs. qs[i := r])) (irq_set i q d) = irq_set i r d"
  using assms by (simp_all add: lock_irq_def unlock_irq_def irq_set_def with_irqs_def upd_dv_def)

text \<open>
  C29: However many interrupts of an event come while its reader waits, the reader is woken
  once and reads the value 1, which clears the event: the device is not readable
  afterwards, and the other events keep their state.
\<close>

theorem event_read_once:
  assumes "chars d n = Some c" "c_user_irq c = Some i" "i < length (d_user_irq (dv d))" "i < 32"
    "d_user_irq (dv d) ! i = \<lparr>q_events_irq = 0, q_events_lock = False\<rparr>" "buf_pos AND 3 = 0"
  shows "\<exists>d'. char_events_read (\<lambda>d. bindr (interrupts (Suc k) i d) (\<lambda>d. Inr (0, d))) n buf 4 buf_pos d = Inr (4, d')
    \<and> w_log (dwld d') = w_log (dwld d) @ [Wake (Wq_event i), Call (Copy_word_to_user buf 1)]
    \<and> d_user_irq (dv d') = d_user_irq (dv d)
    \<and> bindr (char_events_poll n d') (\<lambda>(mask, d). Inr mask) = Inr 0"
proof -
  let ?q = "\<lambda>v b. \<lparr>q_events_irq = v, q_events_lock = b\<rparr>"
  let ?d1 = "irq_set i (?q 1 False) (log_add [Wake (Wq_event i)] d)"
  define d2 where "d2 = dcall0 (Copy_word_to_user buf 1) (irq_set i (?q 0 False) ?d1)"
  have w: "interrupts (Suc k) i d = Inr ?d1" using interrupts_ok [OF assms(3-5)] by simp
  have c1: "char_at n ?d1 = char_at n d" "char_at n d2 = Inr c" "char_at n d = Inr c"
    using assms(1) by (simp_all add: d2_def char_at_def dcall0_eq log_add_def upd_dwld_def)
  let ?e = "log_add [Wake (Wq_event i)] d"
  have l: "lock_irq i ?d1 = Inr (irq_set i (?q 1 True) ?e)"
    "unlock_irq i (irq_set i (?q 0 True) ?e) = Inr (irq_set i (?q 0 False) ?e)"
    using take_event(1) [of i ?d1] take_event(2) [of i ?e] assms(3,5) by auto
  have u: "upd_dv (d_user_irq_update (\<lambda>qs. qs[i := r])) (irq_set i q ?e) = irq_set i r ?e" for r q
    using take_event(3) [of i ?e] assms(3,5) by auto
  have qs: "d_user_irq (dv d2) = d_user_irq (dv d)"
    using assms(5) by (simp add: d2_def dcall0_eq list_update_same_conv assms(3))
  have p: "bindr (char_events_poll n d2) (\<lambda>(mask, d). Inr mask) = Inr 0"
    using take_event [of i d2 0] assms(3,5) qs
    by (simp add: char_events_poll_def c1 assms(2))
  have run: "char_events_read (\<lambda>d. bindr (interrupts (Suc k) i d) (\<lambda>d. Inr (0, d))) n buf 4 buf_pos d = Inr (4, d2)"
    using assms(2,3,6) by (simp add: char_events_read_def c1 w l u d2_def ERESTARTSYS_def del: interrupts.simps)
  show ?thesis
    using run qs p by (intro exI [of _ d2]) (simp add: d2_def dcall0_eq log_add_def emit_def)
qed

subsection \<open>Reading the descriptors\<close>

definition copies_within :: "u64 \<Rightarrow> nat \<Rightarrow> nat \<Rightarrow> device \<Rightarrow> nat \<times> int \<times> device \<Rightarrow> bool" where
  "copies_within buf buf_size k d = (\<lambda>(buf_offset, rc, d').
     buf_offset \<le> buf_size \<and>
     (\<exists>es. w_log (dwld d') = w_log (dwld d) @ es \<and> (\<forall>e\<in>set es. \<exists>o' i.
        e = Call (Copy_to_user (buf + of_nat o') (of_nat (i * DESC_SIZE)) DESC_SIZE) \<and> o' + DESC_SIZE \<le> buf_size \<and> i < k)))"

lemma copy_desc_step_ok:
  assumes "copies_within buf buf_size i d u"
  shows "\<exists>v. copy_desc_step buf buf_size i u = Inr v \<and> copies_within buf buf_size (Suc i) d v"
proof -
  obtain buf_offset rc d1 where u: "u = (buf_offset, rc, d1)" by (cases u) auto
  from assms obtain es where le: "buf_offset \<le> buf_size" and es: "w_log (dwld d1) = w_log (dwld d) @ es"
    "\<forall>e\<in>set es. \<exists>o' j. e = Call (Copy_to_user (buf + of_nat o') (of_nat (j * DESC_SIZE)) DESC_SIZE) \<and> o' + DESC_SIZE \<le> buf_size \<and> j < i"
    by (auto simp: copies_within_def u)
  let ?c = "Call (Copy_to_user (buf + of_nat buf_offset) (of_nat (i * DESC_SIZE)) DESC_SIZE)"
  have old: "\<forall>e\<in>set es. \<exists>o' j. e = Call (Copy_to_user (buf + of_nat o') (of_nat (j * DESC_SIZE)) DESC_SIZE) \<and> o' + DESC_SIZE \<le> buf_size \<and> j < Suc i"
    using es(2) less_Suc_eq by meson
  show ?thesis
  proof (cases "buf_offset + DESC_SIZE \<le> buf_size")
    case True
    have "\<exists>fs. w_log (dwld d1) @ [?c] = w_log (dwld d) @ fs \<and> (\<forall>e\<in>set fs. \<exists>o' j. e = Call (Copy_to_user (buf + of_nat o') (of_nat (j * DESC_SIZE)) DESC_SIZE)
        \<and> o' + DESC_SIZE \<le> buf_size \<and> j < Suc i)"
      using old True es(1) by (intro exI [of _ "es @ [?c]"]) auto
    then show ?thesis using True le
      by (auto simp: copy_desc_step_def u dcall_eq emit_def copies_within_def Let_def)
  next
    case False
    then show ?thesis using old es(1) le
      by (auto simp: copy_desc_step_def u copies_within_def)
  qed
qed

text \<open>
  Reading the descriptors of a transfer through the bypass device ends without a fault
  and never writes behind the end of the user's buffer: each copy takes one of the
  transfer's descriptors to an offset where the whole descriptor fits.
\<close>

theorem copy_desc_in_buffer:
  assumes "buf \<noteq> 0" "buf_offset \<le> buf_size"
  shows "\<exists>rc buf_offset' d' es. copy_desc_data x buf buf_offset buf_size d = Inr (rc, buf_offset', d') \<and> buf_offset' \<le> buf_size
    \<and> w_log (dwld d') = w_log (dwld d) @ es
    \<and> (\<forall>e\<in>set es. \<exists>o' i. e = Call (Copy_to_user (buf + of_nat o') (of_nat (i * DESC_SIZE)) DESC_SIZE)
         \<and> o' + DESC_SIZE \<le> buf_size \<and> i < t_desc_num x)"
proof -
  have "copies_within buf buf_size 0 d (buf_offset, 0, d)" using assms(2) by (simp add: copies_within_def)
  from for_loop_total [where P = "\<lambda>i. copies_within buf buf_size i d" and i = 0, OF this]
  obtain t where "for_loop (t_desc_num x) 0 (copy_desc_step buf buf_size) (buf_offset, 0, d) = Inr t"
    "copies_within buf buf_size (t_desc_num x) d t"
    using copy_desc_step_ok by (metis add_0)
  then obtain o1 rc d1 where "for_loop (t_desc_num x) 0 (copy_desc_step buf buf_size) (buf_offset, 0, d) = Inr (o1, rc, d1)"
    "copies_within buf buf_size (t_desc_num x) d (o1, rc, d1)" by (cases t) auto
  then show ?thesis using assms(1)
    by (intro exI [of _ rc] exI [of _ o1] exI [of _ d1]) (simp add: copy_desc_data_def copies_within_def)
qed

subsection \<open>Concrete runs\<close>

text \<open>A board in a kernel that grants every request, with the major number 240.\<close>

definition granting_kern :: "event list \<Rightarrow> service \<Rightarrow> int" where
  "granting_kern es c = (case c of Kzalloc n \<Rightarrow> 0x1000 | Device_create a b \<Rightarrow> 1 | Alloc_chrdev_major \<Rightarrow> 240 | _ \<Rightarrow> 0)"

definition granted_device :: device where
  "granted_device = sample_device\<lparr>dwld := idle_world\<lparr>w_kern := granting_kern\<rparr>,
     chars := [5 \<mapsto> \<lparr>c_major = 240, c_minor = 0, c_bar = 0, c_engine = None, c_user_irq = Some 3, c_sys_device = True\<rparr>]\<rparr>"

theorem minors_unique_witness:
  "gen_dev_minor (Some sample_engine) CHAR_XDMA_H2C (- 1) = Inr 32 \<and> fits CHAR_XDMA_H2C (Some sample_engine) (- 1)
     \<and> 32 < int XDMA_MINOR_COUNT"
proof -
  have a: "gen_dev_minor (Some sample_engine) CHAR_XDMA_H2C (- 1) = Inr 32" "fits CHAR_XDMA_H2C (Some sample_engine) (- 1)"
    by (simp_all add: gen_dev_minor_def fits_def sample_engine_def bug_on_def)
  show ?thesis using minors_unique [OF a(1) a(1) a(2) a(2)] a by blast
qed

theorem create_destroy_char_witness:
  "\<exists>n d1 d2. create_sg_char 0 None CHAR_CTRL granted_device = Inr (Some n, d1) \<and> destroy_sg_char n d1 = Inr d2
     \<and> balance (dwld d2) (R_node 240 1) = balance (dwld granted_device) (R_node 240 1)"
proof -
  have "run_ok (\<lambda>(n, d). n = Some 2) (create_sg_char 0 None CHAR_CTRL granted_device)" by code_simp
  then obtain d1 where c: "create_sg_char 0 None CHAR_CTRL granted_device = Inr (Some 2, d1)" by (auto elim!: run_okE)
  have "g_xdma_class granted_device" by (simp add: granted_device_def sample_device_def fresh_device_def)
  from create_destroy_char [OF c this] obtain d2 where
    "destroy_sg_char 2 d1 = Inr d2" "balance (dwld d2) (R_node 240 1) = balance (dwld granted_device) (R_node 240 1)" by auto
  with c show ?thesis by blast
qed

text \<open>The BAR has 64 KB: one page is mapped from its start, and one from 17 pages on.\<close>

theorem bridge_mmap_window_witness:
  "\<exists>d'. bridge_mmap 5 \<lparr>vm_start = 0x7000, vm_end = 0x8000, vm_pgoff = 17\<rparr> granted_device = Inr (0, d')
     \<and> w_log (dwld d') = [Call (Io_remap_pfn_range 0x7000 0xF0011 0x1000)]"
proof -
  let ?c = "\<lparr>c_major = 240, c_minor = 0, c_bar = 0, c_engine = None, c_user_irq = Some 3, c_sys_device = True\<rparr>"
  let ?v = "\<lparr>vm_start = 0x7000, vm_end = 0x8000, vm_pgoff = 17\<rparr>"
  have a: "chars granted_device 5 = Some ?c"
    "unat (pd_start (pci granted_device) (nat (c_bar ?c))) + 0x10000 = unat (pd_end (pci granted_device) (nat (c_bar ?c))) + 1"
    "(0x10000 :: nat) < 2 ^ 64" "unat (vm_pgoff ?v) * 4096 < 2 ^ 64" "0x1000 = unat (vm_end ?v - vm_start ?v)"
    "w_log (dwld granted_device) = []"
    by (simp_all add: granted_device_def sample_device_def fresh_device_def sample_pci_def idle_world_def)
  have "run_ok (\<lambda>(rc, d). rc = 0) (bridge_mmap 5 ?v granted_device)" by code_simp
  then obtain d' where d': "bridge_mmap 5 ?v granted_device = Inr (0, d')" by (auto elim!: run_okE)
  have p: "drop_bit 12 (pd_start (pci granted_device) 0 + push_bit 12 (vm_pgoff ?v)) = 0xF0011" by code_simp
  from bridge_mmap_window [OF a(1-5)] show ?thesis using d' p a(6) by (simp add: EINVAL_def)
qed

theorem event_read_once_witness:
  "\<exists>d'. char_events_read (\<lambda>d. bindr (interrupts 2 3 d) (\<lambda>d. Inr (0, d))) 5 0x9000 4 0 granted_device = Inr (4, d')
     \<and> w_log (dwld d') = [Wake (Wq_event 3), Call (Copy_word_to_user 0x9000 1)]"
proof -
  let ?c = "\<lparr>c_major = 240, c_minor = 0, c_bar = 0, c_engine = None, c_user_irq = Some 3, c_sys_device = True\<rparr>"
  have a: "chars granted_device 5 = Some ?c" "c_user_irq ?c = Some 3" "3 < length (d_user_irq (dv granted_device))" "(3::nat) < 32"
    "d_user_irq (dv granted_device) ! 3 = \<lparr>q_events_irq = 0, q_events_lock = False\<rparr>" "(0 :: u64) AND 3 = 0"
    "w_log (dwld granted_device) = []"
    by (simp_all add: granted_device_def sample_device_def no_dev_def idle_world_def)
  from event_read_once [OF a(1-6), of 1 "0x9000"] show ?thesis using a(7) by (auto simp: numeral_2_eq_2)
qed

theorem copy_desc_in_buffer_witness:
  "\<exists>rc o' d'. copy_desc_data (sample_transfer 3) 0x9000 0 64 granted_device = Inr (rc, o', d') \<and> o' \<le> 64"
proof -
  from copy_desc_in_buffer [of "0x9000" 0 64 "sample_transfer 3" granted_device] show ?thesis by auto
qed

end
