(* ===== verification/Xdma_Probe.thy ===== *)
theory Xdma_Probe
  imports Xdma_Chardev
begin

unbundle bit_operations_syntax

text \<open>
  Binding a board to the driver and releasing it in driver/xdma-core.c: \<open>probe\<close> with its
  steps and its chain of error labels, \<open>remove\<close>, the interfaces of a board, and loading and
  unloading the module. The lemmas compose those of the parts: the exact account of the bus, the
  interrupts and the character devices when a board that was probed is removed, and when
  probing fails before the engines; a failure after that releases what it has already
  released.
\<close>

subsection \<open>The steps of probing\<close>

definition PCI_CAP_ID_MSI :: nat where "PCI_CAP_ID_MSI = 5"
definition PCI_CAP_ID_MSIX :: nat where "PCI_CAP_ID_MSIX = 17"
definition MAX_NUM_ENGINES :: nat where "MAX_NUM_ENGINES = XDMA_CHANNEL_NUM_MAX * 2"

definition msi_msix_capable :: "nat \<Rightarrow> device \<Rightarrow> bool \<times> device" where
  "msi_msix_capable type d =
     (if pd_no_msi (pci d) then (False, d)
      else if True \<in> set (pd_bus_no_msi (pci d)) then (False, d)
      else
        let (ret, d) = dcall (Arch_msi_check type) d in
        if ret \<noteq> 0 then (False, d)
        else let (cap, d) = dcall (Pci_find_capability type) d in (cap \<noteq> 0, d))"

text \<open>The zeroed structure with the fields that \<open>alloc_dev_instance\<close> sets.\<close>

definition alloc_dev_instance :: "device \<Rightarrow> bool \<times> device" where
  "alloc_dev_instance d =
     (let (p, d) = dcall (Kzalloc 6) d in if p = 0 then (False, d) else (True, upd_dv (\<lambda>_. no_dev) d))"

text \<open>A successful \<open>pci_enable_msix\<close> fills in the vectors of the table.\<close>

fun fill_vectors :: "nat \<Rightarrow> nat \<Rightarrow> device \<Rightarrow> device" where
  "fill_vectors 0 i d = d"
| "fill_vectors (Suc k) i d =
     (let (v, d) = dcall (Msix_vector i) d in
      fill_vectors k (Suc i) (upd_dv (d_entry_update (\<lambda>es. es[i := word_of_int v])) d))"

definition probe_scan_for_msi :: "device \<Rightarrow> int \<times> device" where
  "probe_scan_for_msi d =
     (let req_nvec = MAX_NUM_ENGINES + MAX_USER_IRQ; (msix, d) = msi_msix_capable PCI_CAP_ID_MSIX d in
      if msix then
        let (rc, d) = dcall (Pci_enable_msix req_nvec) d;
            d = (if rc = 0 then fill_vectors req_nvec 0 d else d)
        in (rc, upd_dv (d_msix_enabled_update (\<lambda>_. True)) d)
      else
        let (msi, d) = msi_msix_capable PCI_CAP_ID_MSI d in
        if msi then
          let (rc, d) = dcall Pci_enable_msi d in (rc, upd_dv (d_msi_enabled_update (\<lambda>_. True)) d)
        else (0, d))"

definition request_regions :: "device \<Rightarrow> int \<times> device" where
  "request_regions d =
     (let (rc, d) = dcall Pci_request_regions d in
      (rc, if rc \<noteq> 0 then upd_dv (d_regions_in_use_update (\<lambda>_. True)) d else upd_dv (d_got_regions_update (\<lambda>_. True)) d))"

definition set_dma_mask :: "device \<Rightarrow> int \<times> device" where
  "set_dma_mask d =
     (let (rc, d) = dcall (Pci_set_dma_mask 64) d in
      if rc = 0 then (0, dcall0 (Pci_set_consistent_dma_mask 32) d)
      else
        let (rc, d) = dcall (Pci_set_dma_mask 32) d in
        if rc = 0 then (0, dcall0 (Pci_set_consistent_dma_mask 32) d) else (- 1, d))"

definition enable_pcie_relaxed_ordering :: "device \<Rightarrow> device" where
  "enable_pcie_relaxed_ordering = dcall0 Pcie_set_devctl"

definition PCI_EXP_DEVCTL_EXT_TAG :: u16 where "PCI_EXP_DEVCTL_EXT_TAG = 0x0100"

definition pcie_check_extended_tag :: "device \<Rightarrow> device run" where
  "pcie_check_extended_tag d =
     (let (cap, d) = dcall Pcie_read_devctl d in
      if (word_of_int cap :: u16) AND PCI_EXP_DEVCTL_EXT_TAG \<noteq> 0 then Inr d
      else if d_config_bar_idx (dv d) < 0 then Inr d
      else bindr (config_ptr d) (\<lambda>cfg.
        let reg = cfg + XDMA_OFS_CONFIG + 0x4C; (v, d) = dread reg d
        in Inr (dwrite ((v AND 0xFF) OR push_bit 8 32) reg d)))"

subsection \<open>The interfaces of a board\<close>

text \<open>The fields of the device structure that hold character devices.\<close>

datatype slot = User_char | Ctrl_char | Events_char nat | Sgdma_char nat nat | Bypass_char nat nat | Bypass_base_char

fun slot_of :: "xdma_dev \<Rightarrow> slot \<Rightarrow> nat option" where
  "slot_of v User_char = d_user_char_dev v"
| "slot_of v Ctrl_char = d_ctrl_char_dev v"
| "slot_of v (Events_char i) = d_events_char_dev v i"
| "slot_of v (Sgdma_char c dir) = d_sgdma_char_dev v c dir"
| "slot_of v (Bypass_char c dir) = d_bypass_char_dev v c dir"
| "slot_of v Bypass_base_char = d_bypass_char_dev_base v"

fun put_slot :: "slot \<Rightarrow> nat option \<Rightarrow> xdma_dev \<Rightarrow> xdma_dev" where
  "put_slot User_char r v = v\<lparr>d_user_char_dev := r\<rparr>"
| "put_slot Ctrl_char r v = v\<lparr>d_ctrl_char_dev := r\<rparr>"
| "put_slot (Events_char i) r v = v\<lparr>d_events_char_dev := (d_events_char_dev v)(i := r)\<rparr>"
| "put_slot (Sgdma_char c dir) r v = v\<lparr>d_sgdma_char_dev := (d_sgdma_char_dev v)(c := (d_sgdma_char_dev v c)(dir := r))\<rparr>"
| "put_slot (Bypass_char c dir) r v = v\<lparr>d_bypass_char_dev := (d_bypass_char_dev v)(c := (d_bypass_char_dev v c)(dir := r))\<rparr>"
| "put_slot Bypass_base_char r v = v\<lparr>d_bypass_char_dev_base := r\<rparr>"

definition destroy_slot :: "slot \<Rightarrow> device \<Rightarrow> device run" where
  "destroy_slot s d = (case slot_of (dv d) s of None \<Rightarrow> Inr d | Some n \<Rightarrow> destroy_sg_char n d)"

fun destroy_slots :: "slot list \<Rightarrow> device \<Rightarrow> device run" where
  "destroy_slots [] d = Inr d"
| "destroy_slots (s # ss) d = bindr (destroy_slot s d) (destroy_slots ss)"

text \<open>The order in which the code looks at the fields.\<close>

definition all_slots :: "slot list" where
  "all_slots = concat (map (\<lambda>c. [Sgdma_char c 0, Sgdma_char c 1, Bypass_char c 0, Bypass_char c 1]) [0..<XDMA_CHANNEL_NUM_MAX])
     @ [Bypass_base_char] @ map Events_char [0..<MAX_USER_IRQ] @ [Ctrl_char, User_char]"

definition destroy_interfaces :: "device \<Rightarrow> device run" where
  "destroy_interfaces = destroy_slots all_slots"

text \<open>A device is created and its pointer, possibly NULL, stored.\<close>

definition create_slot :: "slot \<Rightarrow> int \<Rightarrow> nat option \<Rightarrow> chardev_type \<Rightarrow> device \<Rightarrow> (int \<times> device) run" where
  "create_slot s bar engine type d =
     bindr (create_sg_char bar engine type d) (\<lambda>(r, d). Inr (if r = None then - 1 else 0, upd_dv (put_slot s r) d))"

definition create_engine_interface :: "nat \<Rightarrow> nat \<Rightarrow> bool \<Rightarrow> device \<Rightarrow> (int \<times> device) run" where
  "create_engine_interface engine channel dir_to_dev =
     create_slot (Sgdma_char channel (if dir_to_dev then 0 else 1)) (- 1) (Some engine)
       (if dir_to_dev then CHAR_XDMA_H2C else CHAR_XDMA_C2H)"

definition create_bypass_interface :: "nat \<Rightarrow> nat \<Rightarrow> bool \<Rightarrow> device \<Rightarrow> (int \<times> device) run" where
  "create_bypass_interface engine channel dir_to_dev d =
     create_slot (Bypass_char channel (if dir_to_dev then 0 else 1)) (d_bypass_bar_idx (dv d)) (Some engine)
       (if dir_to_dev then CHAR_BYPASS_H2C else CHAR_BYPASS_C2H) d"

text \<open>
  The loops over the channels stop at the first failure. The status of the loop over the
  events is not looked at: the code tests the array, which is never NULL, not its element.
\<close>

fun create_channel_interfaces :: "(nat \<Rightarrow> nat \<Rightarrow> bool \<Rightarrow> device \<Rightarrow> (int \<times> device) run) \<Rightarrow> bool \<Rightarrow> nat \<Rightarrow> nat \<Rightarrow> device \<Rightarrow> (int \<times> device) run" where
  "create_channel_interfaces create dir_to_dev 0 channel d = Inr (0, d)"
| "create_channel_interfaces create dir_to_dev (Suc k) channel d =
     bindr (case d_engine (dv d) channel (if dir_to_dev then 0 else 1) of
              None \<Rightarrow> Inr (0, d) | Some n \<Rightarrow> create n channel dir_to_dev d) (\<lambda>(rc, d).
       if rc \<noteq> 0 then Inr (rc, d) else create_channel_interfaces create dir_to_dev k (Suc channel) d)"

fun create_event_interfaces :: "nat \<Rightarrow> nat \<Rightarrow> device \<Rightarrow> device run" where
  "create_event_interfaces 0 i d = Inr d"
| "create_event_interfaces (Suc k) i d =
     bindr (create_slot (Events_char i) (int i) None CHAR_EVENTS d) (\<lambda>(_, d). create_event_interfaces k (Suc i) d)"

text \<open>A step that is taken when all went well so far.\<close>

definition then_ok :: "(int \<times> device) run \<Rightarrow> (device \<Rightarrow> (int \<times> device) run) \<Rightarrow> (int \<times> device) run" where
  "then_ok r f = bindr r (\<lambda>(rc, d). if rc \<noteq> 0 then Inr (rc, d) else f d)"

definition create_user_interface :: "device \<Rightarrow> (int \<times> device) run" where
  "create_user_interface d =
     (if d_user_bar_idx (dv d) < 0 then Inr (0, upd_dv (put_slot User_char None) d)
      else create_slot User_char (d_user_bar_idx (dv d)) None CHAR_USER d)"

definition create_bypass_interfaces :: "bool \<Rightarrow> device \<Rightarrow> (int \<times> device) run" where
  "create_bypass_interfaces dir_to_dev d =
     (if d_bypass_bar_idx (dv d) \<ge> 0
      then create_channel_interfaces create_bypass_interface dir_to_dev XDMA_CHANNEL_NUM_MAX 0 d else Inr (0, d))"

text \<open>The base bypass device: a failure goes unnoticed.\<close>

definition create_bypass_base :: "device \<Rightarrow> (int \<times> device) run" where
  "create_bypass_base d =
     (if d_bypass_bar_idx (dv d) < 0 then Inr (0, upd_dv (put_slot Bypass_base_char None) d)
      else bindr (create_slot Bypass_base_char (d_bypass_bar_idx (dv d)) None CHAR_BYPASS d) (\<lambda>(_, d). Inr (0, d)))"

definition create_all :: "device \<Rightarrow> (int \<times> device) run" where
  "create_all d =
     then_ok (create_user_interface d) (\<lambda>d.
     then_ok (create_slot Ctrl_char (d_config_bar_idx (dv d)) None CHAR_CTRL d) (\<lambda>d.
     then_ok (bindr (create_event_interfaces MAX_USER_IRQ 0 d) (\<lambda>d. Inr (0, d))) (\<lambda>d.
     then_ok (create_channel_interfaces create_engine_interface True XDMA_CHANNEL_NUM_MAX 0 d) (\<lambda>d.
     then_ok (create_channel_interfaces create_engine_interface False XDMA_CHANNEL_NUM_MAX 0 d) (\<lambda>d.
     then_ok (create_bypass_interfaces True d) (\<lambda>d.
     then_ok (create_bypass_interfaces False d) create_bypass_base))))))"

definition create_interfaces :: "device \<Rightarrow> (int \<times> device) run" where
  "create_interfaces d =
     bindr (create_all d) (\<lambda>(rc, d).
       if rc \<noteq> 0 then bindr (destroy_interfaces d) (\<lambda>d. Inr (- 1, d)) else Inr (0, d))"

subsection \<open>Probe and remove\<close>

text \<open>Where the straight line of \<open>probe\<close> ends: the label it jumps to.\<close>

datatype label =
    Free_alloc | Disable_msi | Rel_region | Unmap_bar | Disable_irq | Rmv_engine | Rmv_interface | Rmv_cdev

text \<open>
  Each label does its part and falls through to the one that follows it in the code.
\<close>

definition free_alloc :: "device \<Rightarrow> device" where
  "free_alloc = dcall0 (Kfree 6)"

text \<open>MSI-X and MSI are disabled by \<open>probe\<close> and by \<open>remove\<close> in the same way.\<close>

definition msi_off :: "device \<Rightarrow> device" where
  "msi_off d =
     (if d_msix_enabled (dv d) then upd_dv (d_msix_enabled_update (\<lambda>_. False)) (dcall0 Pci_disable_msix d)
      else if d_msi_enabled (dv d) then upd_dv (d_msi_enabled_update (\<lambda>_. False)) (dcall0 Pci_disable_msi d)
      else d)"

definition device_off :: "device \<Rightarrow> device" where
  "device_off d = (if \<not> d_regions_in_use (dv d) then dcall0 Pci_disable_device d else d)"

definition rel_region :: "device \<Rightarrow> device" where
  "rel_region d =
     (if d_got_regions (dv d) then upd_dv (d_got_regions_update (\<lambda>_. False)) (dcall0 Pci_release_regions d) else d)"

fun undo :: "label \<Rightarrow> device \<Rightarrow> device run" where
  "undo Free_alloc d = Inr (free_alloc d)"
| "undo Disable_msi d = Inr (device_off (msi_off d))"
| "undo Rel_region d = Inr (rel_region d)"
| "undo Unmap_bar d = unmap_bars d"
| "undo Disable_irq d = irq_teardown d"
| "undo Rmv_engine d = remove_engines d"
| "undo Rmv_interface d = destroy_interfaces d"
| "undo Rmv_cdev d =
     bindr (array_upd (d_instance (dv d)) (\<lambda>_. False) (dev_present d)) (\<lambda>ps.
       Inr (dcall0 Device_remove_file (d\<lparr>dev_present := ps\<rparr>)))"

fun undo_all :: "label list \<Rightarrow> device \<Rightarrow> device run" where
  "undo_all [] d = Inr d"
| "undo_all (l # ls) d = bindr (undo l d) (undo_all ls)"

definition label_order :: "label list" where
  "label_order = [Rmv_cdev, Rmv_interface, Rmv_engine, Disable_irq, Unmap_bar, Rel_region, Disable_msi, Free_alloc]"

definition unwind :: "label \<Rightarrow> device \<Rightarrow> device run" where
  "unwind l = undo_all (dropWhile (\<lambda>k. k \<noteq> l) label_order)"

text \<open>
  The first half of \<open>probe\<close>: from enabling the device to its interrupts. The result is the
  label of the step that failed, if one did.
\<close>

definition probe_irqs :: "device \<Rightarrow> (label option \<times> device) run" where
  "probe_irqs d =
     bindr (pcie_check_extended_tag d) (\<lambda>d.
     let (rc, d) = set_dma_mask d in
     if rc \<noteq> 0 then Inr (Some Unmap_bar, d)
     else bindr (irq_setup d) (\<lambda>(rc, d). Inr (if rc \<noteq> 0 then Some Disable_irq else None, d)))"

definition probe_regions :: "device \<Rightarrow> (label option \<times> device) run" where
  "probe_regions d =
     (let (rc, d) = request_regions d in
      if rc \<noteq> 0 then Inr (Some Rel_region, d)
      else bindr (map_bars d) (\<lambda>(rc, d). if rc \<noteq> 0 then Inr (Some Unmap_bar, d) else probe_irqs d))"

definition probe_pci :: "device \<Rightarrow> (label option \<times> device) run" where
  "probe_pci d =
     (let (rc, d) = dcall Pci_enable_device d in
      if rc \<noteq> 0 then Inr (Some Free_alloc, d)
      else
        let d = enable_pcie_relaxed_ordering d;
            d = dcall0 Pci_set_master d;
            (rc, d) = probe_scan_for_msi d
        in if rc < 0 then Inr (Some Disable_msi, d) else probe_regions d)"

text \<open>The second half: the credits, the engines, the interfaces, and enabling the interrupts.\<close>

definition probe_credits :: "device \<Rightarrow> device run" where
  "probe_credits d =
     bindr (config_ptr d) (\<lambda>cfg.
       let (w, d) = dread cfg d in
       if enable_credit_mp (dpar d) \<and> w AND 0x8000 \<noteq> 0 then enable_credit_feature d else Inr d)"

definition enable_interrupts :: "device \<Rightarrow> device run" where
  "enable_interrupts d =
     bindr (config_ptr d) (\<lambda>cfg.
       let d = upd_dwld (user_interrupts_enable cfg (- 1)) d;
           d = (if poll_mode (dpar d) then d else upd_dwld (channel_interrupts_enable cfg (- 1)) d)
       in Inr (upd_dwld (\<lambda>w. snd (read_interrupts cfg w)) d))"

definition probe_board :: "device \<Rightarrow> (label option \<times> device) run" where
  "probe_board d =
     bindr (probe_credits d) (\<lambda>d.
     bindr (probe_engines d) (\<lambda>(rc, d).
       if rc \<noteq> 0 then Inr (Some Rmv_engine, d)
       else bindr (create_interfaces d) (\<lambda>(rc, d).
         if rc \<noteq> 0 then Inr (Some Rmv_interface, d)
         else bindr (enable_interrupts d) (\<lambda>d.
           let (rc, d) = dcall Device_create_file d in Inr (if rc \<noteq> 0 then Some Rmv_cdev else None, d)))))"

definition probe_line :: "device \<Rightarrow> (label option \<times> device) run" where
  "probe_line d = bindr (probe_pci d) (\<lambda>(l, d). if l = None then probe_board d else Inr (l, d))"

definition probe :: "device \<Rightarrow> (int \<times> device) run" where
  "probe d =
     (let (ok, d) = alloc_dev_instance d in
      if \<not> ok then Inr (- ENOMEM, d)
      else bindr (probe_line d) (\<lambda>(l, d). case l of
          None \<Rightarrow> Inr (0, d)
        | Some l \<Rightarrow> bindr (unwind l d) (\<lambda>d. Inr (- 1, d))))"

text \<open>\<open>drvdata\<close> tells whether the kernel's device still refers to the driver's structure.\<close>

definition disable_interrupts :: "device \<Rightarrow> device run" where
  "disable_interrupts d =
     bindr (config_ptr d) (\<lambda>cfg.
       let d = upd_dwld (channel_interrupts_disable cfg (- 1)) d;
           d = upd_dwld (user_interrupts_disable cfg (- 1)) d
       in Inr (upd_dwld (\<lambda>w. snd (read_interrupts cfg w)) d))"

definition remove_regions :: "device \<Rightarrow> device" where
  "remove_regions d = (if d_got_regions (dv d) then dcall0 Pci_release_regions d else d)"

definition remove :: "bool \<Rightarrow> device \<Rightarrow> device run" where
  "remove drvdata d =
     (if \<not> drvdata then Inr d
      else
        bindr (disable_interrupts d) (\<lambda>d.
        bindr (destroy_interfaces d) (\<lambda>d.
        bindr (remove_engines d) (\<lambda>d.
        bindr (irq_teardown d) (\<lambda>d.
        bindr (unmap_bars d) (\<lambda>d.
          let d = device_off (msi_off (remove_regions d)) in
          bindr (array_upd (d_instance (dv d)) (\<lambda>_. False) (dev_present d)) (\<lambda>ps.
            Inr (free_alloc (dcall0 Device_remove_file (d\<lparr>dev_present := ps\<rparr>))))))))))"

subsection \<open>Loading and unloading the module\<close>

text \<open>\<open>register\<close> is what the kernel does on registration: it binds the boards it finds.\<close>

definition xdma_init :: "(device \<Rightarrow> (int \<times> device) run) \<Rightarrow> device \<Rightarrow> (int \<times> device) run" where
  "xdma_init register d =
     (let (p, d) = dcall Class_create d; d = d\<lparr>g_xdma_class := True\<rparr> in
      if p < 0 then Inr (- 1, d)
      else
        bindr (register (dcall0 Pci_register_driver d)) (\<lambda>(rc, d).
          Inr (rc, d\<lparr>dev_present := replicate MAX_XDMA_DEVICES False\<rparr>)))"

definition xdma_exit :: "(device \<Rightarrow> device run) \<Rightarrow> device \<Rightarrow> device run" where
  "xdma_exit unregister d =
     bindr (unregister (dcall0 Pci_unregister_driver d)) (\<lambda>d.
       Inr (if g_xdma_class d then dcall0 Class_destroy d else d))"

subsection \<open>What the steps leave alone\<close>

text \<open>A device without its structure and its world: the heaps and the module's variables.\<close>

definition but_io :: "device \<Rightarrow> device" where
  "but_io d = d\<lparr>dv := no_dev, dwld := idle_world\<rparr>"

lemma but_io_same [simp]:
  "but_io (upd_dv f d) = but_io d" "but_io (upd_dwld g d) = but_io d" "but_io (d\<lparr>dwld := w\<rparr>) = but_io d"
  by (simp_all add: but_io_def upd_dv_def upd_dwld_def)

lemma but_io_ops [simp]:
  "but_io (dcall0 c d) = but_io d" "but_io (dwrite v a d) = but_io d" "but_io (snd (dcall c d)) = but_io d"
  "but_io (snd (dread a d)) = but_io d"
  by (simp_all add: dcall0_eq dwrite_eq dcall_eq dread_eq)

lemma but_io_sel:
  "engs (but_io d) = engs d" "chars (but_io d) = chars d" "next_obj (but_io d) = next_obj d" "dev_present (but_io d) = dev_present d"
  "major (but_io d) = major d" "g_xdma_class (but_io d) = g_xdma_class d" "dpar (but_io d) = dpar d" "pci (but_io d) = pci d"
  by (simp_all add: but_io_def)

lemma but_ioD:
  assumes "but_io d' = but_io d"
  shows "engs d' = engs d" "chars d' = chars d" "next_obj d' = next_obj d" "dev_present d' = dev_present d" "major d' = major d"
    "g_xdma_class d' = g_xdma_class d" "dpar d' = dpar d" "pci d' = pci d"
  using assms by (metis but_io_sel)+

text \<open>The fields of the structure that say what was acquired, besides the BARs.\<close>

definition acquired :: "xdma_dev \<Rightarrow> bool \<times> bool \<times> s32 \<times> bool \<times> bool \<times> nat \<times> s32 list \<times> xdma_irq list" where
  "acquired v = (d_regions_in_use v, d_got_regions v, d_irq_line v, d_msi_enabled v, d_msix_enabled v, d_irq_user_count v,
     d_entry v, d_user_irq v)"

text \<open>The fields that later stages fill.\<close>

definition tables :: "xdma_dev \<Rightarrow> nat \<times> nat \<times> (slot \<Rightarrow> nat option) \<times> int \<times> (nat \<Rightarrow> nat \<Rightarrow> nat option)" where
  "tables v = (d_major v, d_instance v, slot_of v, d_engines_num v, d_engine v)"

lemma slot_of_upd [simp]:
  "slot_of (d_bar_update f v) = slot_of v" "slot_of (d_config_bar_idx_update g v) = slot_of v"
  "slot_of (d_user_bar_idx_update g v) = slot_of v" "slot_of (d_bypass_bar_idx_update g v) = slot_of v"
  "slot_of (d_entry_update es v) = slot_of v" "slot_of (d_msix_enabled_update b v) = slot_of v"
  "slot_of (d_msi_enabled_update b v) = slot_of v" "slot_of (d_regions_in_use_update b v) = slot_of v"
  "slot_of (d_got_regions_update b v) = slot_of v" "slot_of (d_irq_user_count_update n v) = slot_of v"
  "slot_of (d_irq_line_update l v) = slot_of v" "slot_of (d_engine_update h v) = slot_of v"
  "slot_of (d_engines_num_update g v) = slot_of v" "slot_of (d_major_update n v) = slot_of v"
  "slot_of (d_instance_update n v) = slot_of v"
  by (rule ext, rename_tac s, case_tac s; simp)+

lemma acquiredD:
  assumes "acquired v = acquired u"
  shows "d_regions_in_use v = d_regions_in_use u" "d_got_regions v = d_got_regions u" "d_irq_line v = d_irq_line u"
    "d_msi_enabled v = d_msi_enabled u" "d_msix_enabled v = d_msix_enabled u" "d_irq_user_count v = d_irq_user_count u"
    "d_entry v = d_entry u" "d_user_irq v = d_user_irq u"
  using assms by (simp_all add: acquired_def)

text \<open>A step that touches only the BARs and the world.\<close>

definition bars_only :: "device \<Rightarrow> device \<Rightarrow> bool" where
  "bars_only d d' \<longleftrightarrow> but_io d' = but_io d \<and> acquired (dv d') = acquired (dv d) \<and> tables (dv d') = tables (dv d)
     \<and> length (d_bar (dv d')) = length (d_bar (dv d))"

lemma bars_only_refl [simp, intro]: "bars_only d d"
  by (simp add: bars_only_def)

lemma bars_only_trans: "bars_only a b \<Longrightarrow> bars_only b c \<Longrightarrow> bars_only a c"
  by (simp add: bars_only_def)

lemma bars_only_upd [simp]:
  "bars_only d (upd_dwld f u) = bars_only d u"
  "bars_only d (upd_dv (d_config_bar_idx_update h) u) = bars_only d u" "bars_only d (identify_bars ids pos u) = bars_only d u"
  "bars_only (upd_dwld f d) u = bars_only d u"
  by (simp_all add: bars_only_def acquired_def tables_def identify_bars_def)

lemma set_bar_only: "set_bar i a d = Inr d' \<Longrightarrow> bars_only d d'"
  by (auto simp: set_bar_def bindr_eq_Inr bars_only_def acquired_def tables_def dest: array_upd_length)

lemma map_single_bar_only: "map_single_bar i d = Inr (n, d') \<Longrightarrow> bars_only d d'"
  by (auto simp: map_single_bar_def bindr_eq_Inr dcall_eq Let_def split: if_splits
      dest: bars_only_trans dest!: set_bar_only)

lemma unmap_bars_only: "unmap_bars d = Inr d' \<Longrightarrow> bars_only d d'"
  unfolding unmap_bars_def
proof (rule for_loop_inv [where P = "\<lambda>i. bars_only d"])
  fix j u v
  assume "bars_only d u" "unmap_bar j u = Inr v"
  moreover have "bars_only u v" using calculation(2)
    by (auto simp: unmap_bar_def bindr_eq_Inr dcall0_eq split: if_splits dest!: set_bar_only)
  ultimately show "bars_only d v" using bars_only_trans by blast
qed auto

lemma is_config_bar_only: "is_config_bar i d = Inr (b, d') \<Longrightarrow> bars_only d d'"
  by (auto simp: is_config_bar_def bindr_eq_Inr dread_eq Let_def intro: bars_only_trans)

lemma map_bars_loop_only: "map_bars_loop k i ids pos d = Inr (ok, ids', pos', d') \<Longrightarrow> bars_only d d'"
proof (induction k arbitrary: i ids pos d)
  case (Suc k)
  from Suc.prems obtain n d1 where m: "map_single_bar i d = Inr (n, d1)"
    by (auto simp: bindr_eq_Inr)
  have d1: "bars_only d d1" using map_single_bar_only [OF m] .
  consider "n = 0" | "n < 0" | "0 < n" by linarith
  then show ?case
  proof cases
    case 1
    then have "map_bars_loop k (Suc i) ids pos d1 = Inr (ok, ids', pos', d')" using Suc.prems m by simp
    then show ?thesis using Suc.IH d1 bars_only_trans by blast
  next
    case 2
    then show ?thesis using Suc.prems m d1 by simp
  next
    case 3
    let ?id = "if int XDMA_BAR_SIZE \<le> n \<and> d_config_bar_idx (dv d1) < 0
                   then bindr (is_config_bar i d1) (\<lambda>(flag, d).
                     Inr (if flag then (length ids, upd_dv (d_config_bar_idx_update (\<lambda>_. int i)) d) else (pos, d)))
                   else Inr (pos, d1)"
    have "bindr ?id (\<lambda>(pos, d). map_bars_loop k (Suc i) (ids @ [i]) pos d) = Inr (ok, ids', pos', d')"
      using Suc.prems m 3 by simp
    then obtain q d2 where q: "?id = Inr (q, d2)" "map_bars_loop k (Suc i) (ids @ [i]) q d2 = Inr (ok, ids', pos', d')"
      unfolding bindr_eq_Inr by auto
    have "bars_only d1 d2"
      using q(1) by (auto simp: bindr_eq_Inr split: if_splits dest!: is_config_bar_only intro: bars_only_trans)
    then show ?thesis using Suc.IH [OF q(2)] d1 bars_only_trans by blast
  qed
qed simp

lemma map_bars_only: "map_bars d = Inr (rc, d') \<Longrightarrow> bars_only d d'"
  by (auto simp: map_bars_def bindr_eq_Inr split: if_splits dest!: map_bars_loop_only unmap_bars_only
      intro: bars_only_trans)

subsection \<open>The account of the first half\<close>

text \<open>What a device holds of the bus and the interrupts, by the fields of its structure.\<close>

definition hw_held :: "device \<Rightarrow> resource \<Rightarrow> int" where
  "hw_held d x =
     of_bool (\<not> d_regions_in_use (dv d) \<and> x = R_device) + of_bool (d_got_regions (dv d) \<and> x = R_regions)
     + of_bool (d_msix_enabled (dv d) \<and> x = R_msix) + of_bool (d_msi_enabled (dv d) \<and> \<not> d_msix_enabled (dv d) \<and> x = R_msi)
     + irqs_held d x + bars_held d x"

lemma held_zero_bars: "d_bar (dv d) = replicate XDMA_BAR_NUM 0 \<Longrightarrow> bars_held d x = 0"
  by (auto simp: bars_held_def split: resource.splits)

lemma irqs_held_cong: "acquired (dv d') = acquired (dv d) \<Longrightarrow> irqs_held d' x = irqs_held d x"
  using acquiredD [of "dv d'" "dv d"] by (simp add: irqs_held_def)

text \<open>The common end of every error path and of \<open>remove\<close>.\<close>

lemma undo_msi_ok:
  "\<exists>d'. undo_all [Rel_region, Disable_msi, Free_alloc] d = Inr d' \<and> but_io d' = but_io d
    \<and> (\<forall>x. balance (dwld d') x = balance (dwld d) x - (hw_held d x - irqs_held d x - bars_held d x))"
  by (auto simp: rel_region_def device_off_def msi_off_def free_alloc_def hw_held_def dcall0_eq balance_call)

lemma undo_bars_ok:
  assumes "length (d_bar (dv d)) = XDMA_BAR_NUM"
  shows "\<exists>d'. undo_all [Unmap_bar, Rel_region, Disable_msi, Free_alloc] d = Inr d' \<and> but_io d' = but_io d
    \<and> (\<forall>x. balance (dwld d') x = balance (dwld d) x - (hw_held d x - irqs_held d x))"
proof -
  have "bar_ledger (\<lambda>x. balance (dwld d) x - bars_held d x) d" using assms by (simp add: bar_ledger_def)
  from unmap_bars_ok [OF this] obtain d1 where
    d1: "unmap_bars d = Inr d1" "d_bar (dv d1) = replicate XDMA_BAR_NUM 0" "\<forall>x. balance (dwld d1) x = balance (dwld d) x - bars_held d x"
    by auto
  have a: "acquired (dv d1) = acquired (dv d)" using unmap_bars_only [OF d1(1)] by (simp add: bars_only_def)
  obtain d' where d': "undo_all [Rel_region, Disable_msi, Free_alloc] d1 = Inr d'" "but_io d' = but_io d1"
    "\<forall>x. balance (dwld d') x = balance (dwld d1) x - (hw_held d1 x - irqs_held d1 x - bars_held d1 x)"
    using undo_msi_ok [of d1] by blast
  have h: "hw_held d1 x - irqs_held d1 x - bars_held d1 x = hw_held d x - irqs_held d x - bars_held d x" for x
    using acquiredD [OF a] by (simp add: hw_held_def)
  have "undo_all [Unmap_bar, Rel_region, Disable_msi, Free_alloc] d = Inr d'"
    using d1(1) d'(1) by (simp del: undo_all.simps(1))
  then show ?thesis using d1(3) d'(2,3) h unmap_bars_only [OF d1(1)] by (intro exI [of _ d']) (simp add: bars_only_def)
qed

lemma irq_teardown_frame: "irq_teardown d = Inr d' \<Longrightarrow> but_io d' = but_io d"
proof -
  have l: "for_loop k i (\<lambda>i d. bindr (array_get (d_entry (dv d)) i) (\<lambda>vector. Inr (dcall0 (Free_irq vector) d))) u = Inr u' \<Longrightarrow> but_io u' = but_io u"
    for k i u u'
    by (erule for_loop_inv [where P = "\<lambda>i v. but_io v = but_io u"]) (auto simp: bindr_eq_Inr dcall0_eq)
  assume "irq_teardown d = Inr d'"
  then show ?thesis by (auto simp: irq_teardown_def split: if_splits dest: l)
qed

lemma undo_irqs_ok:
  assumes "length (d_bar (dv d)) = XDMA_BAR_NUM" "d_irq_user_count (dv d) \<le> length (d_entry (dv d))"
  shows "\<exists>d'. undo_all [Disable_irq, Unmap_bar, Rel_region, Disable_msi, Free_alloc] d = Inr d' \<and> but_io d' = but_io d
    \<and> (\<forall>x. balance (dwld d') x = balance (dwld d) x - hw_held d x)"
proof -
  from irq_teardown_ok [OF assms(2)] obtain d1 where
    d1: "irq_teardown d = Inr d1" "dv d1 = dv d" "\<forall>x. balance (dwld d1) x = balance (dwld d) x - irqs_held d x" by blast
  have "length (d_bar (dv d1)) = XDMA_BAR_NUM" using assms(1) d1(2) by simp
  from undo_bars_ok [OF this] obtain d' where
    d': "undo_all [Unmap_bar, Rel_region, Disable_msi, Free_alloc] d1 = Inr d'" "but_io d' = but_io d1"
      "\<forall>x. balance (dwld d') x = balance (dwld d1) x - (hw_held d1 x - irqs_held d1 x)" by blast
  have h: "hw_held d1 x = hw_held d x" "irqs_held d1 x = irqs_held d x" for x
    using d1(2) held_cong [of d1 d x] by (simp_all add: hw_held_def irqs_held_def)
  have "undo_all [Disable_irq, Unmap_bar, Rel_region, Disable_msi, Free_alloc] d = Inr d'"
    using d1(1) d'(1) by (simp del: undo_all.simps(1))
  then show ?thesis using d1(3) d'(2,3) h irq_teardown_frame [OF d1(1)] by (intro exI [of _ d']) simp
qed

subsection \<open>A failure in the first half\<close>

text \<open>
  What the scan for MSI-X and MSI answers when the structure \<open>d\<close>, once allocated, is probed.
  The kernel's \<open>pci_enable_msix\<close> may answer with the number of vectors there are, when they
  are fewer than asked for: nothing is enabled then, but the code goes on as after a success
  and gives back what was never taken.
\<close>

definition msi_scan :: "device \<Rightarrow> int \<times> device" where
  "msi_scan d = probe_scan_for_msi (dcall0 Pci_set_master (enable_pcie_relaxed_ordering (snd (dcall Pci_enable_device d))))"

definition never_taken :: "device \<Rightarrow> resource \<Rightarrow> bool" where
  "never_taken d x \<longleftrightarrow> 0 < fst (msi_scan d) \<and> x = (if d_msix_enabled (dv (snd (msi_scan d))) then R_msix else R_msi)"

text \<open>A step that touches only the world, without taking or releasing anything.\<close>

definition quiet :: "device \<Rightarrow> device \<Rightarrow> bool" where
  "quiet d d' \<longleftrightarrow> but_io d' = but_io d \<and> dv d' = dv d \<and> w_kern (dwld d') = w_kern (dwld d)
     \<and> (\<forall>x. balance (dwld d') x = balance (dwld d) x)"

lemma quiet_refl [simp, intro]: "quiet d d"
  by (simp add: quiet_def)

lemma quiet_trans: "quiet a b \<Longrightarrow> quiet b c \<Longrightarrow> quiet a c"
  by (simp add: quiet_def)

lemma quiet_config: "quiet d d' \<Longrightarrow> config_ptr d' = config_ptr d"
  by (intro config_ptr_cong) (simp_all add: quiet_def)

lemma msi_capable_quiet: "msi_msix_capable t d = (b, d') \<Longrightarrow> quiet d d'"
  by (auto simp: msi_msix_capable_def dcall_eq quiet_def balance_call Let_def split: if_splits)

lemma set_dma_mask_quiet: "set_dma_mask d = (rc, d') \<Longrightarrow> quiet d d'"
  by (auto simp: set_dma_mask_def dcall_eq dcall0_eq quiet_def balance_call Let_def split: if_splits)

lemma extended_tag_quiet:
  assumes "config_ptr d = Inr cfg"
  shows "\<exists>d'. pcie_check_extended_tag d = Inr d' \<and> quiet d d'"
  using assms by (auto simp: pcie_check_extended_tag_def dcall_eq dread_eq dwrite_eq quiet_def balance_call Let_def)

lemma fill_vectors_ok:
  "\<exists>es. length es = length (d_entry (dv d)) \<and> dv (fill_vectors k i d) = (dv d)\<lparr>d_entry := es\<rparr>
    \<and> but_io (fill_vectors k i d) = but_io d \<and> (\<forall>x. balance (dwld (fill_vectors k i d)) x = balance (dwld d) x)"
proof (induction k arbitrary: i d)
  case 0
  show ?case by (rule exI [of _ "d_entry (dv d)"]) simp
next
  case (Suc k)
  obtain v d1 where v: "dcall (Msix_vector i) d = (v, d1)" by fastforce
  then have d1: "dv d1 = dv d" "but_io d1 = but_io d" "balance (dwld d1) x = balance (dwld d) x" for x
    by (auto simp: dcall_eq balance_call)
  show ?case
    using Suc.IH [of "upd_dv (d_entry_update (\<lambda>es. es[i := word_of_int v])) d1" "Suc i"] v d1 by simp
qed

lemma scan_ok:
  assumes "dv d = no_dev"
  shows "\<exists>rc d' es a b. probe_scan_for_msi d = (rc, d') \<and> but_io d' = but_io d \<and> length es = 32
    \<and> dv d' = no_dev\<lparr>d_entry := es, d_msix_enabled := a, d_msi_enabled := b\<rparr> \<and> \<not> (a \<and> b) \<and> (rc \<noteq> 0 \<longrightarrow> a \<or> b)
    \<and> (\<forall>x. balance (dwld d') x = balance (dwld d) x + of_bool (rc = 0 \<and> a \<and> x = R_msix) + of_bool (rc = 0 \<and> b \<and> x = R_msi))"
proof -
  let ?n = "MAX_NUM_ENGINES + MAX_USER_IRQ"
  obtain msix d1 where c: "msi_msix_capable PCI_CAP_ID_MSIX d = (msix, d1)" by fastforce
  from msi_capable_quiet [OF c] have d1: "dv d1 = no_dev" "but_io d1 = but_io d" "w_kern (dwld d1) = w_kern (dwld d)"
    "balance (dwld d1) x = balance (dwld d) x" for x using assms by (simp_all add: quiet_def)
  show ?thesis
  proof (cases msix)
    case True
    define rc where "rc = w_kern (dwld d1) (w_log (dwld d1)) (Pci_enable_msix ?n)"
    let ?e = "upd_dwld (emit (Call (Pci_enable_msix ?n))) d1"
    let ?f = "if rc = 0 then fill_vectors ?n 0 ?e else ?e"
    have run: "probe_scan_for_msi d = (rc, upd_dv (d_msix_enabled_update (\<lambda>_. True)) ?f)"
      using True by (simp add: probe_scan_for_msi_def c dcall_eq rc_def Let_def)
    obtain es where es: "length es = 32" "dv ?f = no_dev\<lparr>d_entry := es\<rparr>" "but_io ?f = but_io d"
      "\<forall>x. balance (dwld ?f) x = balance (dwld ?e) x"
    proof (cases "rc = 0")
      case True
      then show ?thesis using that fill_vectors_ok [of ?e ?n 0] d1 by (auto simp: no_dev_def)
    next
      case False
      then show ?thesis using that [of "d_entry no_dev"] d1 by (simp add: no_dev_def)
    qed
    have "\<forall>x. balance (dwld ?f) x = balance (dwld d) x + of_bool (rc = 0 \<and> x = R_msix)"
      using es(4) d1(4) by (simp add: balance_call rc_def)
    then show ?thesis using run es(1,2,3)
      by (intro exI [of _ rc] exI [of _ "upd_dv (d_msix_enabled_update (\<lambda>_. True)) ?f"] exI [of _ es] exI [of _ True] exI [of _ False])
        (simp add: no_dev_def)
  next
    case False
    obtain msi d2 where c2: "msi_msix_capable PCI_CAP_ID_MSI d1 = (msi, d2)" by fastforce
    from msi_capable_quiet [OF c2] have d2: "dv d2 = no_dev" "but_io d2 = but_io d" "w_kern (dwld d2) = w_kern (dwld d)"
      "balance (dwld d2) x = balance (dwld d) x" for x using d1 by (simp_all add: quiet_def)
    define rc where "rc = (if msi then w_kern (dwld d2) (w_log (dwld d2)) Pci_enable_msi else 0)"
    let ?f = "if msi then upd_dv (d_msi_enabled_update (\<lambda>_. True)) (upd_dwld (emit (Call Pci_enable_msi)) d2) else d2"
    have run: "probe_scan_for_msi d = (rc, ?f)"
      using False by (simp add: probe_scan_for_msi_def c c2 dcall_eq rc_def Let_def)
    show ?thesis using run d2
      by (intro exI [of _ rc] exI [of _ ?f] exI [of _ "d_entry no_dev"] exI [of _ False] exI [of _ msi])
        (simp add: no_dev_def balance_call rc_def)
  qed
qed

lemma irq_setup_line:
  assumes "\<not> d_msix_enabled (dv d)" "config_ptr d = Inr cfg"
  shows "\<exists>rc d1. irq_setup d = Inr (rc, d1) \<and> dv d1 = (dv d)\<lparr>d_irq_line := pd_irq (pci d)\<rparr>
    \<and> (\<forall>x. balance (dwld d1) x = balance (dwld d) x + of_bool (rc = 0 \<and> x = R_irq (pd_irq (pci d))))"
proof -
  obtain da where a: "(if \<not> d_msi_enabled (dv d) then legacy_vectors d else Inr d) = Inr da" "dv da = dv d" "pci da = pci d"
    "\<forall>x. balance (dwld da) x = balance (dwld d) x"
    using legacy_vectors_ok [OF assms(2)] by (cases "d_msi_enabled (dv d)") auto
  then show ?thesis using assms(1) by (simp add: irq_setup_def dcall_eq balance_call)
qed

lemma request_user_irqs_frame: "request_user_irqs k i d = Inr (rc, j, d') \<Longrightarrow> but_io d' = but_io d"
proof (induction k arbitrary: i d)
  case (Suc k)
  from Suc.prems obtain v where v: "array_get (d_entry (dv d)) i = Inr v" by (auto simp: bindr_eq_Inr)
  let ?d = "upd_dwld (emit (Call (Request_irq v))) d"
  show ?case
  proof (cases "w_kern (dwld d) (w_log (dwld d)) (Request_irq v) = 0")
    case True
    then have "request_user_irqs k (Suc i) ?d = Inr (rc, j, d')" using Suc.prems v by (simp add: dcall_eq)
    from Suc.IH [OF this] show ?thesis by simp
  next
    case False
    then show ?thesis using Suc.prems v by (auto simp: dcall_eq)
  qed
qed simp

lemma free_user_irqs_frame: "free_user_irqs i d = Inr d' \<Longrightarrow> but_io d' = but_io d"
proof (induction i arbitrary: d)
  case (Suc i)
  from Suc.prems obtain v where "free_user_irqs i (dcall0 (Free_irq v) d) = Inr d'" by (auto simp: bindr_eq_Inr)
  from Suc.IH [OF this] show ?case by simp
qed simp

lemma irq_setup_frame: "irq_setup d = Inr (rc, d') \<Longrightarrow> but_io d' = but_io d"
  by (auto simp: irq_setup_def msix_irq_setup_def write_msix_vectors_def legacy_vectors_def bindr_eq_Inr dcall_eq dwrite_eq Let_def
      split: if_splits dest!: request_user_irqs_frame free_user_irqs_frame)

text \<open>
  What an early failure leaves behind: a board whose regions are in use stays enabled, a
  line is released that was not granted, MSI is disabled that was not enabled.
\<close>

definition leftover :: "label option \<Rightarrow> device \<Rightarrow> resource \<Rightarrow> int" where
  "leftover l d x =
     of_bool (l = Some Rel_region \<and> x = R_device)
     - of_bool (l = Some Disable_irq \<and> \<not> d_msix_enabled (dv d) \<and> x = R_irq (pd_irq (pci d)))
     - of_bool (l = Some Disable_msi \<and> x = (if d_msix_enabled (dv d) then R_msix else R_msi))"

text \<open>What the structure holds when nothing was taken but the bus and MSI.\<close>

definition no_irqs :: "device \<Rightarrow> bool" where
  "no_irqs d \<longleftrightarrow> d_irq_user_count (dv d) = 0 \<and> d_irq_line (dv d) = - 1"

definition half_ok :: "(resource \<Rightarrow> int) \<Rightarrow> device \<Rightarrow> label option \<Rightarrow> device \<Rightarrow> bool" where
  "half_ok base d l d1 \<longleftrightarrow>
     but_io d1 = but_io d \<and> tables (dv d1) = tables no_dev \<and> length (d_bar (dv d1)) = XDMA_BAR_NUM
     \<and> length (d_entry (dv d1)) = 32 \<and> d_irq_user_count (dv d1) \<le> 32
     \<and> (l = None \<longrightarrow> (\<exists>cfg. config_ptr d1 = Inr cfg))
     \<and> (\<forall>x. balance (dwld d1) x = base x + hw_held d1 x + leftover l d1 x)"

text \<open>The balance agrees with what the structure says.\<close>

definition on_the_books :: "(resource \<Rightarrow> int) \<Rightarrow> device \<Rightarrow> bool" where
  "on_the_books base d \<longleftrightarrow> tables (dv d) = tables no_dev \<and> length (d_bar (dv d)) = XDMA_BAR_NUM
     \<and> length (d_entry (dv d)) = 32 \<and> no_irqs d \<and> pd_irq (pci d) \<noteq> - 1
     \<and> (\<forall>x. balance (dwld d) x = base x + hw_held d x)"

lemma irqs_held_none: "no_irqs d \<Longrightarrow> irqs_held d x = 0"
  by (simp add: no_irqs_def irqs_held_def)

lemma quiet_books: "quiet d d' \<Longrightarrow> on_the_books base d \<Longrightarrow> on_the_books base d'"
  by (auto simp: quiet_def on_the_books_def no_irqs_def hw_held_def irqs_held_def held_cong [of d' d] dest!: but_ioD)

lemma tables_irq [simp]:
  "tables (v\<lparr>d_irq_user_count := n\<rparr>) = tables v" "tables (v\<lparr>d_irq_line := l\<rparr>) = tables v"
  "tables (v\<lparr>d_entry := es\<rparr>) = tables v" "tables (v\<lparr>d_msix_enabled := b\<rparr>) = tables v"
  "tables (v\<lparr>d_msi_enabled := b\<rparr>) = tables v" "tables (v\<lparr>d_regions_in_use := b\<rparr>) = tables v"
  "tables (v\<lparr>d_got_regions := b\<rparr>) = tables v"
  by (simp_all add: tables_def)

lemma probe_irqs_ok:
  assumes b: "on_the_books base d" and cfg: "config_ptr d = Inr cfg"
  shows "\<exists>l d1. probe_irqs d = Inr (l, d1) \<and> l \<in> {None, Some Unmap_bar, Some Disable_irq} \<and> half_ok base d l d1
    \<and> (l = Some Unmap_bar \<longrightarrow> no_irqs d1)"
proof -
  obtain d1 where d1: "pcie_check_extended_tag d = Inr d1" "quiet d d1" using extended_tag_quiet [OF cfg] by blast
  obtain rc d2 where d2: "set_dma_mask d1 = (rc, d2)" by fastforce
  have q: "quiet d d2" using quiet_trans [OF d1(2) set_dma_mask_quiet [OF d2]] .
  have b2: "on_the_books base d2" using quiet_books [OF q b] .
  have c2: "config_ptr d2 = Inr cfg" using quiet_config [OF q] cfg by simp
  have io: "but_io d2 = but_io d" using q by (simp add: quiet_def)
  show ?thesis
  proof (cases "rc = 0")
    case False
    then have "probe_irqs d = Inr (Some Unmap_bar, d2)" by (simp add: probe_irqs_def d1(1) d2)
    then show ?thesis using b2 io by (auto simp: half_ok_def on_the_books_def leftover_def no_irqs_def)
  next
    case True
    then have run: "probe_irqs d = bindr (irq_setup d2) (\<lambda>(rc, d). Inr (if rc \<noteq> 0 then Some Disable_irq else None, d))"
      by (simp add: probe_irqs_def d1(1) d2)
    have tb: "tables (dv d2) = tables no_dev" "length (d_bar (dv d2)) = XDMA_BAR_NUM" "length (d_entry (dv d2)) = 32" "no_irqs d2"
      "pd_irq (pci d2) \<noteq> - 1" "balance (dwld d2) x = base x + hw_held d2 x" for x
      using b2 by (simp_all add: on_the_books_def)
    show ?thesis
    proof (cases "d_msix_enabled (dv d2)")
      case True
      obtain rc d3 where s: "irq_setup d2 = Inr (rc, d3)"
        "dv d3 = (dv d2)\<lparr>d_irq_user_count := (if rc = 0 then 16 else d_irq_user_count (dv d2))\<rparr>"
        "\<forall>x. balance (dwld d3) x = balance (dwld d2) x + (if rc = 0 then vectors (d_entry (dv d2)) 0 16 x else 0)"
        using irq_setup_msix [OF True tb(3) c2] by blast
      have h: "hw_held d3 x = hw_held d2 x + (if rc = 0 then vectors (d_entry (dv d2)) 0 16 x else 0)" for x
        using s(2) tb(4) True held_cong [of d3 d2 x] by (simp add: hw_held_def irqs_held_def no_irqs_def)
      have "config_ptr d3 = Inr cfg" using s(2) c2 config_ptr_cong [of d3 d2] by simp
      then have "half_ok base d (if rc \<noteq> 0 then Some Disable_irq else None) d3"
        using tb s h True io irq_setup_frame [OF s(1)] by (simp add: half_ok_def leftover_def no_irqs_def)
      then show ?thesis using run s(1) by simp
    next
      case False
      obtain rc d3 where s: "irq_setup d2 = Inr (rc, d3)" "dv d3 = (dv d2)\<lparr>d_irq_line := pd_irq (pci d2)\<rparr>"
        "\<forall>x. balance (dwld d3) x = balance (dwld d2) x + of_bool (rc = 0 \<and> x = R_irq (pd_irq (pci d2)))"
        using irq_setup_line [OF False c2] by blast
      have pci: "pci d3 = pci d2" using but_ioD(8) [OF irq_setup_frame [OF s(1)]] .
      have h: "hw_held d3 x = hw_held d2 x + of_bool (x = R_irq (pd_irq (pci d2)))" for x
        using s(2) tb(4,5) False held_cong [of d3 d2 x] by (simp add: hw_held_def irqs_held_def no_irqs_def)
      have "config_ptr d3 = Inr cfg" using s(2) c2 config_ptr_cong [of d3 d2] by simp
      then have "half_ok base d (if rc \<noteq> 0 then Some Disable_irq else None) d3"
        using tb s h False io irq_setup_frame [OF s(1)] pci by (simp add: half_ok_def leftover_def no_irqs_def)
      then show ?thesis using run s(1) by simp
    qed
  qed
qed

lemma probe_regions_ok:
  assumes b: "on_the_books base d" and v: "dv d = no_dev\<lparr>d_entry := es, d_msix_enabled := a, d_msi_enabled := m\<rparr>"
  shows "\<exists>l d1. probe_regions d = Inr (l, d1) \<and> l \<in> {None, Some Rel_region, Some Unmap_bar, Some Disable_irq} \<and> half_ok base d l d1
    \<and> (l \<in> {Some Rel_region, Some Unmap_bar} \<longrightarrow> no_irqs d1) \<and> (l = Some Rel_region \<longrightarrow> d_bar (dv d1) = replicate XDMA_BAR_NUM 0)"
proof -
  define rc where "rc = w_kern (dwld d) (w_log (dwld d)) Pci_request_regions"
  let ?e = "upd_dwld (emit (Call Pci_request_regions)) d"
  have be: "balance (dwld ?e) x = base x + hw_held d x + of_bool (rc = 0 \<and> x = R_regions)" for x
    using b by (simp add: balance_call on_the_books_def rc_def)
  have z: "d_bar (dv d) = replicate XDMA_BAR_NUM 0" "d_config_bar_idx (dv d) = - 1" "d_user_bar_idx (dv d) = - 1"
      "d_bypass_bar_idx (dv d) = - 1" "\<not> d_regions_in_use (dv d)" "\<not> d_got_regions (dv d)"
    using v by (simp_all add: no_dev_def XDMA_BAR_NUM_def)
  have ni: "no_irqs d" using b by (simp add: on_the_books_def)
  show ?thesis
  proof (cases "rc = 0")
    case False
    let ?d1 = "upd_dv (d_regions_in_use_update (\<lambda>_. True)) ?e"
    have "request_regions d = (rc, ?d1)" using False by (simp add: request_regions_def dcall_eq rc_def)
    then have run: "probe_regions d = Inr (Some Rel_region, ?d1)" using False by (simp add: probe_regions_def)
    have h: "hw_held d x = hw_held ?d1 x + of_bool (x = R_device)" for x
      using z held_cong [of ?d1 d x] by (simp add: hw_held_def irqs_held_def)
    have "half_ok base d (Some Rel_region) ?d1"
      using b be h False by (simp add: half_ok_def on_the_books_def leftover_def no_irqs_def)
    then show ?thesis using run z ni by (auto simp: no_irqs_def)
  next
    case True
    let ?d1 = "upd_dv (d_got_regions_update (\<lambda>_. True)) ?e"
    have r: "request_regions d = (0, ?d1)" using True by (simp add: request_regions_def dcall_eq rc_def)
    have h1: "hw_held ?d1 x = hw_held d x + of_bool (x = R_regions)" for x
      using z held_cong [of ?d1 d x] by (simp add: hw_held_def irqs_held_def)
    have fresh: "d_bar (dv ?d1) = replicate XDMA_BAR_NUM 0" "d_config_bar_idx (dv ?d1) = - 1" "d_user_bar_idx (dv ?d1) = - 1"
      "d_bypass_bar_idx (dv ?d1) = - 1"
      using z by simp_all
    obtain rc' d2 where m: "map_bars ?d1 = Inr (rc', d2)" and out:
      "rc' = - 1 \<and> d_bar (dv d2) = replicate XDMA_BAR_NUM 0 \<and> (\<forall>x. balance (dwld d2) x = balance (dwld ?d1) x)
     \<or> rc' = 0 \<and> (\<forall>x. balance (dwld d2) x = balance (dwld ?d1) x + bars_held d2 x)
       \<and> (\<exists>c<XDMA_BAR_NUM. d_config_bar_idx (dv d2) = int c \<and> d_bar (dv d2) ! c \<noteq> 0)"
      using map_bars_ok [OF fresh] by blast
    have o: "but_io d2 = but_io d" "acquired (dv d2) = acquired (dv ?d1)" "tables (dv d2) = tables (dv ?d1)"
      using map_bars_only [OF m] by (simp_all add: bars_only_def)
    note f = acquiredD [OF o(2)]
    have len: "length (d_bar (dv d2)) = XDMA_BAR_NUM" using map_bars_only [OF m] fresh(1) by (simp add: bars_only_def)
    have h2: "hw_held d2 x = hw_held d x + of_bool (x = R_regions) + bars_held d2 x" for x
      using f z(6) held_zero_bars [OF z(1)] irqs_held_cong [OF o(2)] h1 [of x] held_zero_bars [OF fresh(1)] by (simp add: hw_held_def)
    have "balance (dwld d2) x = base x + hw_held d2 x" for x
      using out be [of x] h2 [of x] True held_zero_bars [of d2 x] by auto
    then have b2: "on_the_books base d2"
      using b f o(1,3) len but_ioD(8) [OF o(1)] by (simp add: on_the_books_def no_irqs_def)
    show ?thesis
    proof (cases "rc' = 0")
      case False
      then have "probe_regions d = Inr (Some Unmap_bar, d2)" using r m by (simp add: probe_regions_def)
      then show ?thesis using b2 o(1) by (auto simp: half_ok_def on_the_books_def leftover_def no_irqs_def)
    next
      case True
      then obtain c where c: "c < XDMA_BAR_NUM" "d_config_bar_idx (dv d2) = int c" "d_bar (dv d2) ! c \<noteq> 0" using out by auto
      then have "config_ptr d2 = Inr (d_bar (dv d2) ! c)" using len by (simp add: config_ptr_def bar_ptr_def)
      from probe_irqs_ok [OF b2 this] obtain l d3 where
        p: "probe_irqs d2 = Inr (l, d3)" "l \<in> {None, Some Unmap_bar, Some Disable_irq}" "half_ok base d2 l d3"
          "l = Some Unmap_bar \<longrightarrow> no_irqs d3" by blast
      have "probe_regions d = Inr (l, d3)" using r m True p(1) by (simp add: probe_regions_def)
      then show ?thesis using p(2-4) o(1) by (auto simp: half_ok_def)
    qed
  qed
qed

lemma tables_new [simp]: "tables (no_dev\<lparr>d_entry := es, d_msix_enabled := a, d_msi_enabled := m\<rparr>) = tables no_dev"
  by simp

text \<open>The first half of \<open>probe\<close> on the new structure, step by step.\<close>

lemma probe_pci_ok:
  assumes v: "dv d = no_dev" and irq: "pd_irq (pci d) \<noteq> - 1"
  shows "\<exists>l d1. probe_pci d = Inr (l, d1)
    \<and> (l = Some Free_alloc \<and> but_io d1 = but_io d \<and> (\<forall>x. balance (dwld d1) x = balance (dwld d) x)
       \<or> l \<in> {None, Some Disable_msi, Some Rel_region, Some Unmap_bar, Some Disable_irq} \<and> half_ok (\<lambda>x. balance (dwld d) x - of_bool (never_taken d x)) d l d1
          \<and> (l \<noteq> None \<and> l \<noteq> Some Disable_irq \<longrightarrow> no_irqs d1)
          \<and> (l = Some Rel_region \<or> l = Some Disable_msi \<longrightarrow> d_bar (dv d1) = replicate XDMA_BAR_NUM 0)
          \<and> (l = Some Disable_msi \<longrightarrow> \<not> d_got_regions (dv d1)))"
proof -
  define rc where "rc = w_kern (dwld d) (w_log (dwld d)) Pci_enable_device"
  let ?e = "upd_dwld (emit (Call Pci_enable_device)) d"
  have e: "dcall Pci_enable_device d = (rc, ?e)" by (simp add: dcall_eq rc_def)
  show ?thesis
  proof (cases "rc = 0")
    case False
    then have "probe_pci d = Inr (Some Free_alloc, ?e)" by (simp add: probe_pci_def e)
    then show ?thesis using False by (simp add: balance_call rc_def)
  next
    case True
    let ?f = "dcall0 Pci_set_master (enable_pcie_relaxed_ordering ?e)"
    have f: "dv ?f = no_dev" "but_io ?f = but_io d" "balance (dwld ?f) x = balance (dwld d) x + of_bool (x = R_device)" for x
      using v True by (simp_all add: dcall0_eq enable_pcie_relaxed_ordering_def balance_call rc_def)
    obtain rc' d2 es a b where s: "probe_scan_for_msi ?f = (rc', d2)" "but_io d2 = but_io ?f" "length es = 32"
      "dv d2 = no_dev\<lparr>d_entry := es, d_msix_enabled := a, d_msi_enabled := b\<rparr>" "\<not> (a \<and> b)" "rc' \<noteq> 0 \<longrightarrow> a \<or> b"
      "\<forall>x. balance (dwld d2) x = balance (dwld ?f) x + of_bool (rc' = 0 \<and> a \<and> x = R_msix) + of_bool (rc' = 0 \<and> b \<and> x = R_msi)"
      using scan_ok [OF f(1)] by (elim exE conjE) (rule that)
    have nt: "never_taken d x \<longleftrightarrow> 0 < rc' \<and> x = (if a then R_msix else R_msi)" for x
      using s(4) by (simp add: never_taken_def msi_scan_def e s(1))
    have z: "d_bar (dv d2) = replicate XDMA_BAR_NUM 0" "no_irqs d2" "\<not> d_regions_in_use (dv d2)" "\<not> d_got_regions (dv d2)"
        "d_msix_enabled (dv d2) = a" "d_msi_enabled (dv d2) = b" "length (d_entry (dv d2)) = 32"
      using s(3,4) by (simp_all add: no_dev_def XDMA_BAR_NUM_def no_irqs_def)
    have h: "hw_held d2 x = of_bool (x = R_device) + of_bool (a \<and> x = R_msix) + of_bool (b \<and> x = R_msi)" for x
      using z s(5) by (auto simp: hw_held_def irqs_held_none [OF z(2)] held_zero_bars [OF z(1)])
    have t: "tables (dv d2) = tables no_dev" using s(4) by simp
    have io: "but_io d2 = but_io d" using s(2) f(2) by simp
    show ?thesis
    proof (cases "rc' < 0")
      case neg: True
      have run: "probe_pci d = Inr (Some Disable_msi, d2)" using True neg by (simp add: probe_pci_def e s(1) Let_def)
      have "balance (dwld d2) x = balance (dwld d) x - of_bool (never_taken d x) + hw_held d2 x + leftover (Some Disable_msi) d2 x" for x
        using s(5,6,7) f(3) h neg z(5,6) nt by (auto simp: leftover_def)
      then have "half_ok (\<lambda>x. balance (dwld d) x - of_bool (never_taken d x)) d (Some Disable_msi) d2"
        using t io z by (simp add: half_ok_def no_irqs_def)
      then show ?thesis using run z by simp
    next
      case False
      have run: "probe_pci d = probe_regions d2" using True False by (simp add: probe_pci_def e s(1) Let_def)
      have "balance (dwld d2) x = balance (dwld d) x - of_bool (never_taken d x) + hw_held d2 x" for x
        using s(5,6,7) f(3) h False nt by auto
      then have "on_the_books (\<lambda>x. balance (dwld d) x - of_bool (never_taken d x)) d2"
        using t z irq but_ioD(8) [OF io] by (simp add: on_the_books_def)
      from probe_regions_ok [OF this s(4)] obtain l d1 where
        p: "probe_regions d2 = Inr (l, d1)" "l \<in> {None, Some Rel_region, Some Unmap_bar, Some Disable_irq}"
          "half_ok (\<lambda>x. balance (dwld d) x - of_bool (never_taken d x)) d2 l d1" "l \<in> {Some Rel_region, Some Unmap_bar} \<longrightarrow> no_irqs d1"
          "l = Some Rel_region \<longrightarrow> d_bar (dv d1) = replicate XDMA_BAR_NUM 0" by (elim exE conjE) (rule that)
      have "half_ok (\<lambda>x. balance (dwld d) x - of_bool (never_taken d x)) d l d1" using p(3) io by (simp add: half_ok_def)
      then show ?thesis using run p(1,2,4,5) by auto
    qed
  qed
qed

lemma unwind_simps:
  "unwind Free_alloc = undo_all [Free_alloc]" "unwind Disable_msi = undo_all [Disable_msi, Free_alloc]"
  "unwind Rel_region = undo_all [Rel_region, Disable_msi, Free_alloc]"
  "unwind Unmap_bar = undo_all [Unmap_bar, Rel_region, Disable_msi, Free_alloc]"
  "unwind Disable_irq = undo_all [Disable_irq, Unmap_bar, Rel_region, Disable_msi, Free_alloc]"
  "unwind Rmv_engine = undo_all [Rmv_engine, Disable_irq, Unmap_bar, Rel_region, Disable_msi, Free_alloc]"
  "unwind Rmv_interface = undo_all [Rmv_interface, Rmv_engine, Disable_irq, Unmap_bar, Rel_region, Disable_msi, Free_alloc]"
  by (simp_all add: unwind_def label_order_def)

text \<open>From every label of the first half the error path gives back what is on the books.\<close>

lemma unwind_first_half:
  assumes h: "half_ok base d l d1" and l: "l \<in> {Some Disable_msi, Some Rel_region, Some Unmap_bar, Some Disable_irq}"
    and i: "l \<noteq> Some Disable_irq \<longrightarrow> no_irqs d1" and z: "l = Some Rel_region \<or> l = Some Disable_msi \<longrightarrow> d_bar (dv d1) = replicate XDMA_BAR_NUM 0"
    and g: "l = Some Disable_msi \<longrightarrow> \<not> d_got_regions (dv d1)"
  shows "\<exists>d'. unwind (the l) d1 = Inr d' \<and> but_io d' = but_io d \<and> (\<forall>x. balance (dwld d') x = base x + leftover l d1 x)"
proof -
  have b: "length (d_bar (dv d1)) = XDMA_BAR_NUM" "d_irq_user_count (dv d1) \<le> length (d_entry (dv d1))" "but_io d1 = but_io d"
    "\<forall>x. balance (dwld d1) x = base x + hw_held d1 x + leftover l d1 x"
    using h by (simp_all add: half_ok_def)
  have "\<exists>d'. unwind (the l) d1 = Inr d' \<and> but_io d' = but_io d1 \<and> (\<forall>x. balance (dwld d') x = balance (dwld d1) x - hw_held d1 x)"
  proof (cases "l = Some Disable_irq")
    case True
    then show ?thesis using undo_irqs_ok [OF b(1,2)] by (simp add: unwind_simps del: undo_all.simps)
  next
    case False
    then have ni: "irqs_held d1 x = 0" for x using i irqs_held_none by blast
    show ?thesis
    proof (cases "l = Some Unmap_bar")
      case True
      then show ?thesis using undo_bars_ok [OF b(1)] ni by (simp add: unwind_simps del: undo_all.simps)
    next
      case False
      then have "l = Some Rel_region \<or> l = Some Disable_msi" using l \<open>l \<noteq> Some Disable_irq\<close> by blast
      moreover from this have nb: "bars_held d1 x = 0" for x using z held_zero_bars by blast
      moreover have "undo_all [Disable_msi, Free_alloc] d1 = undo_all [Rel_region, Disable_msi, Free_alloc] d1" if "\<not> d_got_regions (dv d1)"
        using that by (simp add: rel_region_def)
      ultimately show ?thesis using undo_msi_ok [of d1] ni nb g by (auto simp: unwind_simps simp del: undo_all.simps)
    qed
  qed
  then show ?thesis using b(3,4) by auto
qed

text \<open>
  C31: When probing fails before the engines, the error path releases what was taken and
  leaves the heaps and the module's variables alone, and the account of every resource is
  as before, with four exceptions, which are exact: a board whose regions are in use by
  another driver stays enabled, as the code intends; a line that was refused is released;
  MSI or MSI-X that could not be enabled is disabled; and so is MSI-X when the kernel
  answers with a number of vectors, which the code takes for a success.
\<close>

theorem probe_failure_account:
  assumes "alloc_dev_instance d = (True, d0)" "probe_pci d0 = Inr (Some l, d1)" "pd_irq (pci d) \<noteq> - 1"
  shows "\<exists>d'. probe d = Inr (- 1, d') \<and> engs d' = engs d \<and> chars d' = chars d \<and> dev_present d' = dev_present d \<and> major d' = major d
    \<and> (\<forall>x. balance (dwld d') x
        = balance (dwld d) x + leftover (Some l) d1 x - of_bool (l \<noteq> Free_alloc \<and> never_taken d0 x))"
proof -
  have d0: "dv d0 = no_dev" "pd_irq (pci d0) \<noteq> - 1" "but_io d0 = but_io d" "balance (dwld d0) x = balance (dwld d) x" for x
    using assms(1,3) by (auto simp: alloc_dev_instance_def dcall_eq balance_call split: if_splits)
  have line: "probe_line d0 = Inr (Some l, d1)" using assms(2) by (simp add: probe_line_def)
  have run: "probe d = bindr (unwind l d1) (\<lambda>d. Inr (- 1, d))" using assms(1) line by (simp add: probe_def)
  have "\<exists>d'. unwind l d1 = Inr d' \<and> but_io d' = but_io d0
    \<and> (\<forall>x. balance (dwld d') x = balance (dwld d0) x + leftover (Some l) d1 x - of_bool (l \<noteq> Free_alloc \<and> never_taken d0 x))"
  proof (cases "l = Free_alloc")
    case True
    then have "but_io d1 = but_io d0" "\<forall>x. balance (dwld d1) x = balance (dwld d0) x"
      using probe_pci_ok [OF d0(1,2)] assms(2) by auto
    then show ?thesis using True by (simp add: unwind_simps free_alloc_def leftover_def dcall0_eq balance_call)
  next
    case False
    from probe_pci_ok [OF d0(1,2)] assms(2) False have
      "half_ok (\<lambda>x. balance (dwld d0) x - of_bool (never_taken d0 x)) d0 (Some l) d1"
      "Some l \<in> {Some Disable_msi, Some Rel_region, Some Unmap_bar, Some Disable_irq}"
      "Some l \<noteq> Some Disable_irq \<longrightarrow> no_irqs d1"
      "Some l = Some Rel_region \<or> Some l = Some Disable_msi \<longrightarrow> d_bar (dv d1) = replicate XDMA_BAR_NUM 0"
      "Some l = Some Disable_msi \<longrightarrow> \<not> d_got_regions (dv d1)" by auto
    from unwind_first_half [OF this] show ?thesis using False by (simp add: algebra_simps)
  qed
  then obtain d' where d': "unwind l d1 = Inr d'" "but_io d' = but_io d0"
    "\<forall>x. balance (dwld d') x = balance (dwld d0) x + leftover (Some l) d1 x - of_bool (l \<noteq> Free_alloc \<and> never_taken d0 x)"
    by blast
  have "but_io d' = but_io d" using d'(2) d0(3) by simp
  from but_ioD [OF this] show ?thesis using run d' d0(4) by auto
qed

subsection \<open>The account of the second half\<close>

text \<open>
  What the live engines and character devices hold. The line 0 stands for no line, and the
  ranges of device numbers are not given back one by one; they are left out.
\<close>

definition tracked :: "resource \<Rightarrow> bool" where
  "tracked x \<longleftrightarrow> x \<noteq> R_irq 0 \<and> (\<forall>a b n. x \<noteq> R_chrdev a b n)"

definition line_held :: "xdma_engine option \<Rightarrow> resource \<Rightarrow> int" where
  "line_held r x = (case r of None \<Rightarrow> 0 | Some e \<Rightarrow> of_bool (e_msix_irq_line e \<noteq> 0 \<and> x = R_irq (e_msix_irq_line e)))"

definition char_held :: "xdma_char option \<Rightarrow> resource \<Rightarrow> int" where
  "char_held r x = (case r of None \<Rightarrow> 0
     | Some c \<Rightarrow> of_bool (x = R_cdev (c_major c) (c_minor c)) + of_bool (x = R_node (c_major c) (c_minor c)))"

definition heap_held :: "device \<Rightarrow> resource \<Rightarrow> int" where
  "heap_held d x = (\<Sum>n<next_obj d. line_held (engs d n) x + char_held (chars d n) x)"

definition fresh :: "device \<Rightarrow> bool" where
  "fresh d \<longleftrightarrow> (\<forall>n\<ge>next_obj d. engs d n = None \<and> chars d n = None)"

lemma held_None [simp]: "line_held None x = 0" "char_held None x = 0"
  by (simp_all add: line_held_def char_held_def)

text \<open>Steps that touch the structure only in the numbers of the board.\<close>

definition numbers_only :: "device \<Rightarrow> device \<Rightarrow> bool" where
  "numbers_only d d' \<longleftrightarrow> (\<exists>m i. dv d' = (dv d)\<lparr>d_major := m, d_instance := i\<rparr>) \<and> engs d' = engs d
     \<and> g_xdma_class d' = g_xdma_class d \<and> dpar d' = dpar d \<and> pci d' = pci d
     \<and> (d_instance (dv d) < length (dev_present d) \<longrightarrow> d_instance (dv d') < length (dev_present d'))"

lemma numbers_refl [simp, intro]: "numbers_only d d"
  unfolding numbers_only_def by (metis xdma_dev.surjective xdma_dev.update_convs(1,2))

lemma numbers_trans: "numbers_only a b \<Longrightarrow> numbers_only b c \<Longrightarrow> numbers_only a c"
  unfolding numbers_only_def by fastforce

lemma numbers_upd [simp]:
  "numbers_only d (upd_dwld f u) = numbers_only d u" "numbers_only (upd_dwld f d) u = numbers_only d u"
  "numbers_only d (u\<lparr>chars := h\<rparr>) = numbers_only d u" "numbers_only (d\<lparr>next_obj := k\<rparr>) u = numbers_only d u"
  "numbers_only d (u\<lparr>major := k\<rparr>) = numbers_only d u"
  "numbers_only (d\<lparr>chars := h\<rparr>) u = numbers_only d u" "numbers_only d (u\<lparr>next_obj := k\<rparr>) = numbers_only d u"
  by (simp_all add: numbers_only_def)

lemma find_instance_bound: "find_instance i ps = Inr j \<Longrightarrow> j < length ps"
proof (induction i ps rule: find_instance.induct)
  case (1 i ps)
  from "1.prems" obtain p where p: "array_get ps i = Inr p" "(if p \<and> i < MAX_XDMA_DEVICES then find_instance (Suc i) ps else Inr i) = Inr j"
    by (subst (asm) find_instance.simps) (auto simp: bindr_eq_Inr)
  show ?case
  proof (cases "p \<and> i < MAX_XDMA_DEVICES")
    case True
    then show ?thesis using "1.IH" p by auto
  next
    case False
    then show ?thesis using p by (auto simp: array_get_def split: if_splits)
  qed
qed

lemma gen_major_numbers:
  assumes "gen_dev_major d = (m, d')"
  shows "numbers_only d d' \<and> dv d' = dv d \<and> dev_present d' = dev_present d"
  using assms by (auto simp: gen_dev_major_def dcall_eq Let_def split: if_splits)

lemma new_instance_numbers:
  assumes "new_instance d = Inr (ok, d')"
  shows "numbers_only d d'"
proof (cases "d_major (dv d) = 0")
  case True
  from assms True obtain i where i: "find_instance 0 (dev_present d) = Inr i" by (auto simp: new_instance_def bindr_eq_Inr)
  show ?thesis
  proof (cases "i = MAX_XDMA_DEVICES")
    case True
    then show ?thesis using assms i \<open>d_major (dv d) = 0\<close> by (simp add: new_instance_def)
  next
    case False
    let ?u = "upd_dv (d_instance_update (\<lambda>_. i)) (d\<lparr>dev_present := (dev_present d)[i := True]\<rparr>)"
    obtain m v where g: "gen_dev_major ?u = (m, v)" by fastforce
    have d': "d' = upd_dv (d_major_update (\<lambda>_. m)) v"
      using assms i \<open>d_major (dv d) = 0\<close> False g by (simp add: new_instance_def Let_def)
    note n = gen_major_numbers [OF g]
    have "dv d' = (dv d)\<lparr>d_major := m, d_instance := i\<rparr>" using n by (simp add: d')
    moreover have "engs d' = engs d" "g_xdma_class d' = g_xdma_class d" "dpar d' = dpar d" "pci d' = pci d"
        "dev_present d' = (dev_present d)[i := True]"
      using n by (simp_all add: d' numbers_only_def)
    ultimately show ?thesis using find_instance_bound [OF i] unfolding numbers_only_def by (metis (no_types, lifting) length_list_update
        xdma_dev.select_convs(2) xdma_dev.surjective xdma_dev.update_convs(1,2))
  qed
next
  case False
  then show ?thesis using assms by (simp add: new_instance_def)
qed

lemma config_kobject_numbers: "config_kobject c e t d = Inr (rc, d') \<Longrightarrow> numbers_only d d' \<and> next_obj d' = next_obj d"
  by (auto simp: config_kobject_def dcall_eq Let_def split: chardev_type.splits option.splits)

lemma register_char_account:
  assumes "register_char c d = (ok, d')" "g_xdma_class d"
  shows "numbers_only d d' \<and> next_obj d' = next_obj d \<and> chars d' = chars d
    \<and> (tracked x \<longrightarrow> balance (dwld d') x = balance (dwld d) x
        + (if ok then of_bool (x = R_cdev (c_major c) (c_minor c)) + of_bool (x = R_node (c_major c) (c_minor c)) else 0))"
  using assms
  by (auto simp: register_char_def dcall_eq dcall0_eq create_dev_def Let_def balance_call tracked_def split: if_splits)

lemma free_new_char:
  assumes "fresh d" "chars u = chars d"
  shows "chars (free_char (next_obj d) u) = chars d"
  using assms by (simp add: free_char_def dcall0_eq fresh_def fun_upd_idem)

lemma free_char_sel [simp]:
  "numbers_only d (free_char n u) = numbers_only d u" "next_obj (free_char n u) = next_obj u"
  "balance (dwld (free_char n u)) x = balance (dwld u) x"
  by (simp_all add: free_char_def dcall0_eq balance_call)

lemma create_char_account:
  assumes run: "create_sg_char bar en t d = Inr (r, d')" and f: "fresh d" and cl: "g_xdma_class d"
  shows "numbers_only d d' \<and> next_obj d' = Suc (next_obj d)
    \<and> (case r of None \<Rightarrow> chars d' = chars d
       | Some n \<Rightarrow> n = next_obj d \<and> (\<exists>c. chars d' = (chars d)(n \<mapsto> c) \<and> c_sys_device c))
    \<and> (\<forall>x. tracked x \<longrightarrow> balance (dwld d') x = balance (dwld d) x + (case r of None \<Rightarrow> 0 | Some n \<Rightarrow> char_held (chars d' n) x))"
proof -
  define p where "p = w_kern (dwld d) (w_log (dwld d)) (Kzalloc 5)"
  define d0 where "d0 = (upd_dwld (emit (Call (Kzalloc 5))) d)\<lparr>next_obj := Suc (next_obj d)\<rparr>"
  have d0: "numbers_only d d0" "next_obj d0 = Suc (next_obj d)" "chars d0 = chars d" "g_xdma_class d0"
    "balance (dwld d0) x = balance (dwld d) x" for x
    using cl by (simp_all add: d0_def balance_call)
  have run0: "(if p = 0 then Inr (None, d0) else
        bindr (new_instance d0) (\<lambda>(ok, d1).
          if \<not> ok then Inr (None, free_char (next_obj d) d1)
          else
            bindr (case en of None \<Rightarrow> Inr None | Some m \<Rightarrow> bindr (engine_at m d1) (\<lambda>e. Inr (Some e))) (\<lambda>ce.
            bindr (gen_dev_minor ce t bar) (\<lambda>minor.
            let c = \<lparr>c_major = d_major (dv d1), c_minor = nat minor, c_bar = bar, c_engine = en,
                     c_user_irq = (if t = CHAR_EVENTS then Some (nat bar) else None), c_sys_device = False\<rparr>
            in
            bindr (config_kobject c ce t d1) (\<lambda>(rc, d2).
              if rc \<noteq> 0 then Inr (None, free_char (next_obj d) d2)
              else
                let (ok, d3) = register_char c d2 in
                if \<not> ok then Inr (None, free_char (next_obj d) d3)
                else Inr (Some (next_obj d), d3\<lparr>chars := (chars d3)(next_obj d \<mapsto> c\<lparr>c_sys_device := g_xdma_class d3\<rparr>)\<rparr>)))))) = Inr (r, d')"
    using run by (simp only: create_sg_char_def dcall_eq Let_def prod.case d0_def p_def upd_dwld_sel)
  show ?thesis
  proof (cases "p = 0")
    case True
    then show ?thesis using run0 d0 by auto
  next
    case False
    then obtain ok d1 where i: "new_instance d0 = Inr (ok, d1)" using run0 by (auto simp: bindr_eq_Inr)
    have d1: "numbers_only d d1" "next_obj d1 = Suc (next_obj d)" "chars d1 = chars d" "g_xdma_class d1"
      "balance (dwld d1) x = balance (dwld d) x" for x
      using new_instance_balance [OF i] numbers_trans [OF d0(1) new_instance_numbers [OF i]] d0 by simp_all
    show ?thesis
    proof (cases ok)
      case no: False
      then show ?thesis using run0 \<open>p \<noteq> 0\<close> i d1 free_new_char [OF f d1(3)] by auto
    next
      case ok: True
      then obtain ce m where e: "(case en of None \<Rightarrow> Inr None | Some m \<Rightarrow> bindr (engine_at m d1) (\<lambda>e. Inr (Some e))) = Inr ce"
        "gen_dev_minor ce t bar = Inr m" using run0 \<open>p \<noteq> 0\<close> i by (auto simp: bindr_eq_Inr)
      define c where "c = \<lparr>c_major = d_major (dv d1), c_minor = nat m, c_bar = bar, c_engine = en,
                     c_user_irq = (if t = CHAR_EVENTS then Some (nat bar) else None), c_sys_device = False\<rparr>"
      from run0 have run1: "bindr (config_kobject c ce t d1) (\<lambda>(rc, d2).
              if rc \<noteq> 0 then Inr (None, free_char (next_obj d) d2)
              else
                let (ok, d3) = register_char c d2 in
                if \<not> ok then Inr (None, free_char (next_obj d) d3)
                else Inr (Some (next_obj d), d3\<lparr>chars := (chars d3)(next_obj d \<mapsto> c\<lparr>c_sys_device := g_xdma_class d3\<rparr>)\<rparr>)) = Inr (r, d')"
        unfolding c_def by (simp only: i bindr_Inr prod.case ok e Let_def \<open>p \<noteq> 0\<close> if_False not_True_eq_False simp_thms)
      then obtain rc d2 where k: "config_kobject c ce t d1 = Inr (rc, d2)" by (auto simp: bindr_eq_Inr)
      have d2: "numbers_only d d2" "next_obj d2 = Suc (next_obj d)" "chars d2 = chars d" "g_xdma_class d2"
        "balance (dwld d2) x = balance (dwld d) x" for x
        using config_kobject_balance [OF k] config_kobject_numbers [OF k] numbers_trans [OF d1(1)] d1 by simp_all
      show ?thesis
      proof (cases "rc = 0")
        case bad: False
        then show ?thesis using run1 k d2 free_new_char [OF f d2(3)] by auto
      next
        case True
        obtain ok d3 where g: "register_char c d2 = (ok, d3)" by fastforce
        note a = register_char_account [OF g d2(4)]
        have d3: "numbers_only d d3" "next_obj d3 = Suc (next_obj d)" "chars d3 = chars d"
          using a numbers_trans [OF d2(1)] d2 by simp_all
        have cl3: "g_xdma_class d3" using d3(1) cl by (simp add: numbers_only_def)
        show ?thesis
        proof (cases ok)
          case False
          then have "r = None" "d' = free_char (next_obj d) d3" using run1 k True g by simp_all
          then show ?thesis using d3 a d2(5) False free_new_char [OF f d3(3)] by simp
        next
          case True
          then have "r = Some (next_obj d)"
            "d' = d3\<lparr>chars := (chars d3)(next_obj d \<mapsto> c\<lparr>c_sys_device := g_xdma_class d3\<rparr>)\<rparr>"
            using run1 k \<open>rc = 0\<close> g by simp_all
          then show ?thesis using d3 a d2(5) True cl3 by (auto simp: char_held_def)
        qed
      qed
    qed
  qed
qed

subsection \<open>Creating the interfaces\<close>

lemma slot_put [simp]: "slot_of (put_slot s r v) = (slot_of v)(s := r)"
proof
  fix t
  show "slot_of (put_slot s r v) t = ((slot_of v)(s := r)) t" by (cases s; cases t) auto
qed

text \<open>The fields of the structure that creating interfaces does not touch.\<close>

definition board_fields where
  "board_fields v = (acquired v, d_bar v, d_config_bar_idx v, d_user_bar_idx v, d_bypass_bar_idx v, d_engine v, d_engines_num v)"

lemma board_put [simp]:
  "board_fields (put_slot s r v) = board_fields v" "board_fields (v\<lparr>d_major := m, d_instance := i\<rparr>) = board_fields v"
  "d_instance (put_slot s r v) = d_instance v"
  by (cases s; simp add: board_fields_def acquired_def)+

lemma board_fieldsD:
  assumes "board_fields v = board_fields u"
  shows "acquired v = acquired u" "d_bar v = d_bar u" "d_config_bar_idx v = d_config_bar_idx u" "d_engine v = d_engine u"
    "d_engines_num v = d_engines_num u"
  using assms by (simp_all add: board_fields_def)

text \<open>Every pointer is to a live device with a node, and no two are to the same.\<close>

definition slots_live :: "device \<Rightarrow> bool" where
  "slots_live d \<longleftrightarrow> (\<forall>s n. slot_of (dv d) s = Some n \<longrightarrow> s \<in> set all_slots \<and> (\<exists>c. chars d n = Some c \<and> c_sys_device c)
     \<and> (\<forall>s'. slot_of (dv d) s' = Some n \<longrightarrow> s' = s))"

text \<open>
  What holds while the interfaces of the board \<open>a\<close> are created: the new devices are those
  of the pointers, and the balances have changed by what the new devices hold.
\<close>

definition ifaces_ok :: "device \<Rightarrow> device \<Rightarrow> bool" where
  "ifaces_ok a d \<longleftrightarrow> fresh d \<and> g_xdma_class d \<and> next_obj a \<le> next_obj d \<and> engs d = engs a \<and> dpar d = dpar a \<and> pci d = pci a
     \<and> slots_live d \<and> (\<forall>n<next_obj a. chars d n = chars a n)
     \<and> (\<forall>n\<ge>next_obj a. chars d n \<noteq> None \<longrightarrow> (\<exists>s. slot_of (dv d) s = Some n))
     \<and> (\<forall>s n. slot_of (dv d) s = Some n \<longrightarrow> next_obj a \<le> n)
     \<and> (\<forall>x. tracked x \<longrightarrow> balance (dwld d) x - heap_held d x = balance (dwld a) x - heap_held a x)
     \<and> board_fields (dv d) = board_fields (dv a) \<and> d_instance (dv d) < length (dev_present d)"

definition creates :: "(device \<Rightarrow> (int \<times> device) run) \<Rightarrow> slot set \<Rightarrow> bool" where
  "creates f S \<longleftrightarrow> (\<forall>a d rc d'. ifaces_ok a d \<longrightarrow> (\<forall>s\<in>S. slot_of (dv d) s = None) \<longrightarrow> f d = Inr (rc, d')
     \<longrightarrow> ifaces_ok a d' \<and> (\<forall>s. s \<notin> S \<longrightarrow> slot_of (dv d') s = slot_of (dv d) s))"

lemma createsD:
  assumes "creates f S" "ifaces_ok a d" "\<forall>s\<in>S. slot_of (dv d) s = None" "f d = Inr (rc, d')"
  shows "ifaces_ok a d' \<and> (\<forall>s. s \<notin> S \<longrightarrow> slot_of (dv d') s = slot_of (dv d) s)"
  using assms unfolding creates_def by blast

lemma heap_held_new:
  assumes "next_obj d' = Suc (next_obj d)" "engs d' = engs d" "chars d' = (chars d)(next_obj d := r)" "fresh d"
  shows "heap_held d' x = heap_held d x + char_held r x"
proof -
  have "(\<Sum>n<next_obj d. line_held (engs d' n) x + char_held (chars d' n) x) = heap_held d x"
    unfolding heap_held_def by (rule sum.cong) (auto simp: assms)
  then show ?thesis using assms by (simp add: heap_held_def fresh_def)
qed

lemma create_slot_creates:
  assumes s: "s \<in> set all_slots"
  shows "creates (\<lambda>d. create_slot s (bar d) en t d) {s}"
  unfolding creates_def
proof (intro allI impI)
  fix a d rc d'
  assume inv: "ifaces_ok a d" and free: "\<forall>s\<in>{s}. slot_of (dv d) s = None" and run: "create_slot s (bar d) en t d = Inr (rc, d')"
  from run obtain r d1 where c: "create_sg_char (bar d) en t d = Inr (r, d1)" and d': "d' = upd_dv (put_slot s r) d1"
    by (auto simp: create_slot_def bindr_eq_Inr)
  have i: "fresh d" "g_xdma_class d" "slots_live d" using inv by (simp_all add: ifaces_ok_def)
  note acc = create_char_account [OF c i(1,2)]
  let ?n = "next_obj d"
  have n: "numbers_only d d1" "next_obj d' = Suc ?n" using acc by (simp_all add: d')
  have sl: "slot_of (dv d') = (slot_of (dv d))(s := r)" "board_fields (dv d') = board_fields (dv d)"
      "d_instance (dv d') < length (dev_present d')" "engs d' = engs d" "g_xdma_class d'" "dpar d' = dpar d" "pci d' = pci d"
    using n(1) inv by (auto simp: d' numbers_only_def ifaces_ok_def)
  have ch: "\<exists>q. chars d' = (chars d)(?n := q) \<and> (case r of None \<Rightarrow> q = None | Some n \<Rightarrow> n = ?n \<and> (\<exists>c. q = Some c \<and> c_sys_device c))
      \<and> (\<forall>x. tracked x \<longrightarrow> balance (dwld d') x = balance (dwld d) x + char_held q x)"
  proof (cases r)
    case None
    have "(chars d)(?n := None) = chars d" using i(1) by (simp add: fresh_def fun_upd_idem)
    then show ?thesis using acc None by (intro exI [of _ None]) (simp add: d')
  next
    case (Some n)
    with acc obtain c where c: "n = ?n" "chars d1 = (chars d)(n \<mapsto> c)" "c_sys_device c" by auto
    have "\<forall>x. tracked x \<longrightarrow> balance (dwld d1) x = balance (dwld d) x + char_held (Some c) x"
      using acc Some c(2) by simp
    then show ?thesis using Some c by (intro exI [of _ "Some c"]) (simp add: d')
  qed
  then obtain q where q: "chars d' = (chars d)(?n := q)"
    "case r of None \<Rightarrow> q = None | Some n \<Rightarrow> n = ?n \<and> (\<exists>c. q = Some c \<and> c_sys_device c)"
    "\<And>x. tracked x \<Longrightarrow> balance (dwld d') x = balance (dwld d) x + char_held q x" by blast
  have old: "slot_of (dv d) s' \<noteq> Some ?n" for s' using i unfolding slots_live_def fresh_def by (metis option.distinct(1) order_refl)
  have live: "slots_live d'"
    unfolding slots_live_def sl(1) q(1)
  proof (intro allI impI)
    fix u n
    assume u: "((slot_of (dv d))(s := r)) u = Some n"
    show "u \<in> set all_slots \<and> (\<exists>c. ((chars d)(?n := q)) n = Some c \<and> c_sys_device c)
       \<and> (\<forall>s'. ((slot_of (dv d))(s := r)) s' = Some n \<longrightarrow> s' = u)"
    proof (cases "u = s")
      case True
      then have "r = Some n" using u by simp
      then show ?thesis using q(2) True s old by (auto split: if_splits)
    next
      case False
      then have un: "slot_of (dv d) u = Some n" using u by simp
      then have "n \<noteq> ?n" using old by blast
      then have "r \<noteq> Some n" using q(2) by (auto split: option.splits)
      then show ?thesis using un i(3) \<open>n \<noteq> ?n\<close> unfolding slots_live_def by (auto split: if_splits)
    qed
  qed
  have fr: "fresh d'" using i(1) n(2) sl(4) q(1) by (auto simp: fresh_def)
  have h: "heap_held d' x = heap_held d x + char_held q x" for x by (rule heap_held_new [OF n(2) sl(4) q(1) i(1)])
  have b: "balance (dwld d') x - heap_held d' x = balance (dwld a) x - heap_held a x" if "tracked x" for x
    using q(3) [OF that] h [of x] inv that unfolding ifaces_ok_def by (smt (verit))
  have le: "next_obj a \<le> ?n" using inv by (simp add: ifaces_ok_def)
  have new: "\<forall>m\<ge>next_obj a. chars d' m \<noteq> None \<longrightarrow> (\<exists>u. slot_of (dv d') u = Some m)"
  proof (intro allI impI)
    fix m
    assume m: "next_obj a \<le> m" "chars d' m \<noteq> None"
    show "\<exists>u. slot_of (dv d') u = Some m"
    proof (cases "m = ?n")
      case True
      then have "r = Some m" using m(2) q(1,2) by (cases r) auto
      then show ?thesis using sl(1) by (metis fun_upd_same)
    next
      case False
      then have "chars d m \<noteq> None" using m(2) q(1) by simp
      then obtain u where "slot_of (dv d) u = Some m" using inv m(1) unfolding ifaces_ok_def by blast
      moreover from this have "u \<noteq> s" using free by auto
      ultimately show ?thesis using sl(1) by (metis fun_upd_other)
    qed
  qed
  have from_a: "\<forall>u m. slot_of (dv d') u = Some m \<longrightarrow> next_obj a \<le> m"
    using inv q(2) le unfolding sl(1) ifaces_ok_def by (auto split: option.splits)
  have keep: "\<forall>m<next_obj a. chars d' m = chars a m" using inv le q(1) by (simp add: ifaces_ok_def)
  have "ifaces_ok a d'"
    unfolding ifaces_ok_def using fr live b new from_a keep sl n(2) le inv by (auto simp: ifaces_ok_def)
  then show "ifaces_ok a d' \<and> (\<forall>u. u \<notin> {s} \<longrightarrow> slot_of (dv d') u = slot_of (dv d) u)" using sl(1) by simp
qed

text \<open>Composition: two creations that fill different fields.\<close>

lemma creates_then:
  assumes "creates f S" "creates g T" "S \<inter> T = {}"
  shows "creates (\<lambda>d. then_ok (f d) g) (S \<union> T)"
  unfolding creates_def
proof (intro allI impI)
  fix a d rc d'
  assume inv: "ifaces_ok a d" and free: "\<forall>s\<in>S \<union> T. slot_of (dv d) s = None" and run: "then_ok (f d) g = Inr (rc, d')"
  from run obtain rc1 d1 where f: "f d = Inr (rc1, d1)" and g: "(if rc1 \<noteq> 0 then Inr (rc1, d1) else g d1) = Inr (rc, d')"
    by (auto simp: then_ok_def bindr_eq_Inr)
  have "\<forall>s\<in>S. slot_of (dv d) s = None" using free by blast
  note 1 = createsD [OF assms(1) inv this f]
  show "ifaces_ok a d' \<and> (\<forall>s. s \<notin> S \<union> T \<longrightarrow> slot_of (dv d') s = slot_of (dv d) s)"
  proof (cases "rc1 = 0")
    case True
    have "\<forall>s\<in>T. slot_of (dv d1) s = None" using 1 free assms(3) by (metis Un_iff disjoint_iff)
    from createsD [OF assms(2) _ this, of a rc d'] 1 g True show ?thesis by simp
  next
    case False
    then show ?thesis using 1 g by simp
  qed
qed

lemma creates_mono: "creates f S \<Longrightarrow> S \<subseteq> T \<Longrightarrow> creates f T"
  unfolding creates_def by blast

lemma creates_skip: "creates (\<lambda>d. Inr (0, d)) S"
  by (simp add: creates_def)

lemma creates_if:
  assumes "creates f S" "creates g S"
  shows "creates (\<lambda>d. if b d then f d else g d) S"
  unfolding creates_def
proof (intro allI impI)
  fix a d rc d'
  assume i: "ifaces_ok a d" "\<forall>s\<in>S. slot_of (dv d) s = None" and r: "(if b d then f d else g d) = Inr (rc, d')"
  show "ifaces_ok a d' \<and> (\<forall>s. s \<notin> S \<longrightarrow> slot_of (dv d') s = slot_of (dv d) s)"
    using createsD [OF assms(1) i] createsD [OF assms(2) i] r by (cases "b d") simp_all
qed

lemma creates_ignore:
  assumes "creates f S"
  shows "creates (\<lambda>d. bindr (f d) (\<lambda>(_, d). Inr (0, d))) S"
  unfolding creates_def
proof (intro allI impI)
  fix a d rc d'
  assume i: "ifaces_ok a d" "\<forall>s\<in>S. slot_of (dv d) s = None" and "bindr (f d) (\<lambda>(_, d). Inr (0, d)) = Inr (rc, d')"
  then obtain rc1 where "f d = Inr (rc1, d')" by (auto simp: bindr_eq_Inr)
  from createsD [OF assms i this] show "ifaces_ok a d' \<and> (\<forall>s. s \<notin> S \<longrightarrow> slot_of (dv d') s = slot_of (dv d) s)" .
qed

lemma creates_null:
  "creates (\<lambda>d. Inr (0, upd_dv (put_slot s None) d)) {s}"
proof -
  have "ifaces_ok a (upd_dv (put_slot s None) d)" if "ifaces_ok a d" "slot_of (dv d) s = None" for a d
  proof -
    have e: "(slot_of (dv d))(s := None) = slot_of (dv d)" using that(2) by (simp add: fun_upd_idem)
    have "slots_live (upd_dv (put_slot s None) d) = slots_live d" "fresh (upd_dv (put_slot s None) d) = fresh d"
      "heap_held (upd_dv (put_slot s None) d) x = heap_held d x" for x
      using e by (simp_all add: slots_live_def fresh_def heap_held_def)
    then show ?thesis using that e by (simp add: ifaces_ok_def)
  qed
  then show ?thesis by (auto simp: creates_def)
qed

lemma all_slots_mem [simp]:
  "User_char \<in> set all_slots" "Ctrl_char \<in> set all_slots" "Bypass_base_char \<in> set all_slots"
  "Events_char i \<in> set all_slots \<longleftrightarrow> i < MAX_USER_IRQ"
  "Sgdma_char c dir \<in> set all_slots \<longleftrightarrow> c < XDMA_CHANNEL_NUM_MAX \<and> dir < 2"
  "Bypass_char c dir \<in> set all_slots \<longleftrightarrow> c < XDMA_CHANNEL_NUM_MAX \<and> dir < 2"
  by (auto simp: all_slots_def)

lemma create_events_creates:
  assumes "i + k \<le> MAX_USER_IRQ"
  shows "creates (\<lambda>d. bindr (create_event_interfaces k i d) (\<lambda>d. Inr (0, d))) (Events_char ` {i..<i + k})"
  using assms
proof (induction k arbitrary: i)
  case 0
  then show ?case by (simp add: creates_skip)
next
  case (Suc k)
  let ?f = "\<lambda>d. bindr (create_slot (Events_char i) (int i) None CHAR_EVENTS d) (\<lambda>(_, d). Inr (0, d))"
  let ?g = "\<lambda>d. bindr (create_event_interfaces k (Suc i) d) (\<lambda>d. Inr (0, d))"
  have 1: "creates ?f {Events_char i}"
    using Suc.prems create_slot_creates [of "Events_char i" "\<lambda>_. int i"] by (intro creates_ignore) simp
  have 2: "creates ?g (Events_char ` {Suc i..<Suc i + k})" by (rule Suc.IH) (use Suc.prems in simp)
  have eq: "(\<lambda>d. bindr (create_event_interfaces (Suc k) i d) (\<lambda>d. Inr (0, d))) = (\<lambda>d. then_ok (?f d) ?g)"
    by (rule ext, rename_tac d, case_tac "create_slot (Events_char i) (int i) None CHAR_EVENTS d") (auto simp: then_ok_def)
  have "{i..<i + Suc k} = insert i {Suc i..<Suc i + k}" by auto
  then have s: "Events_char ` {i..<i + Suc k} = {Events_char i} \<union> Events_char ` {Suc i..<Suc i + k}"
    by simp
  show ?case unfolding eq s by (rule creates_then [OF 1 2]) auto
qed

lemma create_channels_creates:
  assumes "c + k \<le> XDMA_CHANNEL_NUM_MAX" "\<And>n c. c < XDMA_CHANNEL_NUM_MAX \<Longrightarrow> creates (create n c dir) {mk c}" "inj mk"
  shows "creates (create_channel_interfaces create dir k c) (mk ` {c..<c + k})"
  using assms(1)
proof (induction k arbitrary: c)
  case 0
  have "create_channel_interfaces create dir 0 c = (\<lambda>d. Inr (0, d))" by (rule ext) simp
  then show ?case by (simp add: creates_skip)
next
  case (Suc k)
  let ?f = "\<lambda>d. case d_engine (dv d) c (if dir then 0 else 1) of None \<Rightarrow> Inr (0, d) | Some n \<Rightarrow> create n c dir d"
  have 1: "creates ?f {mk c}"
    unfolding creates_def
  proof (intro allI impI)
    fix a d rc d'
    assume i: "ifaces_ok a d" "\<forall>s\<in>{mk c}. slot_of (dv d) s = None" and r: "?f d = Inr (rc, d')"
    have "creates (create n c dir) {mk c}" for n using assms(2) Suc.prems by simp
    from createsD [OF this i] i(1) r show "ifaces_ok a d' \<and> (\<forall>s. s \<notin> {mk c} \<longrightarrow> slot_of (dv d') s = slot_of (dv d) s)"
      by (cases "d_engine (dv d) c (if dir then 0 else 1)") simp_all
  qed
  have 2: "creates (create_channel_interfaces create dir k (Suc c)) (mk ` {Suc c..<Suc c + k})" by (rule Suc.IH) (use Suc.prems in simp)
  have eq: "create_channel_interfaces create dir (Suc k) c = (\<lambda>d. then_ok (?f d) (create_channel_interfaces create dir k (Suc c)))"
    by (rule ext) (simp add: then_ok_def)
  have "{c..<c + Suc k} = insert c {Suc c..<Suc c + k}" by auto
  then have s: "mk ` {c..<c + Suc k} = {mk c} \<union> mk ` {Suc c..<Suc c + k}" by simp
  show ?case unfolding eq s by (rule creates_then [OF 1 2]) (use assms(3) in \<open>auto dest: injD\<close>)
qed

lemma create_engines_creates:
  "creates (create_channel_interfaces create_engine_interface dir XDMA_CHANNEL_NUM_MAX 0)
     ((\<lambda>c. Sgdma_char c (if dir then 0 else 1)) ` {0..<0 + XDMA_CHANNEL_NUM_MAX})"
proof (rule create_channels_creates)
  show "creates (create_engine_interface n c dir) {Sgdma_char c (if dir then 0 else 1)}" if "c < XDMA_CHANNEL_NUM_MAX" for n c
    using create_slot_creates [of "Sgdma_char c (if dir then 0 else 1)" "\<lambda>_. - 1"] that by (simp add: create_engine_interface_def)
qed (auto simp: inj_def)

lemma create_bypasses_creates:
  "creates (create_bypass_interfaces dir) ((\<lambda>c. Bypass_char c (if dir then 0 else 1)) ` {0..<0 + XDMA_CHANNEL_NUM_MAX})"
proof -
  have "creates (create_channel_interfaces create_bypass_interface dir XDMA_CHANNEL_NUM_MAX 0)
     ((\<lambda>c. Bypass_char c (if dir then 0 else 1)) ` {0..<0 + XDMA_CHANNEL_NUM_MAX})"
  proof (rule create_channels_creates)
    show "creates (create_bypass_interface n c dir) {Bypass_char c (if dir then 0 else 1)}" if "c < XDMA_CHANNEL_NUM_MAX" for n c
      using create_slot_creates [of "Bypass_char c (if dir then 0 else 1)" "\<lambda>d. d_bypass_bar_idx (dv d)"] that
      by (simp add: create_bypass_interface_def [abs_def])
  qed (auto simp: inj_def)
  then show ?thesis unfolding create_bypass_interfaces_def [abs_def] by (intro creates_if creates_skip)
qed

lemma create_base_creates: "creates create_bypass_base {Bypass_base_char}"
  unfolding create_bypass_base_def [abs_def] by (intro creates_if creates_null creates_ignore create_slot_creates) simp

lemma create_all_creates: "creates create_all UNIV"
proof -
  let ?s = "\<lambda>dir. (\<lambda>c. Sgdma_char c (if dir then 0 else 1)) ` {0..<0 + XDMA_CHANNEL_NUM_MAX}"
  let ?b = "\<lambda>dir. (\<lambda>c. Bypass_char c (if dir then 0 else 1)) ` {0..<0 + XDMA_CHANNEL_NUM_MAX}"
  have u: "creates create_user_interface {User_char}"
    unfolding create_user_interface_def [abs_def] by (intro creates_if creates_null create_slot_creates) simp
  have c: "creates (\<lambda>d. create_slot Ctrl_char (d_config_bar_idx (dv d)) None CHAR_CTRL d) {Ctrl_char}"
    by (rule create_slot_creates) simp
  have e: "creates (\<lambda>d. bindr (create_event_interfaces MAX_USER_IRQ 0 d) (\<lambda>d. Inr (0, d))) (Events_char ` {0..<0 + MAX_USER_IRQ})"
    by (rule create_events_creates) simp
  have "creates create_all ({User_char} \<union> ({Ctrl_char} \<union> (Events_char ` {0..<0 + MAX_USER_IRQ} \<union> (?s True \<union> (?s False
      \<union> (?b True \<union> (?b False \<union> {Bypass_base_char})))))))"
    unfolding create_all_def [abs_def]
    by (rule creates_then [OF u] creates_then [OF c] creates_then [OF e] creates_then [OF create_engines_creates]
        creates_then [OF create_bypasses_creates] create_base_creates | force)+
  then show ?thesis by (rule creates_mono) simp
qed

subsection \<open>Destroying them\<close>

lemma destroy_char_eq:
  assumes "chars d n = Some c" "g_xdma_class d" "c_sys_device c"
  shows "\<exists>w. destroy_sg_char n d = Inr (d\<lparr>chars := (chars d)(n := None), dwld := w\<rparr>)
    \<and> (\<forall>x. tracked x \<longrightarrow> balance w x = balance (dwld d) x - char_held (Some c) x)"
  using assms
  by (auto simp: destroy_sg_char_def char_at_def free_char_def dcall0_eq upd_dwld_def balance_call tracked_def char_held_def)

lemma heap_held_gone:
  assumes "n < next_obj d" "next_obj d' = next_obj d"
    "\<And>m. m \<noteq> n \<Longrightarrow> line_held (engs d' m) x + char_held (chars d' m) x = line_held (engs d m) x + char_held (chars d m) x"
  shows "heap_held d' x = heap_held d x - (line_held (engs d n) x + char_held (chars d n) x)
    + (line_held (engs d' n) x + char_held (chars d' n) x)"
proof -
  have f: "finite {..<next_obj d}" "n \<in> {..<next_obj d}" using assms(1) by simp_all
  have "(\<Sum>m\<in>{..<next_obj d} - {n}. line_held (engs d' m) x + char_held (chars d' m) x)
      = (\<Sum>m\<in>{..<next_obj d} - {n}. line_held (engs d m) x + char_held (chars d m) x)"
    by (rule sum.cong) (use assms(3) in auto)
  then show ?thesis by (simp add: heap_held_def assms(2) sum.remove [OF f])
qed

lemma destroy_slots_ok:
  assumes "distinct ss" "fresh d" "g_xdma_class d"
    "\<forall>s\<in>set ss. \<forall>n. slot_of (dv d) s = Some n \<longrightarrow> (\<exists>c. chars d n = Some c \<and> c_sys_device c)"
    "\<forall>s\<in>set ss. \<forall>s'\<in>set ss. \<forall>n. slot_of (dv d) s = Some n \<longrightarrow> slot_of (dv d) s' = Some n \<longrightarrow> s' = s"
  shows "\<exists>h w. destroy_slots ss d = Inr (d\<lparr>chars := h, dwld := w\<rparr>)
    \<and> (\<forall>n. h n = (if \<exists>s\<in>set ss. slot_of (dv d) s = Some n then None else chars d n))
    \<and> (\<forall>x. tracked x \<longrightarrow> balance w x - heap_held (d\<lparr>chars := h, dwld := w\<rparr>) x = balance (dwld d) x - heap_held d x)"
  using assms
proof (induction ss arbitrary: d)
  case Nil
  show ?case by (rule exI [of _ "chars d"], rule exI [of _ "dwld d"]) simp
next
  case (Cons s ss)
  show ?case
  proof (cases "slot_of (dv d) s")
    case None
    have "\<exists>h w. destroy_slots ss d = Inr (d\<lparr>chars := h, dwld := w\<rparr>)
      \<and> (\<forall>n. h n = (if \<exists>s\<in>set ss. slot_of (dv d) s = Some n then None else chars d n))
      \<and> (\<forall>x. tracked x \<longrightarrow> balance w x - heap_held (d\<lparr>chars := h, dwld := w\<rparr>) x = balance (dwld d) x - heap_held d x)"
      by (rule Cons.IH) (use Cons.prems in auto)
    then show ?thesis using None by (simp add: destroy_slot_def)
  next
    case (Some n)
    then obtain c where c: "chars d n = Some c" "c_sys_device c" using Cons.prems(4) by auto
    obtain w where w: "destroy_sg_char n d = Inr (d\<lparr>chars := (chars d)(n := None), dwld := w\<rparr>)"
      "\<forall>x. tracked x \<longrightarrow> balance w x = balance (dwld d) x - char_held (Some c) x"
      using destroy_char_eq [OF c(1) Cons.prems(3) c(2)] by blast
    let ?d = "d\<lparr>chars := (chars d)(n := None), dwld := w\<rparr>"
    have n: "n < next_obj d" using c(1) Cons.prems(2) unfolding fresh_def by (metis linorder_not_less option.distinct(1))
    have other: "slot_of (dv d) t \<noteq> Some n" if "t \<in> set ss" for t
      using Cons.prems(1,5) Some that by (metis distinct.simps(2) list.set_intros)
    have h1: "heap_held ?d x = heap_held d x - char_held (Some c) x" for x
      using heap_held_gone [of n d ?d x] n c(1) by simp
    have "\<exists>h w'. destroy_slots ss ?d = Inr (?d\<lparr>chars := h, dwld := w'\<rparr>)
      \<and> (\<forall>m. h m = (if \<exists>s\<in>set ss. slot_of (dv ?d) s = Some m then None else chars ?d m))
      \<and> (\<forall>x. tracked x \<longrightarrow> balance w' x - heap_held (?d\<lparr>chars := h, dwld := w'\<rparr>) x = balance (dwld ?d) x - heap_held ?d x)"
    proof (rule Cons.IH)
      show "fresh ?d" using Cons.prems(2) by (simp add: fresh_def)
      show "\<forall>s\<in>set ss. \<forall>m. slot_of (dv ?d) s = Some m \<longrightarrow> (\<exists>c. chars ?d m = Some c \<and> c_sys_device c)"
        using Cons.prems(4) other by auto
    qed (use Cons.prems in auto)
    then obtain h w' where r: "destroy_slots ss ?d = Inr (d\<lparr>chars := h, dwld := w'\<rparr>)"
      "\<forall>m. h m = (if \<exists>s\<in>set ss. slot_of (dv d) s = Some m then None else if m = n then None else chars d m)"
      "\<forall>x. tracked x \<longrightarrow> balance w' x - heap_held (d\<lparr>chars := h, dwld := w'\<rparr>) x = balance w x - heap_held ?d x"
      by auto
    have "destroy_slots (s # ss) d = Inr (d\<lparr>chars := h, dwld := w'\<rparr>)" using Some w(1) r(1) by (simp add: destroy_slot_def)
    moreover have "\<forall>m. h m = (if \<exists>t\<in>set (s # ss). slot_of (dv d) t = Some m then None else chars d m)"
      using r(2) Some by auto
    moreover have "\<forall>x. tracked x \<longrightarrow> balance w' x - heap_held (d\<lparr>chars := h, dwld := w'\<rparr>) x = balance (dwld d) x - heap_held d x"
      using r(3) w(2) h1 by simp
    ultimately show ?thesis by blast
  qed
qed

lemma distinct_all_slots: "distinct all_slots"
  by code_simp

text \<open>The interfaces are gone and the heap is as it was, whatever happened in the world since.\<close>

lemma destroy_interfaces_ok:
  assumes "ifaces_ok a d" "fresh a"
  shows "\<exists>w. destroy_interfaces (d\<lparr>dwld := w0\<rparr>) = Inr (d\<lparr>chars := chars a, dwld := w\<rparr>)
    \<and> (\<forall>x. tracked x \<longrightarrow> balance w x - heap_held (d\<lparr>chars := chars a, dwld := w\<rparr>) x = balance w0 x - heap_held d x)"
proof -
  let ?d = "d\<lparr>dwld := w0\<rparr>"
  have "fresh ?d = fresh d" "slots_live ?d = slots_live d" by (simp_all add: fresh_def slots_live_def)
  then have i: "fresh ?d" "g_xdma_class ?d" "slots_live ?d" using assms(1) by (simp_all add: ifaces_ok_def)
  obtain h w where r: "destroy_slots all_slots ?d = Inr (?d\<lparr>chars := h, dwld := w\<rparr>)"
    "\<forall>n. h n = (if \<exists>s\<in>set all_slots. slot_of (dv ?d) s = Some n then None else chars ?d n)"
    "\<forall>x. tracked x \<longrightarrow> balance w x - heap_held (?d\<lparr>chars := h, dwld := w\<rparr>) x = balance (dwld ?d) x - heap_held ?d x"
    using destroy_slots_ok [OF distinct_all_slots i(1,2)] i(3) unfolding slots_live_def by blast
  have "h n = chars a n" for n
  proof (cases "next_obj a \<le> n")
    case True
    then have "chars a n = None" using assms(2) by (simp add: fresh_def)
    moreover have "chars d n \<noteq> None \<longrightarrow> (\<exists>s\<in>set all_slots. slot_of (dv d) s = Some n)"
      using assms(1) True unfolding ifaces_ok_def slots_live_def by blast
    ultimately show ?thesis using r(2) by auto
  next
    case False
    then have "slot_of (dv d) s \<noteq> Some n" for s using assms(1) unfolding ifaces_ok_def by blast
    moreover have "chars d n = chars a n" using assms(1) False unfolding ifaces_ok_def by simp
    ultimately show ?thesis using r(2) by simp
  qed
  then have "h = chars a" by blast
  moreover have "heap_held ?d x = heap_held d x" for x by (simp add: heap_held_def)
  ultimately show ?thesis using r(1,3) unfolding destroy_interfaces_def by (intro exI [of _ w]) simp
qed

subsection \<open>The engines and their lines\<close>

text \<open>A step on engine \<open>n\<close> changes the balances by what its line changes.\<close>

definition accounts :: "nat \<Rightarrow> device \<Rightarrow> device \<Rightarrow> bool" where
  "accounts n d d' \<longleftrightarrow> chars d' = chars d \<and> g_xdma_class d' = g_xdma_class d \<and> pci d' = pci d \<and> dev_present d' = dev_present d
     \<and> (\<forall>x. tracked x \<longrightarrow> balance (dwld d') x - line_held (engs d' n) x = balance (dwld d) x - line_held (engs d n) x)"

lemma accounts_refl [simp, intro]: "accounts n d d"
  by (simp add: accounts_def)

lemma accounts_trans: "accounts n a b \<Longrightarrow> accounts n b c \<Longrightarrow> accounts n a c"
  by (simp add: accounts_def)

lemma msix_setup_account:
  assumes "engine_msix_setup n d = Inr (rc, d')" "engs d n = Some e" "e_msix_irq_line e = 0"
  shows "accounts n d d'"
proof -
  from assms(1) obtain v where
    v: "d' = (let u = upd_dwld (emit (Call (Request_irq v))) d in if rc \<noteq> 0 then u else upd_engine n (e_msix_irq_line_update (\<lambda>_. v)) u)"
      "rc = w_kern (dwld d) (w_log (dwld d)) (Request_irq v)"
    by (auto simp: engine_msix_setup_def bindr_eq_Inr dcall_eq Let_def)
  show ?thesis
    using assms(2,3) by (cases "rc = 0") (simp_all add: v accounts_def Let_def balance_call line_held_def tracked_def upd_engine_def)
qed

lemma writeback_setup_account:
  assumes "engine_writeback_setup n d = Inr (rc, d')" "engs d n = Some e"
  shows "accounts n d d'"
  using assms
  by (auto simp: engine_writeback_setup_def engine_at_def dcall_eq dwrite_eq accounts_def Let_def balance_call line_held_def
      upd_engine_def split: if_splits)

lemma free_engine_account:
  assumes "engine_msix_teardown n d = Inr d'" "engs d n = Some e"
  shows "accounts n d (free_engine n d')"
  using assms
  by (auto simp: engine_msix_teardown_def engine_at_def free_engine_def dcall0_eq accounts_def balance_call line_held_def tracked_def
      split: if_splits)

lemma alignments_account:
  assumes "with_engine n (\<lambda>s. Inr ((), engine_alignments (write_reg v (e_regs (eng s) + a) s))) d = Inr ((), d')"
  shows "accounts n d d'"
proof -
  have l: "e_msix_irq_line (eng (engine_alignments s)) = e_msix_irq_line (eng s)" "balance (wld (engine_alignments s)) x = balance (wld s) x"
    for s x by (simp_all add: engine_alignments_def Let_def split_beta balance_register)
  have w: "balance (wld (write_reg v a s)) x = balance (wld s) x" for v a s x by (simp add: write_reg_def)
  from assms obtain e cfg where e: "engs d n = Some e" "config_ptr d = Inr cfg"
    by (auto simp: with_engine_def engine_at_def bindr_eq_Inr split: option.splits)
  define s where "s = \<lparr>eng = e, xfers = dev_xfers d, next_xfer = dev_next_xfer d, wld = dwld d,
     par = (dpar d)\<lparr>msix_enabled := d_msix_enabled (dv d), config_bar := cfg\<rparr>\<rparr>"
  define u where "u = engine_alignments (write_reg v (e_regs e + a) s)"
  have d': "d' = d\<lparr>engs := (engs d)(n \<mapsto> eng u), dev_xfers := xfers u, dev_next_xfer := next_xfer u, dwld := wld u\<rparr>"
    using assms e by (simp add: with_engine_def engine_at_def s_def u_def)
  have "e_msix_irq_line (eng u) = e_msix_irq_line e" "balance (wld u) x = balance (dwld d) x" for x
    unfolding u_def l w by (simp_all add: s_def)
  then show ?thesis using e by (simp add: d' accounts_def line_held_def)
qed

lemma configure_account:
  assumes run: "engine_configure n d = Inr (r, d')" and e: "engs d n = Some e" "e_rx_transfer_cyclic e = None"
  shows "accounts n d d'"
proof -
  obtain rc d1 where wb: "(if poll_mode (dpar d) then engine_writeback_setup n d else Inr (0, d)) = Inr (rc, d1)" "engine_only n d d1"
    using writeback_setup_ok [OF e(1)] engine_only_refl [OF e(1)] by (cases "poll_mode (dpar d)") auto
  have a1: "accounts n d d1"
    using wb(1) writeback_setup_account [OF _ e(1)] by (cases "poll_mode (dpar d)") auto
  obtain e1 where e1: "engs d1 n = Some e1" using wb(2) by (auto simp: engine_only_def)
  show ?thesis
  proof (cases "rc = 0")
    case True
    let ?v = "create_interrupts (poll_mode (dpar d1)) (e_streaming e) (e_dir_to_dev e)"
    have "d' = dwrite ?v (e_regs e + er R_interrupt_enable_mask) d1"
      using run True wb e by (simp add: engine_configure_def engine_at_def Let_def del: er_offsets)
    moreover have "accounts n d1 (dwrite ?v a d1)" for a by (simp add: dwrite_eq accounts_def balance_register)
    ultimately show ?thesis using a1 accounts_trans by blast
  next
    case False
    then obtain d2 where "engine_msix_teardown n d1 = Inr d2" "d' = free_engine n d2"
      using run wb e by (auto simp: engine_configure_def engine_at_def bindr_eq_Inr)
    then show ?thesis using a1 accounts_trans free_engine_account e1 by blast
  qed
qed

lemma setup_account:
  assumes run: "engine_setup n d = Inr (r, d')" and e: "engs d n = Some e" "e_rx_transfer_cyclic e = None" "e_msix_irq_line e = 0"
    and cfg: "config_ptr d = Inr cfg" and len: "nat (d_engines_num (dv d)) + MAX_USER_IRQ < length (d_entry (dv d))"
  shows "accounts n d d'"
proof -
  obtain rc d1 where m: "(if d_msix_enabled (dv d) then engine_msix_setup n d else Inr (0, d)) = Inr (rc, d1)" "engine_only n d d1"
    using msix_setup_ok [OF e(1) len] engine_only_refl [OF e(1)] by (cases "d_msix_enabled (dv d)") auto
  have a1: "accounts n d d1"
    using m(1) msix_setup_account [OF _ e(1,3)] by (cases "d_msix_enabled (dv d)") auto
  from m(2) e(1) obtain e1 where e1: "engs d1 n = Some e1" "engine_core e1 = engine_core e"
    and k1: "but_engines d1 = but_engines d" by (auto simp: engine_only_def)
  note k1 = but_enginesD [OF k1]
  show ?thesis
  proof (cases "rc = 0")
    case False
    then have d': "d' = free_engine n d1" using run m by (simp add: engine_setup_def)
    have "engs d1 n = Some e"
      using False m(1) e(1) by (auto simp: engine_msix_setup_def bindr_eq_Inr dcall_eq Let_def split: if_splits)
    then have "engine_msix_teardown n d1 = Inr d1" using e(3) by (simp add: engine_msix_teardown_def engine_at_def)
    from free_engine_account [OF this e1(1)] show ?thesis using a1 accounts_trans d' by blast
  next
    case True
    let ?d1 = "upd_dv (d_engines_num_update (\<lambda>k. k + 1)) d1"
    have c1: "config_ptr ?d1 = Inr cfg" using cfg k1 config_ptr_cong [of d1 d] by simp
    obtain d2 where a: "with_engine n (\<lambda>s. Inr ((), engine_alignments
        (write_reg XDMA_CTRL_NON_INCR_ADDR (e_regs (eng s) + er R_control_w1c) s))) ?d1 = Inr ((), d2)"
      and o2: "engine_only n ?d1 d2"
      using alignments_ok [of ?d1 n e1 cfg] e1 c1 by (auto simp del: er_offsets)
    from o2 e1 obtain e2 where e2: "engs d2 n = Some e2" "engine_core e2 = engine_core e" by (auto simp: engine_only_def)
    have rx: "e_rx_transfer_cyclic e2 = None" using arg_cong [OF e2(2), of e_rx_transfer_cyclic] e(2) by simp
    have "engine_configure n d2 = Inr (r, d')" using run True m(1) a by (simp add: engine_setup_def del: er_offsets)
    from configure_account [OF this e2(1) rx] alignments_account [OF a] a1 show ?thesis
      by (simp add: accounts_def)
  qed
qed

lemma engine_create_account:
  assumes run: "engine_create off dir ch d = Inr (r, d')" and f: "fresh d" and cfg: "config_ptr d = Inr cfg"
    and num: "0 \<le> d_engines_num (dv d)" "d_engines_num (dv d) < 16" and len: "length (d_entry (dv d)) = 32"
  shows "accounts (next_obj d) d d'"
proof -
  define p where "p = w_kern (dwld d) (w_log (dwld d)) (Kzalloc 4)"
  define d1 where "d1 = upd_dwld (emit (Call (Kzalloc 4))) d"
  have p: "dcall (Kzalloc 4) d = (p, d1)" by (simp add: dcall_eq p_def d1_def)
  have a1: "accounts n d d1" for n by (simp add: d1_def accounts_def balance_call)
  show ?thesis
  proof (cases "p = 0")
    case True
    then show ?thesis using run a1 by (simp add: engine_create_def p)
  next
    case False
    obtain ty w where ty: "get_engine_type (cfg + off) (dwld d1) = (ty, w)" by fastforce
    have bw: "balance w x = balance (dwld d1) x" for x
      using ty by (auto simp: get_engine_type_def read_register_def balance_emit event_gain_def)
    let ?e = "(new_engine cfg off dir ch (d_engines_num (dv d)))\<lparr>e_streaming := ty \<noteq> 0\<rparr>"
    let ?d2 = "d1\<lparr>engs := (engs d)(next_obj d \<mapsto> ?e), next_obj := Suc (next_obj d), dwld := w\<rparr>"
    have run2: "engine_setup (next_obj d) ?d2 = Inr (r, d')"
    proof -
      have "config_ptr d1 = Inr cfg" "next_obj d1 = next_obj d" "engs d1 = engs d" "dv d1 = dv d"
        using cfg by (simp_all add: d1_def)
      then show ?thesis using run False by (simp add: engine_create_def p ty Let_def)
    qed
    have l: "e_msix_irq_line ?e = 0" "e_rx_transfer_cyclic ?e = None" by (simp_all add: new_engine_def zero_engine_def)
    have a2: "accounts (next_obj d) d ?d2"
      using a1 [of "next_obj d"] bw f l(1) by (simp add: accounts_def line_held_def fresh_def d1_def balance_call)
    have "accounts (next_obj d) ?d2 d'"
      by (rule setup_account [OF run2, of ?e cfg]) (use l cfg num len in \<open>simp_all add: d1_def MAX_USER_IRQ_def\<close>)
    with a2 show ?thesis using accounts_trans by blast
  qed
qed

lemma engine_destroy_account:
  assumes run: "engine_destroy n d = Inr d'" and e: "engs d n = Some e"
  shows "accounts n d d' \<and> next_obj d' = next_obj d \<and> dpar d' = dpar d \<and> dv d' = (dv d)\<lparr>d_engines_num := d_engines_num (dv d) - 1\<rparr>
    \<and> engs d' = (engs d)(n := None)"
  using assms
  by (auto simp: engine_destroy_def engine_at_def engine_msix_teardown_def engine_writeback_teardown_def dwrite_eq dcall0_eq
      free_engine_def accounts_def balance_call line_held_def tracked_def bindr_eq_Inr split: if_splits)

text \<open>What holds while the engines of the board \<open>a\<close> are probed.\<close>

definition engines_ok :: "iomem \<Rightarrow> device \<Rightarrow> device \<Rightarrow> bool" where
  "engines_ok cfg a d \<longleftrightarrow> probed cfg d \<and> fresh d \<and> next_obj a \<le> next_obj d \<and> chars d = chars a \<and> dpar d = dpar a \<and> pci d = pci a
     \<and> g_xdma_class d = g_xdma_class a \<and> dev_present d = dev_present a
     \<and> (\<exists>T k. dv d = (dv a)\<lparr>d_engine := T, d_engines_num := k\<rparr>)
     \<and> (\<forall>n<next_obj a. engs d n = engs a n)
     \<and> (\<forall>n\<ge>next_obj a. engs d n \<noteq> None \<longrightarrow> (\<exists>c dir. d_engine (dv d) c dir = Some n))
     \<and> (\<forall>c dir n. d_engine (dv d) c dir = Some n \<longrightarrow> next_obj a \<le> n)
     \<and> (\<forall>x. tracked x \<longrightarrow> balance (dwld d) x - heap_held d x = balance (dwld a) x - heap_held a x)"

lemma engines_okD:
  assumes "engines_ok cfg a d"
  shows "\<And>n. next_obj a \<le> n \<Longrightarrow> engs d n \<noteq> None \<Longrightarrow> \<exists>c dir. d_engine (dv d) c dir = Some n"
    "\<And>c dir n. d_engine (dv d) c dir = Some n \<Longrightarrow> next_obj a \<le> n"
    "\<And>n. n < next_obj a \<Longrightarrow> engs d n = engs a n" "\<exists>T k. dv d = (dv a)\<lparr>d_engine := T, d_engines_num := k\<rparr>"
  using assms unfolding engines_ok_def by blast+

lemma heap_held_engine:
  assumes "fresh d" "next_obj d \<le> next_obj d'" "next_obj d' \<le> Suc (next_obj d)" "chars d' = chars d"
    "engs d' = engs d \<or> next_obj d' = Suc (next_obj d) \<and> engs d' = (engs d)(next_obj d := q)"
  shows "heap_held d' x = heap_held d x + line_held (engs d' (next_obj d)) x"
proof -
  have s: "(\<Sum>n<next_obj d. line_held (engs d' n) x + char_held (chars d' n) x) = heap_held d x"
    unfolding heap_held_def by (rule sum.cong) (use assms(4,5) in auto)
  have c: "chars d (next_obj d) = None" "engs d (next_obj d) = None" using assms(1) by (simp_all add: fresh_def)
  consider "next_obj d' = next_obj d" | "next_obj d' = Suc (next_obj d)" using assms(2,3) by linarith
  then show ?thesis
  proof cases
    case 1
    then have "engs d' (next_obj d) = None" using assms(5) c by auto
    then show ?thesis using 1 s by (simp add: heap_held_def)
  next
    case 2
    then show ?thesis using s c assms(4) by (simp add: heap_held_def)
  qed
qed

lemma engines_ok_world:
  assumes "engines_ok cfg a d" "\<And>x. balance w x = balance (dwld d) x"
  shows "engines_ok cfg a (d\<lparr>dwld := w\<rparr>)"
proof -
  have "fresh (d\<lparr>dwld := w\<rparr>) = fresh d" "heap_held (d\<lparr>dwld := w\<rparr>) x = heap_held d x" for x
    by (simp_all add: fresh_def heap_held_def)
  then show ?thesis using assms probed_world [of cfg d w] by (simp add: engines_ok_def)
qed

lemma probe_for_engine_stage:
  assumes inv: "engines_ok cfg a d" and num: "d_engines_num (dv d) < 16" and free: "d_engine (dv d) c (if dir then 0 else 1) = None"
    and run: "probe_for_engine dir c d = Inr (rc, d')"
  shows "engines_ok cfg a d'"
proof -
  let ?i = "if dir then 0 else 1 :: nat"
  have p: "probed cfg d" using inv by (simp add: engines_ok_def)
  then have cfg: "config_ptr d = Inr cfg" "length (d_entry (dv d)) = 32" "0 \<le> d_engines_num (dv d)" "engs d (next_obj d) = None"
    by (simp_all add: probed_def)
  obtain v w where g: "get_engine_id (cfg + channel_offset dir c) (dwld d) = (v, w)" by fastforce
  obtain v' w' where g': "get_engine_channel_id (cfg + channel_offset dir c) w = (v', w')" by fastforce
  have bw: "balance w' x = balance (dwld d) x" for x
    using g g' by (auto simp: get_engine_id_def get_engine_channel_id_def read_register_def balance_emit event_gain_def)
  let ?d = "d\<lparr>dwld := w'\<rparr>"
  have inv1: "engines_ok cfg a ?d" by (rule engines_ok_world [OF inv bw])
  have pr: "probed cfg d'"
    using probe_for_engine_ok [OF p num free] run by auto
  show ?thesis
  proof (cases "v \<noteq> (if dir then XDMA_ID_H2C else XDMA_ID_C2H) \<or> unat v' \<noteq> c")
    case True
    then have "probe_for_engine dir c d = Inr (0, ?d)" by (auto simp: probe_for_engine_def cfg g g' Let_def)
    then show ?thesis using inv1 run by simp
  next
    case False
    then have nv: "v = (if dir then XDMA_ID_H2C else XDMA_ID_C2H)" "unat v' = c" by auto
    have "probe_for_engine dir c d = bindr (engine_create (channel_offset dir c) dir c ?d) (\<lambda>(r, d).
               Inr (if r = None then - 1 else 0, set_engine c ?i r d))"
      unfolding probe_for_engine_def cfg bindr_Inr Let_def g g' prod.case using nv by simp
    with run obtain r d1 where c: "engine_create (channel_offset dir c) dir c ?d = Inr (r, d1)" and d': "d' = set_engine c ?i r d1"
      by (auto simp: bindr_eq_Inr)
    have aa: "config_ptr ?d = Inr cfg" "0 \<le> d_engines_num (dv ?d)" "d_engines_num (dv ?d) < 16" "length (d_entry (dv ?d)) = 32"
        "engs ?d (next_obj ?d) = None" "fresh ?d"
      using cfg num inv1 by (simp_all add: engines_ok_def)
    have acc: "accounts (next_obj d) ?d d1" using engine_create_account [OF c aa(6,1,2,3,4)] by simp
    obtain k where ok: "next_obj ?d \<le> next_obj d1" "next_obj d1 \<le> next_obj ?d + 1"
        "dv d1 = (dv ?d)\<lparr>d_engines_num := d_engines_num (dv ?d) + of_bool k\<rparr>" "dpar d1 = dpar ?d"
        "case r of None \<Rightarrow> engs d1 = engs ?d | Some n \<Rightarrow> k \<and> n = next_obj ?d \<and> next_obj d1 = n + 1 \<and>
           (\<exists>e. engs d1 = (engs ?d)(n \<mapsto> e) \<and> engine_core e = new_engine cfg (channel_offset dir c) dir c (d_engines_num (dv ?d)))"
      using engine_create_ok [OF aa(1-5), of "channel_offset dir c" dir c] c by auto
    obtain q where e: "engs d1 = engs d \<or> next_obj d1 = Suc (next_obj d) \<and> engs d1 = (engs d)(next_obj d := q)"
      using ok(5) by (cases r) auto
    have fd: "\<forall>n\<ge>next_obj d. engs d n = None \<and> chars d n = None"
      using inv unfolding engines_ok_def fresh_def by blast
    have "chars d1 = chars d" using acc by (simp add: accounts_def)
    then have fr: "fresh d1" using e ok(1) fd by (auto simp: fresh_def)
    have h: "heap_held d1 x = heap_held d x + line_held (engs d1 (next_obj d)) x" for x
      by (rule heap_held_engine [where q = q]) (use inv ok acc e in \<open>auto simp: engines_ok_def accounts_def\<close>)
    have net: "balance (dwld d1) x - heap_held d1 x = balance (dwld a) x - heap_held a x" if "tracked x" for x
    proof -
      have "balance (dwld d1) x - line_held (engs d1 (next_obj d)) x = balance (dwld d) x"
        using acc that bw [of x] cfg(4) by (simp add: accounts_def)
      moreover have "balance (dwld d) x - heap_held d x = balance (dwld a) x - heap_held a x"
        using inv that unfolding engines_ok_def by blast
      ultimately show ?thesis using h [of x] by linarith
    qed
    have le: "next_obj a \<le> next_obj d" using inv by (simp add: engines_ok_def)
    have t: "d_engine (dv d') = (d_engine (dv d))(c := (d_engine (dv d) c)(?i := r))" using ok(3) by (simp add: d')
    have new: "\<exists>c dir. d_engine (dv d') c dir = Some n" if "next_obj a \<le> n" "engs d' n \<noteq> None" for n
    proof (cases "r = Some n")
      case True
      then show ?thesis using t by (metis fun_upd_same)
    next
      case False
      then have "engs d n \<noteq> None" using that(2) e ok(5) by (cases r) (auto simp: d' split: if_splits)
      from engines_okD(1) [OF inv that(1) this] obtain c1 dir1 where "d_engine (dv d) c1 dir1 = Some n" by blast
      moreover from this free have "(c1, dir1) \<noteq> (c, ?i)" by (metis Pair_inject option.distinct(1))
      ultimately show ?thesis unfolding t by (metis fun_upd_apply)
    qed
    have from_a: "next_obj a \<le> n" if "d_engine (dv d') c1 dir1 = Some n" for c1 dir1 n
    proof (cases "c1 = c \<and> dir1 = ?i")
      case True
      then have "r = Some n" using that t by simp
      then show ?thesis using ok(5) le by simp
    next
      case False
      then have "d_engine (dv d) c1 dir1 = Some n" using that unfolding t by (auto split: if_splits)
      then show ?thesis by (rule engines_okD(2) [OF inv])
    qed
    obtain T m where T: "dv d = (dv a)\<lparr>d_engine := T, d_engines_num := m\<rparr>" using engines_okD(4) [OF inv] by blast
    have dvd: "dv d' = (dv a)\<lparr>d_engine := T(c := (T c)(?i := r)), d_engines_num := m + of_bool k\<rparr>"
      using ok(3) T by (simp add: d' set_engine_def upd_dv_def)
    have ch: "chars d' = chars d1" by (simp add: d' set_engine_def)
    have same: "heap_held d' x = heap_held d1 x" "fresh d' = fresh d1" "next_obj d' = next_obj d1" "dwld d' = dwld d1" for x
      by (simp_all add: d' heap_held_def fresh_def) (simp_all add: set_engine_def)
    have io: "chars d' = chars a" "dpar d' = dpar a" "pci d' = pci a" "g_xdma_class d' = g_xdma_class a" "dev_present d' = dev_present a"
      using acc inv ok(4) by (simp_all add: ch) (simp_all add: d' set_engine_def accounts_def engines_ok_def)
    have le': "next_obj a \<le> next_obj d'" using le ok(1) same(3) by simp
    have keep: "\<forall>n<next_obj a. engs d' n = engs a n"
    proof (intro allI impI)
      fix n assume "n < next_obj a"
      then show "engs d' n = engs a n" using engines_okD(3) [OF inv, of n] e le by (auto simp: d')
    qed
    show ?thesis
      unfolding engines_ok_def using pr fr le' io keep new from_a net dvd unfolding same
      by (intro conjI exI [of _ "T(c := (T c)(?i := r))"] exI [of _ "m + of_bool k"]) blast+
  qed
qed

lemma probe_channels_stage:
  assumes "engines_ok cfg a d" "d_engines_num (dv d) + int k < 16" "\<forall>c'\<ge>c. d_engine (dv d) c' (if dir then 0 else 1) = None"
    "probe_channels dir k c d = Inr (rc, d')"
  shows "engines_ok cfg a d'"
  using assms
proof (induction k arbitrary: c d)
  case (Suc k)
  let ?i = "if dir then 0 else 1 :: nat"
  have p: "probed cfg d" using Suc.prems(1) by (simp add: engines_ok_def)
  obtain rc1 d1 r where
    a: "probe_for_engine dir c d = Inr (rc1, d1)" "d_engines_num (dv d1) \<le> d_engines_num (dv d) + 1"
       "d_engine (dv d1) = (d_engine (dv d))(c := (d_engine (dv d) c)(?i := r))"
    using probe_for_engine_ok [OF p, of c dir] Suc.prems(2,3) by fastforce
  have "d_engine (dv d) c ?i = None" using Suc.prems(3) by simp
  then have o: "engines_ok cfg a d1" using probe_for_engine_stage [OF Suc.prems(1) _ _ a(1)] Suc.prems(2) by simp
  show ?case
  proof (cases "rc1 = 0")
    case True
    have n: "\<forall>c'\<ge>Suc c. d_engine (dv d1) c' ?i = None" using a(3) Suc.prems(3) by auto
    have "d_engines_num (dv d1) + int k < 16" using a(2) Suc.prems(2) by simp
    from Suc.IH [OF o this n] show ?thesis using Suc.prems(4) a(1) True by simp
  next
    case False
    then show ?thesis using Suc.prems(4) a(1) o by simp
  qed
qed simp

lemma probe_engines_stage:
  assumes "config_ptr a = Inr cfg" "d_engine (dv a) = (\<lambda>_ _. None)" "d_engines_num (dv a) = 0" "length (d_entry (dv a)) = 32"
    "fresh a" "probe_engines a = Inr (0, d)"
  shows "engines_ok cfg a d \<and> (\<forall>c dir n. d_engine (dv d) c dir = Some n \<longrightarrow> c < 4)"
proof -
  have p: "probed cfg a" using assms by (auto simp: probed_def slots_ok_def fresh_def)
  have o: "engines_ok cfg a a"
    unfolding engines_ok_def using p assms(2,3,5) by (auto simp: fresh_def intro!: exI [of _ "d_engine (dv a)"] exI [of _ "d_engines_num (dv a)"])
  from probe_channels_ok [OF p, of 4 0 True] assms(2,3) obtain rc d1 where
    a: "probe_channels True 4 0 a = Inr (rc, d1)" "probed cfg d1" "d_engines_num (dv d1) \<le> 4"
       "\<forall>c. d_engine (dv d1) c 1 = None" "\<forall>c\<ge>4. d_engine (dv d1) c 0 = None" by auto
  have rc: "rc = 0" using assms(6) a(1) by (auto simp: probe_engines_def XDMA_CHANNEL_NUM_MAX_def bindr_eq_Inr split: if_splits)
  have o1: "engines_ok cfg a d1" by (rule probe_channels_stage [OF o _ _ a(1)]) (use assms(2,3) in simp_all)
  from probe_channels_ok [OF a(2), of 4 0 False] a(3,4) obtain rc' d' where
    b: "probe_channels False 4 0 d1 = Inr (rc', d')" "probed cfg d'"
       "\<forall>c. d_engine (dv d') c 0 = d_engine (dv d1) c 0" "\<forall>c\<ge>4. d_engine (dv d') c 1 = None" by auto
  have d: "d = d'" using assms(6) a(1) b(1) rc by (simp add: probe_engines_def XDMA_CHANNEL_NUM_MAX_def)
  have "engines_ok cfg a d'" by (rule probe_channels_stage [OF o1 _ _ b(1)]) (use a(3,4) in simp_all)
  moreover have "c < 4" if t: "d_engine (dv d') c dir = Some n" for c dir n
  proof -
    have "dir < 2" using b(2) t by (auto simp: probed_def slots_ok_def)
    then show ?thesis using t a(5) b(3,4) by (cases "dir = 0") (auto simp: less_2_cases_iff intro: ccontr)
  qed
  ultimately show ?thesis using d by blast
qed

text \<open>Removing engines: what changes, and by how much.\<close>

definition releases :: "device \<Rightarrow> device \<Rightarrow> bool" where
  "releases d d' \<longleftrightarrow> (fresh d \<longrightarrow> fresh d' \<and> (\<forall>x. tracked x \<longrightarrow> balance (dwld d') x - heap_held d' x = balance (dwld d) x - heap_held d x))
     \<and> chars d' = chars d \<and> next_obj d' = next_obj d \<and> dpar d' = dpar d \<and> pci d' = pci d \<and> g_xdma_class d' = g_xdma_class d
     \<and> dev_present d' = dev_present d \<and> (\<exists>k. dv d' = (dv d)\<lparr>d_engines_num := k\<rparr>)
     \<and> (\<forall>n. (\<forall>c dir. d_engine (dv d) c dir \<noteq> Some n) \<longrightarrow> engs d' n = engs d n)"

lemma releases_refl: "releases d d"
  unfolding releases_def by (metis xdma_dev.surjective xdma_dev.update_convs(22))

lemma releases_trans:
  assumes "releases a b" "releases b c"
  shows "releases a c"
proof -
  obtain j k where k: "dv b = (dv a)\<lparr>d_engines_num := j\<rparr>" "dv c = (dv b)\<lparr>d_engines_num := k\<rparr>"
    using assms unfolding releases_def by blast
  then have "dv c = (dv a)\<lparr>d_engines_num := k\<rparr>" "d_engine (dv b) = d_engine (dv a)" by simp_all
  then show ?thesis using assms unfolding releases_def by (intro conjI exI [of _ k]) auto
qed

lemma engine_destroy_releases:
  assumes "engine_destroy n d = Inr d'" "d_engine (dv d) c dir = Some n"
  shows "releases d d'"
proof -
  obtain e where e: "engs d n = Some e" using assms(1) by (auto simp: engine_destroy_def engine_at_def split: option.splits)
  note a = engine_destroy_account [OF assms(1) e]
  have k: "fresh d'" "balance (dwld d') x - heap_held d' x = balance (dwld d) x - heap_held d x" if "fresh d" "tracked x" for x
  proof -
    have n: "n < next_obj d" using e that(1) unfolding fresh_def by (metis linorder_not_less option.distinct(1))
    show "fresh d'" using a that(1) by (simp add: fresh_def accounts_def)
    have "heap_held d' x = heap_held d x - line_held (engs d n) x"
      using heap_held_gone [of n d d' x] n a by (simp add: accounts_def)
    moreover have "balance (dwld d') x - line_held (engs d' n) x = balance (dwld d) x - line_held (engs d n) x"
      using a that(2) unfolding accounts_def by blast
    moreover have "line_held (engs d' n) x = 0" using a by simp
    ultimately show "balance (dwld d') x - heap_held d' x = balance (dwld d) x - heap_held d x" by linarith
  qed
  have "fresh d'" if "fresh d" using a that by (simp add: fresh_def accounts_def)
  moreover have "engs d' m = engs d m" if "\<forall>c dir. d_engine (dv d) c dir \<noteq> Some m" for m
    using a that assms(2) by (metis fun_upd_other)
  moreover have "chars d' = chars d" "g_xdma_class d' = g_xdma_class d" "pci d' = pci d" "dev_present d' = dev_present d"
    using a by (simp_all add: accounts_def)
  ultimately show ?thesis using a k(2) unfolding releases_def by (intro conjI exI [of _ "d_engines_num (dv d) - 1"]) simp_all
qed

lemma remove_engines_releases:
  assumes "remove_engines d = Inr d'"
  shows "releases d d'"
  using assms unfolding remove_engines_def
proof (rule for_loop_inv [where P = "\<lambda>i. releases d"])
  show "releases d d" by (rule releases_refl)
  fix j u v
  assume u: "releases d u" "remove_channel j u = Inr v"
  from u(2) obtain w where
    w: "(case d_engine (dv u) j 0 of None \<Rightarrow> Inr u | Some n \<Rightarrow> engine_destroy n u) = Inr w"
       "(case d_engine (dv w) j 1 of None \<Rightarrow> Inr w | Some n \<Rightarrow> engine_destroy n w) = Inr v"
    by (auto simp: remove_channel_def bindr_eq_Inr)
  have "releases u w" using w(1) releases_refl engine_destroy_releases by (auto split: option.splits)
  moreover have "releases w v" using w(2) releases_refl engine_destroy_releases by (auto split: option.splits)
  ultimately show "releases d v" using u(1) releases_trans by blast
qed

subsection \<open>Removing gives back what probing took\<close>

text \<open>Steps that only use the registers.\<close>

lemma balance_interrupts [simp]: "balance (snd (read_interrupts cfg w)) x = balance w x"
  by (simp add: read_interrupts_def split_beta)

lemma enable_interrupts_only:
  assumes "enable_interrupts d = Inr d'"
  shows "\<exists>f. d' = upd_dwld f d \<and> (\<forall>w x. balance (f w) x = balance w x)"
proof -
  obtain cfg where "config_ptr d = Inr cfg" using assms by (auto simp: enable_interrupts_def bindr_eq_Inr)
  with assms have "d' = upd_dwld (\<lambda>w. snd (read_interrupts cfg ((if poll_mode (dpar d) then id else channel_interrupts_enable cfg (- 1))
      (user_interrupts_enable cfg (- 1) w)))) d"
    by (cases "poll_mode (dpar d)") (simp_all add: enable_interrupts_def upd_dwld_def Let_def)
  then show ?thesis
    by (intro exI conjI) (assumption, simp add: user_interrupts_enable_def channel_interrupts_enable_def)
qed

lemma probe_credits_only:
  assumes "probe_credits d = Inr d'"
  shows "\<exists>f. d' = upd_dwld f d \<and> (\<forall>w x. balance (f w) x = balance w x)"
proof -
  obtain cfg where c: "config_ptr d = Inr cfg" using assms by (auto simp: probe_credits_def bindr_eq_Inr)
  let ?r = "w_dev (dwld d) (w_log (dwld d)) cfg"
  let ?c = "enable_credit_mp (dpar d) \<and> ?r AND 0x8000 \<noteq> 0"
  have k: "config_ptr (upd_dwld f d) = Inr cfg" for f using c config_ptr_cong [of "upd_dwld f d" d] by simp
  have "d' = upd_dwld (\<lambda>w. (if ?c then write_register 0xF0000 (cfg + 0x6 * TARGET_SPACING + gr R_credit_feature_enable) else id)
      (emit (Rd cfg) w)) d"
    using assms k by (cases "enable_credit_mp (dpar d)"; cases "?r AND 0x8000 = 0") (simp_all add: probe_credits_def c enable_credit_feature_def dread_eq dwrite_eq upd_dwld_def Let_def)
  then show ?thesis by (intro exI conjI) (assumption, simp add: balance_emit event_gain_def)
qed

lemma register_steps:
  "enable_interrupts d = Inr d' \<Longrightarrow> \<exists>w. d' = d\<lparr>dwld := w\<rparr> \<and> (\<forall>x. balance w x = balance (dwld d) x)"
  "probe_credits d = Inr d' \<Longrightarrow> \<exists>w. d' = d\<lparr>dwld := w\<rparr> \<and> (\<forall>x. balance w x = balance (dwld d) x)"
  using enable_interrupts_only [of d d'] probe_credits_only [of d d'] unfolding upd_dwld_def by blast+

lemma disable_interrupts_ok:
  assumes "config_ptr d = Inr cfg"
  shows "\<exists>w. disable_interrupts d = Inr (d\<lparr>dwld := w\<rparr>) \<and> (\<forall>x. balance w x = balance (dwld d) x)"
proof -
  obtain d' where d': "disable_interrupts d = Inr d'" "d' = d\<lparr>dwld := dwld d'\<rparr>" "\<forall>x. balance (dwld d') x = balance (dwld d) x"
    using assms by (simp add: disable_interrupts_def Let_def upd_dwld_def user_interrupts_disable_def channel_interrupts_disable_def)
  then show ?thesis by metis
qed

lemma heap_held_restored:
  assumes "engs d' = engs d" "chars d' = chars d" "next_obj d \<le> next_obj d'" "fresh d"
  shows "heap_held d' x = heap_held d x"
proof -
  have "heap_held d' x = (\<Sum>n<next_obj d. line_held (engs d n) x + char_held (chars d n) x)"
    unfolding heap_held_def assms(1,2)
    by (rule sum.mono_neutral_right) (use assms(3,4) in \<open>auto simp: fresh_def\<close>)
  then show ?thesis by (simp add: heap_held_def)
qed

text \<open>The last part of \<open>remove\<close>.\<close>

lemma remove_tail_ok:
  assumes "length (d_bar (dv d)) = XDMA_BAR_NUM" "d_irq_user_count (dv d) \<le> length (d_entry (dv d))"
    "d_instance (dv d) < length (dev_present d)"
  shows "\<exists>d'. bindr (irq_teardown d) (\<lambda>d. bindr (unmap_bars d) (\<lambda>d.
          let d = device_off (msi_off (remove_regions d)) in
          bindr (array_upd (d_instance (dv d)) (\<lambda>_. False) (dev_present d)) (\<lambda>ps.
            Inr (free_alloc (dcall0 Device_remove_file (d\<lparr>dev_present := ps\<rparr>)))))) = Inr d'
    \<and> engs d' = engs d \<and> chars d' = chars d \<and> dev_present d' = (dev_present d)[d_instance (dv d) := False]
    \<and> (\<forall>x. balance (dwld d') x = balance (dwld d) x - hw_held d x - of_bool (x = R_file))"
proof -
  from irq_teardown_ok [OF assms(2)] obtain d1 where
    d1: "irq_teardown d = Inr d1" "dv d1 = dv d" "\<forall>x. balance (dwld d1) x = balance (dwld d) x - irqs_held d x" by blast
  have l1: "bar_ledger (\<lambda>x. balance (dwld d1) x - bars_held d1 x) d1" using assms(1) d1(2) by (simp add: bar_ledger_def)
  from unmap_bars_ok [OF l1] obtain d2 where
    d2: "unmap_bars d1 = Inr d2" "\<forall>x. balance (dwld d2) x = balance (dwld d1) x - bars_held d1 x" by auto
  have o: "but_io d2 = but_io d1" "acquired (dv d2) = acquired (dv d1)" "d_instance (dv d2) = d_instance (dv d1)"
    using unmap_bars_only [OF d2(1)] by (simp_all add: bars_only_def tables_def)
  have io: "but_io d2 = but_io d" using o(1) irq_teardown_frame [OF d1(1)] by simp
  note f = but_ioD [OF io]
  let ?d3 = "device_off (msi_off (remove_regions d2))"
  have d3: "engs ?d3 = engs d" "chars ?d3 = chars d" "dev_present ?d3 = dev_present d" "d_instance (dv ?d3) = d_instance (dv d)"
    using f o(3) d1(2) by (auto simp: device_off_def msi_off_def remove_regions_def dcall0_eq)
  have b3: "balance (dwld ?d3) x = balance (dwld d2) x - (hw_held d x - irqs_held d x - bars_held d x)" for x
    using acquiredD [OF o(2)] d1(2)
    by (auto simp: device_off_def msi_off_def remove_regions_def dcall0_eq hw_held_def balance_call)
  have h: "bars_held d1 x = bars_held d x" for x using held_cong [of d1 d] d1(2) by simp
  have "balance (dwld ?d3) x = balance (dwld d) x - hw_held d x" for x
    using b3 [of x] d1(3) d2(2) h [of x] by simp
  then show ?thesis using d1(1) d2(1) d3 assms(3)
    by (simp add: free_alloc_def dcall0_eq balance_call)
qed

lemma ifaces_start:
  assumes "fresh d" "g_xdma_class d" "slot_of (dv d) = (\<lambda>_. None)" "d_instance (dv d) < length (dev_present d)"
  shows "ifaces_ok d d"
  using assms by (auto simp: ifaces_ok_def slots_live_def fresh_def)

text \<open>
  The middle of the two: a board whose first half is done is probed to the end; what \<open>remove\<close>
  meets first takes it back to that point.
\<close>

lemma probe_board_undone:
  assumes run: "probe_board a = Inr (None, d)" and cfg: "config_ptr a = Inr cfg" and t: "tables (dv a) = tables no_dev"
    and len: "length (d_entry (dv a)) = 32" and f: "fresh a" and cl: "g_xdma_class a" and dp: "dev_present a \<noteq> []"
  shows "\<exists>d1 d2 d3. disable_interrupts d = Inr d1 \<and> destroy_interfaces d1 = Inr d2 \<and> remove_engines d2 = Inr d3
    \<and> engs d3 = engs a \<and> chars d3 = chars a \<and> acquired (dv d3) = acquired (dv a) \<and> d_bar (dv d3) = d_bar (dv a)
    \<and> d_instance (dv d3) < length (dev_present d3)
    \<and> (\<forall>x. tracked x \<longrightarrow> balance (dwld d3) x = balance (dwld a) x + of_bool (x = R_file))"
proof -
  from run obtain b c e where
    b: "probe_credits a = Inr b" and c: "probe_engines b = Inr (0, c)" and i: "create_interfaces c = Inr (0, e)"
    and last: "bindr (enable_interrupts e) (\<lambda>d. let (rc, d) = dcall Device_create_file d in Inr (if rc \<noteq> 0 then Some Rmv_cdev else None, d)) = Inr (None, d)"
    by (auto simp: probe_board_def bindr_eq_Inr split: if_splits)
  from register_steps(2) [OF b] obtain wb where wb: "b = a\<lparr>dwld := wb\<rparr>" "\<forall>x. balance wb x = balance (dwld a) x" by blast
  have tb: "slot_of (dv a) = (\<lambda>_. None)" "d_engine (dv a) = (\<lambda>_ _. None)" "d_engines_num (dv a) = 0" "d_instance (dv a) = 0"
  proof -
    have "slot_of no_dev s = None" for s by (cases s) (simp_all add: no_dev_def)
    then show "slot_of (dv a) = (\<lambda>_. None)" using t by (auto simp: tables_def)
  qed (use t in \<open>simp_all add: tables_def no_dev_def\<close>)
  have fb: "fresh b" using f wb(1) by (simp add: fresh_def)
  have "engines_ok cfg b c \<and> (\<forall>ch dir n. d_engine (dv c) ch dir = Some n \<longrightarrow> ch < 4)"
    by (rule probe_engines_stage [OF _ _ _ _ fb c]) (use cfg tb len wb(1) in simp_all)
  then have ec: "engines_ok cfg b c" and c4: "\<forall>ch dir n. d_engine (dv c) ch dir = Some n \<longrightarrow> ch < 4" by blast+
  have cc: "fresh c" "g_xdma_class c" "dev_present c = dev_present a" "next_obj b \<le> next_obj c" "chars c = chars b" "probed cfg c"
    using ec cl wb(1) by (simp_all add: engines_ok_def)
  obtain T k where T: "dv c = (dv b)\<lparr>d_engine := T, d_engines_num := k\<rparr>" using engines_okD(4) [OF ec] by blast
  have dvc: "slot_of (dv c) = (\<lambda>_. None)" "d_instance (dv c) < length (dev_present c)" "acquired (dv c) = acquired (dv a)" "d_bar (dv c) = d_bar (dv a)"
    using T wb(1) tb cc(3) dp by (simp_all add: acquired_def)
  from i have "create_all c = Inr (0, e)" by (auto simp: create_interfaces_def bindr_eq_Inr split: if_splits)
  from createsD [OF create_all_creates ifaces_start [OF cc(1,2) dvc(1,2)] _ this] dvc(1)
  have ie: "ifaces_ok c e" by simp
  note be = board_fieldsD [of "dv e" "dv c"]
  have bf: "board_fields (dv e) = board_fields (dv c)" using ie by (simp add: ifaces_ok_def)
  from last obtain e1 where e1: "enable_interrupts e = Inr e1" "dcall Device_create_file e1 = (0, d)"
    by (fastforce simp: bindr_eq_Inr split_beta prod_eq_iff split: if_splits)
  obtain w1 where w1: "e1 = e\<lparr>dwld := w1\<rparr>" "\<forall>x. balance w1 x = balance (dwld e) x" using register_steps(1) [OF e1(1)] by blast
  obtain w2 where w2: "d = e\<lparr>dwld := w2\<rparr>" "\<forall>x. balance w2 x = balance (dwld e) x + of_bool (x = R_file)"
    using e1(2) w1 by (auto simp: dcall_eq upd_dwld_def balance_call)
  have "config_ptr d = Inr cfg"
    using cc(6) config_ptr_cong [of d c] board_fieldsD(2,3) [OF bf] w2(1) by (simp add: probed_def)
  from disable_interrupts_ok [OF this] obtain w3 where
    w3: "disable_interrupts d = Inr (e\<lparr>dwld := w3\<rparr>)" "\<forall>x. balance w3 x = balance w2 x" using w2(1) by auto
  obtain w4 where w4: "destroy_interfaces (e\<lparr>dwld := w3\<rparr>) = Inr (e\<lparr>chars := chars c, dwld := w4\<rparr>)"
    "\<forall>x. tracked x \<longrightarrow> balance w4 x - heap_held (e\<lparr>chars := chars c, dwld := w4\<rparr>) x = balance w3 x - heap_held e x"
    using destroy_interfaces_ok [OF ie cc(1)] by blast
  let ?r = "e\<lparr>chars := chars c, dwld := w4\<rparr>"
  have ee: "engs e = engs c" "d_engine (dv e) = d_engine (dv c)" "next_obj c \<le> next_obj e" "fresh e"
    using ie board_fieldsD(4) [OF bf] by (simp_all add: ifaces_ok_def)
  have tab: "table_ok (d_engine (dv ?r)) (engs ?r) 0" using probed_table [OF cc(6)] c4 ee by simp
  obtain s where s: "remove_engines ?r = Inr s" "table_ok (d_engine (dv ?r)) (engs s) XDMA_CHANNEL_NUM_MAX"
    using remove_engines_ok [OF tab] by blast
  note rel = remove_engines_releases [OF s(1)]
  have fr: "fresh ?r" using cc(1) ee by (simp add: fresh_def)
  have ss: "chars s = chars c" "next_obj s = next_obj e" "dev_present s = dev_present e" "\<exists>k. dv s = (dv e)\<lparr>d_engines_num := k\<rparr>"
      "\<And>x. tracked x \<Longrightarrow> balance (dwld s) x - heap_held s x = balance w4 x - heap_held ?r x"
      "\<And>n. (\<forall>ch dir. d_engine (dv c) ch dir \<noteq> Some n) \<Longrightarrow> engs s n = engs c n"
    using rel fr ee(1,2) by (simp_all add: releases_def)
  have es: "engs s n = engs a n" for n
  proof (cases "\<exists>ch dir. d_engine (dv c) ch dir = Some n")
    case True
    then obtain ch dir where n: "d_engine (dv c) ch dir = Some n" by blast
    then have "engs s n = None" using s(2) c4 ee(2) by (auto simp: table_ok_def XDMA_CHANNEL_NUM_MAX_def)
    moreover have "engs a n = None" using engines_okD(2) [OF ec n] f wb(1) by (simp add: fresh_def)
    ultimately show ?thesis by simp
  next
    case False
    then have "engs s n = engs c n" using ss(6) by blast
    moreover have "engs c n = engs a n"
    proof (cases "n < next_obj b")
      case True
      then show ?thesis using engines_okD(3) [OF ec] wb(1) by simp
    next
      case large: False
      then have "engs c n = None" using engines_okD(1) [OF ec, of n] False by fastforce
      then show ?thesis using large f wb(1) by (simp add: fresh_def)
    qed
    ultimately show ?thesis by simp
  qed
  have chs: "chars s = chars a" using ss(1) cc(5) wb(1) by simp
  have hs: "heap_held s x = heap_held a x" for x
    by (rule heap_held_restored) (use es chs ss(2) ee(3) cc(4) wb(1) f in auto)
  have "balance (dwld s) x = balance (dwld a) x + of_bool (x = R_file)" if x: "tracked x" for x
  proof -
    have "balance (dwld e) x - heap_held e x = balance (dwld c) x - heap_held c x" using ie x unfolding ifaces_ok_def by blast
    moreover have "balance (dwld c) x - heap_held c x = balance wb x - heap_held b x" using ec x wb(1) by (simp add: engines_ok_def)
    moreover have "heap_held b x = heap_held a x" using wb(1) by (simp add: heap_held_def)
    moreover have "balance w4 x - heap_held ?r x = balance w3 x - heap_held e x" using w4(2) x by blast
    moreover note ss(5) [OF x] hs [of x] w3(2) w2(2) wb(2)
    ultimately show ?thesis by (smt (verit))
  qed
  moreover have "acquired (dv s) = acquired (dv a)" "d_bar (dv s) = d_bar (dv a)" "d_instance (dv s) = d_instance (dv e)"
    using ss(4) board_fieldsD(1,2) [OF bf] dvc(3,4) by (auto simp: acquired_def)
  moreover have "d_instance (dv e) < length (dev_present e)" using ie by (simp add: ifaces_ok_def)
  moreover have "engs s = engs a" using es by blast
  ultimately show ?thesis
    using w3(1) w4(1) s(1) chs ss(3) by (intro exI [of _ "e\<lparr>dwld := w3\<rparr>"] exI [of _ ?r] exI [of _ s]) simp
qed

text \<open>
  C30: Removing a board that was probed runs to its end and both heaps are as they were
  before: the engines and character devices of the board are gone. The account of the
  board itself, of MSI-X and MSI, the regions, every BAR, every interrupt line, every
  character device with its node, and the attribute file is as it was before probing, but
  for MSI-X when the kernel had answered with a number of vectors: it is disabled without
  having been enabled. Not accounted for here are the ranges of device numbers, of which
  one with a major number chosen by the kernel is not given back, and the interrupt number
  0, which stands for an engine without a vector.
\<close>

theorem probe_remove_restores:
  assumes "probe d = Inr (0, d1)" "fresh d" "g_xdma_class d" "dev_present d \<noteq> []" "pd_irq (pci d) \<noteq> - 1"
  shows "\<exists>d2. remove True d1 = Inr d2 \<and> engs d2 = engs d \<and> chars d2 = chars d
    \<and> (\<forall>x. tracked x \<longrightarrow> balance (dwld d2) x = balance (dwld d) x - of_bool (never_taken (snd (alloc_dev_instance d)) x))"
proof -
  obtain ok d0 where al: "alloc_dev_instance d = (ok, d0)" by fastforce
  have ok: ok using assms(1) al by (auto simp: probe_def ENOMEM_def split: if_splits)
  have d0: "dv d0 = no_dev" "pd_irq (pci d0) \<noteq> - 1" "but_io d0 = but_io d" "balance (dwld d0) x = balance (dwld d) x" for x
    using al ok assms(5) by (auto simp: alloc_dev_instance_def dcall_eq balance_call split: if_splits)
  obtain l a where p: "probe_pci d0 = Inr (l, a)"
    using probe_pci_ok [OF d0(1,2)] by blast
  have line: "probe_line d0 = Inr (None, d1)"
    using assms(1) al ok by (auto simp: probe_def bindr_eq_Inr split: option.splits)
  have l: "l = None" using line p by (cases l) (simp_all add: probe_line_def)
  have board: "probe_board a = Inr (None, d1)" using line p l by (simp add: probe_line_def)
  have h: "half_ok (\<lambda>x. balance (dwld d0) x - of_bool (never_taken d0 x)) d0 None a" using probe_pci_ok [OF d0(1,2)] p l by auto
  have io: "but_io a = but_io d" using h d0(3) by (simp add: half_ok_def)
  note f = but_ioD [OF io]
  obtain cfg where cfg: "config_ptr a = Inr cfg" using h by (auto simp: half_ok_def)
  have ha: "tables (dv a) = tables no_dev" "length (d_entry (dv a)) = 32" "length (d_bar (dv a)) = XDMA_BAR_NUM" "d_irq_user_count (dv a) \<le> 32"
      "\<forall>x. balance (dwld a) x = balance (dwld d) x - of_bool (never_taken d0 x) + hw_held a x"
    using h d0(4) by (simp_all add: half_ok_def leftover_def)
  have fa: "fresh a" using assms(2) f by (simp add: fresh_def)
  obtain b1 b2 b3 where
    b: "disable_interrupts d1 = Inr b1" "destroy_interfaces b1 = Inr b2" "remove_engines b2 = Inr b3"
      "engs b3 = engs a" "chars b3 = chars a" "acquired (dv b3) = acquired (dv a)" "d_bar (dv b3) = d_bar (dv a)"
      "d_instance (dv b3) < length (dev_present b3)"
      "\<forall>x. tracked x \<longrightarrow> balance (dwld b3) x = balance (dwld a) x + of_bool (x = R_file)"
    using probe_board_undone [OF board cfg ha(1,2) fa] assms(3,4) f by auto
  have hb: "hw_held b3 x = hw_held a x" for x
    using acquiredD [OF b(6)] irqs_held_cong [OF b(6)] held_cong [OF b(7)] by (simp add: hw_held_def)
  have lb: "length (d_bar (dv b3)) = XDMA_BAR_NUM" "d_irq_user_count (dv b3) \<le> length (d_entry (dv b3))"
    using ha b(7) acquiredD [OF b(6)] by simp_all
  obtain d2 where d2: "bindr (irq_teardown b3) (\<lambda>d. bindr (unmap_bars d) (\<lambda>d.
          let d = device_off (msi_off (remove_regions d)) in
          bindr (array_upd (d_instance (dv d)) (\<lambda>_. False) (dev_present d)) (\<lambda>ps.
            Inr (free_alloc (dcall0 Device_remove_file (d\<lparr>dev_present := ps\<rparr>)))))) = Inr d2"
    "engs d2 = engs b3" "chars d2 = chars b3" "\<forall>x. balance (dwld d2) x = balance (dwld b3) x - hw_held b3 x - of_bool (x = R_file)"
    using remove_tail_ok [OF lb b(8)] by blast
  have "remove True d1 = Inr d2" using d2(1) by (simp add: remove_def b(1-3))
  moreover have "balance (dwld d2) x = balance (dwld d) x - of_bool (never_taken d0 x)" if "tracked x" for x
    using d2(4) b(9) that ha(5) hb by simp
  ultimately show ?thesis using d2(2,3) b(4,5) f al by auto
qed

subsection \<open>Unwinding twice\<close>

text \<open>Destroying leaves the pointers in the structure, to devices that are gone.\<close>

lemma destroy_slots_dangling:
  assumes "destroy_slots ss d = Inr d'"
  shows "dv d' = dv d \<and> (\<forall>n. chars d n = None \<longrightarrow> chars d' n = None) \<and> (\<forall>s\<in>set ss. \<forall>n. slot_of (dv d) s = Some n \<longrightarrow> chars d' n = None)"
  using assms
proof (induction ss arbitrary: d)
  case (Cons s ss)
  from Cons.prems obtain d1 where d1: "destroy_slot s d = Inr d1" "destroy_slots ss d1 = Inr d'" by (auto simp: bindr_eq_Inr)
  have "dv d1 = dv d \<and> (\<forall>n. chars d n = None \<longrightarrow> chars d1 n = None) \<and> (\<forall>n. slot_of (dv d) s = Some n \<longrightarrow> chars d1 n = None)"
    using d1(1) by (auto simp: destroy_slot_def destroy_sg_char_def bindr_eq_Inr bug_on_def Let_def dcall0_eq free_char_def
        split: option.splits if_splits)
  then show ?case using Cons.IH [OF d1(2)] by auto
qed simp

lemma destroy_dangling:
  assumes "\<forall>s\<in>set ss. \<forall>n. slot_of (dv d) s = Some n \<longrightarrow> chars d n = None" "s \<in> set ss" "slot_of (dv d) s \<noteq> None"
  shows "destroy_slots ss d = Inl UseAfterFree"
  using assms
  by (induction ss) (auto simp: destroy_slot_def destroy_sg_char_def char_at_def split: option.splits)

lemma remove_engines_dangling:
  assumes "remove_engines d = Inr d'"
  shows "d_engine (dv d') = d_engine (dv d)
    \<and> (\<forall>c<XDMA_CHANNEL_NUM_MAX. \<forall>dir<2. \<forall>n. d_engine (dv d) c dir = Some n \<longrightarrow> engs d' n = None)"
proof -
  let ?P = "\<lambda>j u. d_engine (dv u) = d_engine (dv d) \<and> (\<forall>c<j. \<forall>dir<2. \<forall>n. d_engine (dv d) c dir = Some n \<longrightarrow> engs u n = None)"
  have one: "d_engine (dv v) = d_engine (dv u) \<and> (\<forall>m. engs u m = None \<longrightarrow> engs v m = None) \<and> engs v n = None"
    if r: "engine_destroy n u = Inr v" for n u v
  proof -
    obtain e where "engs u n = Some e" using r by (auto simp: engine_destroy_def engine_at_def split: option.splits)
    from engine_destroy_account [OF r this] show ?thesis by simp
  qed
  have "?P (0 + XDMA_CHANNEL_NUM_MAX) d'"
    using assms unfolding remove_engines_def
  proof (rule for_loop_inv [where P = ?P])
    fix j u v
    assume p: "?P j u" and r: "remove_channel j u = Inr v"
    from r obtain w where
      w: "(case d_engine (dv u) j 0 of None \<Rightarrow> Inr u | Some n \<Rightarrow> engine_destroy n u) = Inr w"
         "(case d_engine (dv w) j 1 of None \<Rightarrow> Inr w | Some n \<Rightarrow> engine_destroy n w) = Inr v"
      by (auto simp: remove_channel_def bindr_eq_Inr)
    have a: "d_engine (dv w) = d_engine (dv u) \<and> (\<forall>m. engs u m = None \<longrightarrow> engs w m = None)
        \<and> (\<forall>n. d_engine (dv u) j 0 = Some n \<longrightarrow> engs w n = None)"
      using w(1) one by (cases "d_engine (dv u) j 0") auto
    have b: "d_engine (dv v) = d_engine (dv w) \<and> (\<forall>m. engs w m = None \<longrightarrow> engs v m = None)
        \<and> (\<forall>n. d_engine (dv w) j 1 = Some n \<longrightarrow> engs v n = None)"
      using w(2) one by (cases "d_engine (dv w) j 1") auto
    have "engs v n = None" if "c < Suc j" "dir < 2" "d_engine (dv d) c dir = Some n" for c dir n
      using that p a b by (cases "c = j"; cases "dir = 0") (auto simp: less_Suc_eq less_2_cases_iff)
    then show "?P (Suc j) v" using p a b by simp
  qed simp
  then show ?thesis by simp
qed

lemma remove_dangling:
  assumes "\<forall>c<i + k. \<forall>dir<2. \<forall>n. d_engine (dv d) c dir = Some n \<longrightarrow> engs d n = None"
    "i \<le> c" "c < i + k" "dir < 2" "d_engine (dv d) c dir \<noteq> None"
  shows "for_loop k i remove_channel d = Inl UseAfterFree"
  using assms
proof (induction k arbitrary: i)
  case (Suc k)
  show ?case
  proof (cases "d_engine (dv d) i 0 = None \<and> d_engine (dv d) i 1 = None")
    case True
    then have c: "i \<noteq> c" using Suc.prems(4,5) by (auto simp: less_2_cases_iff)
    have "for_loop k (Suc i) remove_channel d = Inl UseAfterFree" by (rule Suc.IH) (use Suc.prems c in auto)
    moreover have "remove_channel i d = Inr d" using True by (simp add: remove_channel_def)
    ultimately show ?thesis by simp
  next
    case False
    have "engine_destroy n d = Inl UseAfterFree" if "d_engine (dv d) i dir = Some n" "dir < 2" for dir n
    proof -
      have "engs d n = None" using Suc.prems(1) [rule_format, of i dir n] that by simp
      then show ?thesis by (simp add: engine_destroy_def engine_at_def)
    qed
    then have "remove_channel i d = Inl UseAfterFree"
      using False by (cases "d_engine (dv d) i 0") (auto simp: remove_channel_def)
    then show ?thesis by simp
  qed
qed simp

lemma probe_board_failed:
  assumes "probe_board a = Inr (Some l, e)"
  shows "l = Rmv_engine \<Longrightarrow> \<exists>b rc. probe_engines b = Inr (rc, e) \<and> rc \<noteq> 0"
    "l = Rmv_interface \<Longrightarrow> \<exists>c rc. create_interfaces c = Inr (rc, e) \<and> rc \<noteq> 0"
  using assms by (auto simp: probe_board_def bindr_eq_Inr dcall_eq split: if_splits)

text \<open>
  C32: When creating the interfaces or probing the engines fails after some of them exist,
  probing ends in a use after free: the failing function releases what it made but leaves
  the pointers, and the label of the error path goes through the same pointers again.
\<close>

theorem probe_unwinds_twice:
  assumes "alloc_dev_instance d = (True, d0)" "probe_pci d0 = Inr (None, a)" "probe_board a = Inr (Some l, e)"
    "l = Rmv_interface \<and> (\<exists>s\<in>set all_slots. slot_of (dv e) s \<noteq> None)
     \<or> l = Rmv_engine \<and> (\<exists>c<XDMA_CHANNEL_NUM_MAX. \<exists>dir<2. d_engine (dv e) c dir \<noteq> None)"
  shows "probe d = Inl UseAfterFree"
proof -
  have "unwind l e = Inl UseAfterFree" using assms(4)
  proof (elim disjE conjE)
    assume l: "l = Rmv_interface" and s: "\<exists>s\<in>set all_slots. slot_of (dv e) s \<noteq> None"
    from probe_board_failed(2) [OF assms(3) l] obtain c rc where "create_interfaces c = Inr (rc, e)" "rc \<noteq> 0" by blast
    then obtain c' where "destroy_slots all_slots c' = Inr e"
      by (auto simp: create_interfaces_def destroy_interfaces_def bindr_eq_Inr split: if_splits)
    from destroy_slots_dangling [OF this] have "\<forall>s\<in>set all_slots. \<forall>n. slot_of (dv e) s = Some n \<longrightarrow> chars e n = None" by simp
    with s have "destroy_interfaces e = Inl UseAfterFree"
      unfolding destroy_interfaces_def using destroy_dangling by blast
    then show ?thesis by (simp add: l unwind_simps)
  next
    assume l: "l = Rmv_engine" and s: "\<exists>c<XDMA_CHANNEL_NUM_MAX. \<exists>dir<2. d_engine (dv e) c dir \<noteq> None"
    from probe_board_failed(1) [OF assms(3) l] obtain b rc where "probe_engines b = Inr (rc, e)" "rc \<noteq> 0" by blast
    then obtain b' where "remove_engines b' = Inr e" by (auto simp: probe_engines_def bindr_eq_Inr split: if_splits)
    from remove_engines_dangling [OF this]
    have "\<forall>c<0 + XDMA_CHANNEL_NUM_MAX. \<forall>dir<2. \<forall>n. d_engine (dv e) c dir = Some n \<longrightarrow> engs e n = None" by simp
    with s have "remove_engines e = Inl UseAfterFree"
      unfolding remove_engines_def using remove_dangling [of 0 XDMA_CHANNEL_NUM_MAX e] by fastforce
    then show ?thesis by (simp add: l unwind_simps)
  qed
  then show ?thesis using assms(1-3) by (simp add: probe_def probe_line_def)
qed

subsection \<open>Concrete runs\<close>

text \<open>
  A board with a user BAR and a configuration BAR and no engines, with one interrupt line, and a kernel
  that grants everything, but for the services of \<open>refused\<close>.
\<close>

definition board_kernel :: "(service \<Rightarrow> bool) \<Rightarrow> service \<Rightarrow> int" where
  "board_kernel refused s =
     (if refused s then - 1
      else case s of Kzalloc _ \<Rightarrow> 0x1000 | Pci_iomap i _ \<Rightarrow> 0x10000 * (int i + 1) | Alloc_chrdev_major \<Rightarrow> 240
      | Pcie_read_devctl \<Rightarrow> 0x100 | Device_create _ _ \<Rightarrow> 1 | _ \<Rightarrow> 0)"

definition unbound_board :: "(service \<Rightarrow> bool) \<Rightarrow> device" where
  "unbound_board refused = fresh_device\<lparr>
     pci := sample_pci\<lparr>pd_len := (\<lambda>i. if i < 2 then 0x10000 else 0)\<rparr>,
     dwld := idle_world\<lparr>w_kern := (\<lambda>_. board_kernel refused),
       w_dev := (\<lambda>_ a. if a = 0x22000 then 0x1fc20006 else if a = 0x23000 then 0x1fc30006 else 0)\<rparr>\<rparr>"

lemma unbound_board_ok:
  "fresh (unbound_board r)" "g_xdma_class (unbound_board r)" "dev_present (unbound_board r) \<noteq> []"
  "pd_irq (pci (unbound_board r)) \<noteq> - 1" "balance (dwld (unbound_board r)) x = 0"
  by (simp_all add: unbound_board_def fresh_device_def fresh_def sample_pci_def balance_def idle_world_def)

text \<open>The same board with MSI-X, of whose vectors the kernel has only five, and whose regions are in use.\<close>

definition few_vectors :: device where
  "few_vectors = unbound_board (\<lambda>_. False)\<lparr>pci := sample_pci\<lparr>pd_no_msi := False\<rparr>, dwld := idle_world\<lparr>w_kern := (\<lambda>_ s. case s of
     Pci_enable_msix _ \<Rightarrow> 5 | Pci_find_capability _ \<Rightarrow> 0x60 | Pci_request_regions \<Rightarrow> - 1 | _ \<Rightarrow> board_kernel (\<lambda>_. False) s)\<rparr>\<rparr>"

text \<open>Kernels that refuse to name the event devices and to add the control device.\<close>

definition no_events :: "service \<Rightarrow> bool" where
  "no_events s = (case s of Kobject_set_name t _ _ \<Rightarrow> t = type_index CHAR_EVENTS | _ \<Rightarrow> False)"

definition no_ctrl :: "service \<Rightarrow> bool" where
  "no_ctrl s = (case s of Cdev_add _ minor _ \<Rightarrow> minor = 1 | _ \<Rightarrow> False)"

text \<open>Event devices that the kernel does not name leave nothing behind but the counter of objects.\<close>

definition names_no_events :: "device \<Rightarrow> bool" where
  "names_no_events d \<longleftrightarrow> (\<forall>l n m. w_kern (dwld d) l (Kobject_set_name (type_index CHAR_EVENTS) n m) = - 1)
     \<and> (\<forall>l. w_kern (dwld d) l (Kzalloc 5) = 0x1000) \<and> d_major (dv d) \<noteq> 0 \<and> d_events_char_dev (dv d) = (\<lambda>_. None)
     \<and> (\<forall>n\<ge>next_obj d. chars d n = None)"

lemma unnamed_event:
  assumes "names_no_events d" "i < MAX_USER_IRQ"
  shows "\<exists>w. create_slot (Events_char i) (int i) None CHAR_EVENTS d = Inr (- 1, d\<lparr>next_obj := Suc (next_obj d), dwld := w\<rparr>)
    \<and> w_kern w = w_kern (dwld d)"
proof -
  let ?log = "[Call (Kzalloc 5), Call (Kobject_set_name (type_index CHAR_EVENTS) (d_instance (dv d)) i), Call (Kfree (of_nat (next_obj d)))]"
  have e: "(d_events_char_dev (dv d))(i := None) = d_events_char_dev (dv d)" "(chars d)(next_obj d := None) = chars d"
    using assms(1) by (auto simp: names_no_events_def)
  have v: "(dv d)\<lparr>d_events_char_dev := (d_events_char_dev (dv d))(i := None)\<rparr> = dv d" unfolding e by simp
  have "create_slot (Events_char i) (int i) None CHAR_EVENTS d
      = Inr (- 1, d\<lparr>next_obj := Suc (next_obj d), dwld := (dwld d)\<lparr>w_log := w_log (dwld d) @ ?log\<rparr>\<rparr>)"
    using assms v e(2) by (simp add: names_no_events_def create_slot_def create_sg_char_def new_instance_def config_kobject_def gen_dev_minor_def
        dcall_eq dcall0_eq free_char_def upd_dv_def upd_dwld_def bug_on_def emit_def Let_def del: fun_upd_apply)
  then show ?thesis by (intro exI conjI) (assumption, simp)
qed

lemma unnamed_events:
  assumes "names_no_events d" "i + k \<le> MAX_USER_IRQ"
  shows "\<exists>m w. create_event_interfaces k i d = Inr (d\<lparr>next_obj := m, dwld := w\<rparr>) \<and> w_kern w = w_kern (dwld d)"
  using assms
proof (induction k arbitrary: i d)
  case 0
  show ?case by (intro exI [of _ "next_obj d"] exI [of _ "dwld d"]) simp
next
  case (Suc k)
  obtain w where w: "create_slot (Events_char i) (int i) None CHAR_EVENTS d = Inr (- 1, d\<lparr>next_obj := Suc (next_obj d), dwld := w\<rparr>)"
    "w_kern w = w_kern (dwld d)" using unnamed_event [OF Suc.prems(1), of i] Suc.prems(2) by auto
  let ?d = "d\<lparr>next_obj := Suc (next_obj d), dwld := w\<rparr>"
  have "names_no_events ?d" using Suc.prems(1) w(2) by (simp add: names_no_events_def)
  from Suc.IH [OF this, of "Suc i"] Suc.prems(2) obtain m w' where
    "create_event_interfaces k (Suc i) ?d = Inr (?d\<lparr>next_obj := m, dwld := w'\<rparr>)" "w_kern w' = w_kern w" by auto
  then show ?case using w by (intro exI [of _ m] exI [of _ w']) simp
qed

lemma no_channels:
  assumes "d_engine (dv d) = (\<lambda>_ _. None)"
  shows "create_channel_interfaces create dir k c d = Inr (0, d)"
  by (induction k arbitrary: c) (simp_all add: assms)

text \<open>A board without engines and without a bypass BAR, once its two devices exist.\<close>

lemma create_all_plain:
  assumes "create_user_interface c = Inr (0, u)" "create_slot Ctrl_char (d_config_bar_idx (dv u)) None CHAR_CTRL u = Inr (0, v)"
    "names_no_events v" "d_engine (dv v) = (\<lambda>_ _. None)" "d_bypass_bar_idx (dv v) < 0"
  shows "\<exists>m w. create_all c = Inr (0, v\<lparr>dv := (dv v)\<lparr>d_bypass_char_dev_base := None\<rparr>, next_obj := m, dwld := w\<rparr>) \<and> w_kern w = w_kern (dwld v)"
proof -
  obtain m w where e: "create_event_interfaces MAX_USER_IRQ 0 v = Inr (v\<lparr>next_obj := m, dwld := w\<rparr>)" "w_kern w = w_kern (dwld v)"
    using unnamed_events [OF assms(3), of 0 MAX_USER_IRQ] by auto
  have "create_all c = Inr (0, v\<lparr>dv := (dv v)\<lparr>d_bypass_char_dev_base := None\<rparr>, next_obj := m, dwld := w\<rparr>)"
    using assms e(1) by (simp add: create_all_def then_ok_def no_channels create_bypass_interfaces_def create_bypass_base_def upd_dv_def)
  then show ?thesis using e(2) by blast
qed

lemma enable_interrupts_runs:
  assumes "config_ptr d = Inr cfg"
  shows "\<exists>w. enable_interrupts d = Inr (d\<lparr>dwld := w\<rparr>) \<and> w_kern w = w_kern (dwld d)"
proof -
  let ?w = "snd (read_interrupts cfg ((if poll_mode (dpar d) then id else channel_interrupts_enable cfg (- 1)) (user_interrupts_enable cfg (- 1) (dwld d))))"
  have "enable_interrupts d = Inr (d\<lparr>dwld := ?w\<rparr>)"
    by (cases "poll_mode (dpar d)") (simp_all add: assms enable_interrupts_def Let_def upd_dwld_def)
  moreover have "w_kern ?w = w_kern (dwld d)"
    by (simp add: user_interrupts_enable_def channel_interrupts_enable_def read_interrupts_def read_register_def write_register_def emit_def)
  ultimately show ?thesis by blast
qed

lemma probe_runs:
  assumes "alloc_dev_instance d = (True, d0)" "probe_pci d0 = Inr (None, a)" "probe_board a = Inr (None, e)"
  shows "probe d = Inr (0, e)"
  using assms by (simp add: probe_def probe_line_def)

theorem probe_remove_restores_witness:
  "\<exists>d1 d2. probe (unbound_board no_events) = Inr (0, d1) \<and> remove True d1 = Inr d2 \<and> chars d2 = Map.empty \<and> balance (dwld d2) R_device = 0"
proof -
  let ?b = "unbound_board no_events"
  let ?p = "probe_pci (snd (alloc_dev_instance ?b))"
  have a: "alloc_dev_instance ?b = (True, snd (alloc_dev_instance ?b))"
    by (simp add: alloc_dev_instance_def dcall_eq unbound_board_def fresh_device_def idle_world_def board_kernel_def no_events_def)
  have "run_ok (\<lambda>(f, d). f = None \<and> run_ok (\<lambda>d. run_ok (\<lambda>(rc, d). rc = 0 \<and> run_ok (\<lambda>(rc, d). rc = 0 \<and> d_config_bar_idx (dv d) = 1
      \<and> run_ok (\<lambda>(rc, d). rc = 0 \<and> d_major (dv d) = 240 \<and> w_kern (dwld d) l (Kobject_set_name 2 n m) = - 1
          \<and> w_kern (dwld d) l (Kzalloc 5) = 0x1000 \<and> d_events_char_dev (dv d) n = None \<and> d_engine (dv d) n m = None
          \<and> d_bypass_bar_idx (dv d) = - 1 \<and> d_config_bar_idx (dv d) = 1 \<and> d_bar (dv d) = [0x10000, 0x20000, 0, 0, 0, 0]
          \<and> w_kern (dwld d) l Device_create_file = 0 \<and> next_obj d = 2 \<and> chars d (Suc (Suc n)) = None)
        (create_slot Ctrl_char 1 None CHAR_CTRL d)) (create_user_interface d)) (probe_engines d)) (probe_credits d)) ?p" for l n m
    by code_simp
  note run = this
  from run [of "[]" 0 0] obtain d b c u v where
    p: "?p = Inr (None, d)" "probe_credits d = Inr b" "probe_engines b = Inr (0, c)" "create_user_interface c = Inr (0, u)"
      "create_slot Ctrl_char 1 None CHAR_CTRL u = Inr (0, v)" "d_config_bar_idx (dv u) = 1"
    by (auto elim!: run_okE)
  have v: "d_major (dv v) = 240 \<and> w_kern (dwld v) l (Kobject_set_name 2 n m) = - 1
          \<and> w_kern (dwld v) l (Kzalloc 5) = 0x1000 \<and> d_events_char_dev (dv v) n = None \<and> d_engine (dv v) n m = None
          \<and> d_bypass_bar_idx (dv v) = - 1 \<and> d_config_bar_idx (dv v) = 1 \<and> d_bar (dv v) = [0x10000, 0x20000, 0, 0, 0, 0]
          \<and> w_kern (dwld v) l Device_create_file = 0 \<and> next_obj v = 2 \<and> chars v (Suc (Suc n)) = None" for l n m
    using run [of l n m] unfolding p run_ok_def prod.case sum.case by blast
  have ch: "\<forall>n\<ge>next_obj v. chars v n = None"
  proof (intro allI impI)
    fix n assume "next_obj v \<le> n"
    then have "n = Suc (Suc (n - 2))" using v by simp
    then show "chars v n = None" using v by metis
  qed
  have "d_engine (dv v) = (\<lambda>_ _. None)" using v by blast
  moreover have "names_no_events v" using v ch by (auto simp: names_no_events_def)
  ultimately obtain k w where w: "create_all c = Inr (0, v\<lparr>dv := (dv v)\<lparr>d_bypass_char_dev_base := None\<rparr>, next_obj := k, dwld := w\<rparr>)"
      "w_kern w = w_kern (dwld v)"
    using create_all_plain [OF p(4), of v] p(5,6) v by auto
  let ?v = "v\<lparr>dv := (dv v)\<lparr>d_bypass_char_dev_base := None\<rparr>, next_obj := k, dwld := w\<rparr>"
  have "config_ptr ?v = Inr 0x20000" using v by (simp add: config_ptr_def bar_ptr_def)
  from enable_interrupts_runs [OF this] obtain w' where
    e: "enable_interrupts ?v = Inr (?v\<lparr>dwld := w'\<rparr>)" "w_kern w' = w_kern (dwld v)" using w(2) by auto
  have f: "dcall Device_create_file (?v\<lparr>dwld := w'\<rparr>) = (0, upd_dwld (emit (Call Device_create_file)) (?v\<lparr>dwld := w'\<rparr>))"
    using e(2) v by (simp add: dcall_eq)
  have "probe_board d = Inr (None, upd_dwld (emit (Call Device_create_file)) (?v\<lparr>dwld := w'\<rparr>))"
    using p(2,3) w(1) e(1) f by (simp add: probe_board_def create_interfaces_def)
  from probe_runs [OF a p(1) this] obtain d1 where d1: "probe ?b = Inr (0, d1)" by blast
  have "R_device \<noteq> (if c then R_msix else R_msi)" for c by simp
  then have m: "\<not> never_taken e R_device" for e unfolding never_taken_def by blast
  from probe_remove_restores [OF d1 unbound_board_ok(1-3) unbound_board_ok(4)] obtain d2 where
    "remove True d1 = Inr d2" "chars d2 = chars ?b" "balance (dwld d2) R_device = 0"
    using unbound_board_ok(5) m by (auto simp: tracked_def)
  then show ?thesis using d1 by (auto simp: unbound_board_def fresh_device_def)
qed

theorem probe_failure_account_witness:
  "\<exists>d'. probe few_vectors = Inr (- 1, d') \<and> balance (dwld d') R_device = 1 \<and> balance (dwld d') R_regions = 0
     \<and> balance (dwld d') R_msix = - 1"
proof -
  have a: "alloc_dev_instance few_vectors = (True, snd (alloc_dev_instance few_vectors))"
    by (simp add: alloc_dev_instance_def dcall_eq few_vectors_def idle_world_def board_kernel_def)
  have "run_ok (\<lambda>(l, d). l = Some Rel_region) (probe_pci (snd (alloc_dev_instance few_vectors)))" by code_simp
  then obtain d1 where p: "probe_pci (snd (alloc_dev_instance few_vectors)) = Inr (Some Rel_region, d1)" by (auto elim!: run_okE)
  have n: "never_taken (snd (alloc_dev_instance few_vectors)) x \<longleftrightarrow> x = R_msix" for x
  proof -
    have "0 < fst (msi_scan (snd (alloc_dev_instance few_vectors))) \<and> d_msix_enabled (dv (snd (msi_scan (snd (alloc_dev_instance few_vectors)))))"
      by code_simp
    then show ?thesis by (simp add: never_taken_def)
  qed
  have b: "balance (dwld few_vectors) x = 0" for x by (simp add: few_vectors_def balance_def idle_world_def)
  have "pd_irq (pci few_vectors) \<noteq> - 1" by (simp add: few_vectors_def sample_pci_def)
  from probe_failure_account [OF a p this] show ?thesis by (auto simp: leftover_def n b)
qed

theorem probe_unwinds_twice_witness:
  "probe (unbound_board no_ctrl) = Inl UseAfterFree"
proof -
  let ?b = "unbound_board no_ctrl"
  have a: "alloc_dev_instance ?b = (True, snd (alloc_dev_instance ?b))"
    by (simp add: alloc_dev_instance_def dcall_eq unbound_board_def fresh_device_def idle_world_def board_kernel_def no_ctrl_def)
  have "run_ok (\<lambda>(l, d). l = None \<and> run_ok (\<lambda>(l, e). l = Some Rmv_interface \<and> slot_of (dv e) User_char \<noteq> None) (probe_board d))
      (probe_pci (snd (alloc_dev_instance ?b)))" by code_simp
  then obtain d e where p: "probe_pci (snd (alloc_dev_instance ?b)) = Inr (None, d)" "probe_board d = Inr (Some Rmv_interface, e)"
    "slot_of (dv e) User_char \<noteq> None" by (auto elim!: run_okE)
  have "Rmv_interface = Rmv_interface \<and> (\<exists>s\<in>set all_slots. slot_of (dv e) s \<noteq> None)
     \<or> Rmv_interface = Rmv_engine \<and> (\<exists>c<XDMA_CHANNEL_NUM_MAX. \<exists>dir<2. d_engine (dv e) c dir \<noteq> None)"
    using p(3) all_slots_mem(1) by blast
  then show ?thesis by (rule probe_unwinds_twice [OF a p(1,2)])
qed

end
