(* ===== verification/Camera_Tool.thy ===== *)
theory Camera_Tool
  imports Kernel_Prelude
begin

unbundle bit_operations_syntax

text \<open>
  The user program software/v4l2_dma_camera.cpp: it takes frames from the board through the
  driver's devices and hands them to a V4L2 loopback device. Modelled are the set-up of the
  video device with its buffers, the exposure protocol over the mapped registers, the read
  of a frame with the copy loop into the video buffer, and the endless loop of \<open>main\<close>.
  A buffer is the list of bytes that \<open>malloc\<close> reserved, and an access outside of it is the
  fault \<open>OutOfBounds\<close>. What the kernel and the board answer is a parameter of the state. The
  lemmas relate the copy loop to the crop of the image that it is meant to be, and show
  where it leaves its buffers.
\<close>

subsection \<open>The state of the program\<close>

definition FRAME_WIDTH :: nat where "FRAME_WIDTH = 2048"
definition FRAME_HEIGHT :: nat where "FRAME_HEIGHT = 1558"
definition XDMA_FRAME_WIDTH :: nat where "XDMA_FRAME_WIDTH = 2064"
definition XDMA_FRAME_HEIGHT :: nat where "XDMA_FRAME_HEIGHT = 1554"
definition XDMA_FRAME_BASE_ADDR :: u32 where "XDMA_FRAME_BASE_ADDR = 0x200000"

text \<open>
  The pixel formats that the code tells apart; their codes are the kernel's. Every other
  code, the 12 bit Bayer format of the camera among them, is \<open>Other_format\<close>.
\<close>

datatype pixfmt = YUV420 | YVU420 | UYVY | Y41P | YUYV | YVYU | SRGGB12 | Other_format u32

record v4l2_format =
  f_width :: u32
  f_height :: u32
  f_pixelformat :: pixfmt
  f_sizeimage :: u32
  f_bytesperline :: u32

text \<open>What the program asks of the kernel and of the mapped registers, in the order of its doing so.\<close>

datatype request =
    Open_video | Query_cap | Enum_fmt nat | Get_fmt | Set_fmt v4l2_format
  | Open_user | Map_user | Unmap_user | Close_user
  | Open_dma | Lseek_dma u32 | Read_dma nat | Close_dma
  | Poke nat u32 | Peek nat | Usleep nat
  | Write_video "u8 list" | Close_video | Free_buffers

record camera =
  framesize :: u64
  linewidth :: u64
  real_width :: nat
  real_height :: nat
  fdwr :: int
  real_video :: "u8 list"
  fpga_frame_buf :: "u8 list"
  vidsendbuf_size :: u64
  c_answer :: "request list \<Rightarrow> request \<Rightarrow> int"
  c_format :: "request list \<Rightarrow> v4l2_format"
  c_frame :: "request list \<Rightarrow> u8 list"
  c_log :: "request list"

text \<open>The program ends with a status or goes wrong; a failed \<open>assert\<close> aborts it.\<close>

datatype stop = Exit int | Abort | Crash fault

type_synonym 'a prog = "stop + 'a"

definition bindp :: "'a prog \<Rightarrow> ('a \<Rightarrow> 'b prog) \<Rightarrow> 'b prog" where
  "bindp r f = (case r of Inl e \<Rightarrow> Inl e | Inr a \<Rightarrow> f a)"

lemma bindp_simps [simp]: "bindp (Inl e) f = Inl e" "bindp (Inr a) f = f a"
  by (simp_all add: bindp_def)

lemma bindp_eq_Inr: "bindp r f = Inr b \<longleftrightarrow> (\<exists>a. r = Inr a \<and> f a = Inr b)"
  by (cases r) simp_all

lemma bindp_cong [fundef_cong]:
  "r = r' \<Longrightarrow> (\<And>a. r' = Inr a \<Longrightarrow> f a = g a) \<Longrightarrow> bindp r f = bindp r' g"
  by (cases r') simp_all

text \<open>An access to a buffer crashes the program when it is out of bounds.\<close>

definition get_byte :: "u8 list \<Rightarrow> nat \<Rightarrow> u8 prog" where
  "get_byte xs i = (if i < length xs then Inr (xs ! i) else Inl (Crash OutOfBounds))"

definition put_byte :: "u8 list \<Rightarrow> nat \<Rightarrow> u8 \<Rightarrow> u8 list prog" where
  "put_byte xs i v = (if i < length xs then Inr (xs[i := v]) else Inl (Crash OutOfBounds))"

definition ask :: "request \<Rightarrow> camera \<Rightarrow> int \<times> camera" where
  "ask q c = (c_answer c (c_log c) q, c\<lparr>c_log := c_log c @ [q]\<rparr>)"

definition tell :: "request \<Rightarrow> camera \<Rightarrow> camera" where
  "tell q c = c\<lparr>c_log := c_log c @ [q]\<rparr>"

subsection \<open>Opening the video device\<close>

definition ROUND_UP_2 :: "u32 \<Rightarrow> u32" where "ROUND_UP_2 n = (n + 1) AND NOT 1"
definition ROUND_UP_4 :: "u32 \<Rightarrow> u32" where "ROUND_UP_4 n = (n + 3) AND NOT 3"
definition ROUND_UP_8 :: "u32 \<Rightarrow> u32" where "ROUND_UP_8 n = (n + 7) AND NOT 7"

text \<open>The line width and the frame size of a format, or nothing when it is not known.\<close>

definition format_properties :: "pixfmt \<Rightarrow> u32 \<Rightarrow> u32 \<Rightarrow> (u64 \<times> u64) option" where
  "format_properties format width height =
     (if format \<in> {YUV420, YVU420} then
        let fw = ucast (ROUND_UP_4 width * ROUND_UP_2 height) :: u64;
            fw = fw + ucast (2 * ((ROUND_UP_8 width div 2) * (ROUND_UP_2 height div 2)) :: u32)
        in Some (ucast width, fw)
      else if format \<in> {UYVY, Y41P, YUYV, YVYU} then
        let lw = ucast (ROUND_UP_2 width * 2 :: u32) :: u64 in Some (lw, lw * ucast height)
      else None)"

text \<open>The loop over the formats that the device offers; the device has \<open>k\<close> of them.\<close>

fun enum_formats :: "nat \<Rightarrow> nat \<Rightarrow> camera \<Rightarrow> camera prog" where
  "enum_formats 0 i c = Inl (Crash NoReturn)"
| "enum_formats (Suc k) i c =
     (let (rc, c) = ask (Enum_fmt i) c in if rc = 0 then enum_formats k (Suc i) c else Inr c)"

text \<open>
  \<open>malloc\<close> of the buffers: their contents are zero here, and nothing is read before it is
  written.
\<close>

definition allocate :: "camera \<Rightarrow> camera" where
  "allocate c = c\<lparr>vidsendbuf_size := framesize c * 2,
     fpga_frame_buf := replicate (XDMA_FRAME_HEIGHT * XDMA_FRAME_WIDTH * 2) 0,
     real_video := replicate (real_width c * real_height c * 2) 0\<rparr>"

definition wanted_format :: "camera \<Rightarrow> v4l2_format" where
  "wanted_format c = \<lparr>f_width = of_nat FRAME_WIDTH, f_height = of_nat FRAME_HEIGHT, f_pixelformat = SRGGB12,
     f_sizeimage = ucast (framesize c), f_bytesperline = ucast (linewidth c)\<rparr>"

text \<open>\<open>VIDIOC_S_FMT\<close> gives back the format that the driver settled on.\<close>

definition open_vpipe :: "nat \<Rightarrow> camera \<Rightarrow> camera prog" where
  "open_vpipe k c =
     (let (fd, c) = ask Open_video c; c = c\<lparr>fdwr := fd\<rparr> in
      if fd < 0 then Inl Abort
      else
        let (rc, c) = ask Query_cap c in
        if rc = - 1 then Inl Abort
        else bindp (enum_formats k 0 c) (\<lambda>c.
          let c = tell Get_fmt c; (rc, c) = ask (Set_fmt (wanted_format c)) c in
          if rc = - 1 then Inl Abort
          else
            let v = c_format c (c_log c);
                c = (case format_properties (f_pixelformat v) (f_width v) (f_height v) of
                       None \<Rightarrow> c | Some (lw, fw) \<Rightarrow> c\<lparr>linewidth := lw, framesize := fw\<rparr>)
            in Inr (allocate (tell Get_fmt c))))"

definition close_vpipe :: "camera \<Rightarrow> camera" where
  "close_vpipe c = tell Close_video (tell Free_buffers c)\<lparr>real_video := [], fpga_frame_buf := []\<rparr>"

subsection \<open>The exposure of a frame\<close>

text \<open>Registers are addressed by their offset in the mapped BAR. The board sets register 4 when the frame is ready.\<close>

fun wait_ready :: "nat \<Rightarrow> camera \<Rightarrow> camera prog" where
  "wait_ready 0 c = Inl (Crash NoReturn)"
| "wait_ready (Suc k) c =
     (let (r, c) = ask (Peek 0x4) (tell (Usleep 100) c) in
      if (word_of_int r :: u32) = 0 then wait_ready k c else Inr c)"

definition exposure_frame :: "nat \<Rightarrow> u16 \<Rightarrow> s32 \<Rightarrow> s32 \<Rightarrow> camera \<Rightarrow> camera prog" where
  "exposure_frame k exposure_time pattern digital_iso c =
     (let (fd, c) = ask Open_user c in
      if fd = - 1 then Inl (Exit 1)
      else
        let (p, c) = ask Map_user c in
        if p = - 1 then Inl (Exit 1)
        else
          let c = tell (Poke 0x10 (if pattern = 1 then 1 else 0)) c;
              c = (if exposure_time \<ge> 0x40 \<or> exposure_time \<le> 0x920 then tell (Poke 0x20 (ucast exposure_time)) c else c);
              c = (if sint digital_iso \<ge> 0 \<or> sint digital_iso \<le> 0xff then tell (Poke 0x30 digital_iso) c else c);
              c = tell (Poke 0x0 1) c
          in bindp (wait_ready k c) (\<lambda>c.
               let c = tell (Poke 0x4 0) c; (rc, c) = ask Unmap_user c in
               if rc = - 1 then Inl (Exit 1) else Inr (tell Close_user c)))"

subsection \<open>Reading a frame\<close>

text \<open>
  One read: the buffer is cleared and takes what the device delivers, \<open>size\<close> bytes at most.
  The sizes are within the buffer.
\<close>

definition read_frame :: "u32 \<Rightarrow> nat \<Rightarrow> camera \<Rightarrow> camera prog" where
  "read_frame addr n c =
     (if n > length (fpga_frame_buf c) then Inl (Crash OutOfBounds)
      else
        let c = tell (Lseek_dma addr) c;
            xs = take n (c_frame c (c_log c));
            buf = xs @ replicate (n - length xs) 0 @ drop n (fpga_frame_buf c)
        in Inr (tell (Read_dma n) (c\<lparr>fpga_frame_buf := buf\<rparr>)))"

fun read_frames :: "nat \<Rightarrow> u32 \<Rightarrow> nat \<Rightarrow> camera \<Rightarrow> camera prog" where
  "read_frames 0 addr n c = Inr c"
| "read_frames (Suc k) addr n c = bindp (read_frame addr n c) (read_frames k addr n)"

text \<open>
  One pixel of the copy loop. \<open>char\<close> is signed: a byte is extended to 16 bits with its sign
  and cut to 8 bits again when it is stored.
\<close>

definition copy_pixel :: "u8 list \<Rightarrow> nat \<Rightarrow> nat \<Rightarrow> nat \<Rightarrow> u8 list \<Rightarrow> u8 list prog" where
  "copy_pixel buffer width raw col video =
     (if raw * XDMA_FRAME_HEIGHT * 2 + col * 2 + 1 \<ge> XDMA_FRAME_WIDTH * XDMA_FRAME_HEIGHT * 2
      then put_byte video (raw * width + col) 0x66
      else
        bindp (get_byte buffer (raw * XDMA_FRAME_WIDTH * 2 + col * 2 + 0)) (\<lambda>b0.
        bindp (get_byte buffer (raw * XDMA_FRAME_WIDTH * 2 + col * 2 + 1)) (\<lambda>b1.
        let pix_12bit_0 = scast b0 :: u16; pix_12bit_1 = scast b1 :: u16 in
        bindp (put_byte video (raw * width * 2 + col * 2 + 0) (ucast pix_12bit_0)) (\<lambda>video.
        put_byte video (raw * width * 2 + col * 2 + 1) (ucast pix_12bit_1)))))"

fun copy_row :: "nat \<Rightarrow> nat \<Rightarrow> u8 list \<Rightarrow> nat \<Rightarrow> nat \<Rightarrow> u8 list \<Rightarrow> u8 list prog" where
  "copy_row 0 col buffer width raw video = Inr video"
| "copy_row (Suc k) col buffer width raw video =
     bindp (copy_pixel buffer width raw col video) (copy_row k (Suc col) buffer width raw)"

fun copy_rows :: "nat \<Rightarrow> nat \<Rightarrow> u8 list \<Rightarrow> nat \<Rightarrow> u8 list \<Rightarrow> u8 list prog" where
  "copy_rows 0 raw buffer width video = Inr video"
| "copy_rows (Suc k) raw buffer width video =
     bindp (copy_row width 0 buffer width raw video) (copy_rows k (Suc raw) buffer width)"

definition get_dma_data :: "u32 \<Rightarrow> nat \<Rightarrow> nat \<Rightarrow> camera \<Rightarrow> camera prog" where
  "get_dma_data addr n k c =
     (let (fd, c) = ask Open_dma c in
      if fd < 0 then Inl Abort
      else bindp (read_frames k addr n c) (\<lambda>c.
        bindp (copy_rows (real_height c) 0 (fpga_frame_buf c) (real_width c) (real_video c)) (\<lambda>v.
          Inr (tell Close_dma (c\<lparr>real_video := v\<rparr>)))))"

definition get_frame :: "nat \<Rightarrow> u16 \<Rightarrow> camera \<Rightarrow> camera prog" where
  "get_frame k pattern c =
     bindp (exposure_frame k 0x40 (ucast pattern) 0x80 c)
       (get_dma_data XDMA_FRAME_BASE_ADDR (XDMA_FRAME_HEIGHT * XDMA_FRAME_WIDTH * 2) 1)"

text \<open>\<open>write\<close> takes its bytes from the buffer.\<close>

definition write_video :: "camera \<Rightarrow> camera prog" where
  "write_video c =
     (let n = real_width c * real_width c * 2 in
      if n > length (real_video c) then Inl (Crash OutOfBounds) else Inr (tell (Write_video (take n (real_video c))) c))"

definition send_frame :: "nat \<Rightarrow> u16 \<Rightarrow> camera \<Rightarrow> camera prog" where
  "send_frame k pattern c = bindp (get_frame k pattern c) write_video"

text \<open>The endless loop, for \<open>n\<close> rounds.\<close>

fun main_loop :: "nat \<Rightarrow> nat \<Rightarrow> camera \<Rightarrow> camera prog" where
  "main_loop k 0 c = Inr c"
| "main_loop k (Suc n) c = bindp (send_frame k 0 c) (\<lambda>c. main_loop k n (tell (Usleep 41000) c))"

definition main :: "nat \<Rightarrow> nat \<Rightarrow> camera \<Rightarrow> camera prog" where
  "main k n c = bindp (open_vpipe k c) (main_loop k n)"

definition start_camera :: "(request list \<Rightarrow> request \<Rightarrow> int) \<Rightarrow> (request list \<Rightarrow> v4l2_format) \<Rightarrow> (request list \<Rightarrow> u8 list) \<Rightarrow> camera" where
  "start_camera ans fmt frame = \<lparr>framesize = of_nat (FRAME_WIDTH * FRAME_HEIGHT * 2), linewidth = of_nat (FRAME_WIDTH * 2),
     real_width = FRAME_WIDTH, real_height = FRAME_HEIGHT, fdwr = - 1, real_video = [], fpga_frame_buf = [], vidsendbuf_size = 0,
     c_answer = ans, c_format = fmt, c_frame = frame, c_log = []\<rparr>"

subsection \<open>The copy loop\<close>

text \<open>
  What the loop is meant to compute: the upper left part of the image. Byte \<open>i\<close> of the video
  is a byte of the same line and the same column of the frame.
\<close>

definition crop :: "nat \<Rightarrow> nat \<Rightarrow> u8 list \<Rightarrow> u8 list" where
  "crop width height buffer =
     map (\<lambda>i. buffer ! (i div (2 * width) * (2 * XDMA_FRAME_WIDTH) + i mod (2 * width))) [0..<2 * width * height]"

lemma byte_through_char: "ucast (scast (b :: u8) :: u16) = b"
  by (rule bit_word_eqI) (auto simp: bit_simps)

text \<open>A pixel whose bytes lie in the buffer is copied as it is.\<close>

lemma copy_pixel_ok:
  assumes "raw * (2 * XDMA_FRAME_WIDTH) + 2 * col + 1 < length buffer" "2 * (raw * width + col) + 1 < length video"
    "raw * (2 * XDMA_FRAME_HEIGHT) + 2 * col + 1 < 2 * XDMA_FRAME_WIDTH * XDMA_FRAME_HEIGHT"
  shows "copy_pixel buffer width raw col video
    = Inr (video[2 * (raw * width + col) := buffer ! (raw * (2 * XDMA_FRAME_WIDTH) + 2 * col),
                 2 * (raw * width + col) + 1 := buffer ! (raw * (2 * XDMA_FRAME_WIDTH) + 2 * col + 1)])"
  using assms by (simp add: copy_pixel_def get_byte_def put_byte_def byte_through_char algebra_simps)


definition cropped :: "u8 list \<Rightarrow> nat \<Rightarrow> nat \<Rightarrow> u8 list \<Rightarrow> bool" where
  "cropped buffer width n video \<longleftrightarrow>
     (\<forall>i<2 * n. video ! i = buffer ! (i div (2 * width) * (2 * XDMA_FRAME_WIDTH) + i mod (2 * width)))"

lemma div_mod_line:
  assumes "j < (m :: nat)"
  shows "(r * m + j) div m = r" "(r * m + j) mod m = j"
  using assms by simp_all

lemma twice_less: "p < N \<Longrightarrow> 2 * N \<le> L \<Longrightarrow> 2 * p + 1 < (L :: nat)"
  by linarith

lemma twice_Suc_less: "i < 2 * (a + Suc b) \<Longrightarrow> i < 2 * (a + b) \<or> i = 2 * (a + b) \<or> i = 2 * (a + b) + (1 :: nat)"
  by presburger

lemma copy_row_ok:
  assumes "col + k = width" "raw * (2 * XDMA_FRAME_WIDTH) + 2 * width \<le> length buffer" "2 * (Suc raw * width) \<le> length video"
    "raw * (2 * XDMA_FRAME_HEIGHT) + 2 * width \<le> 2 * XDMA_FRAME_WIDTH * XDMA_FRAME_HEIGHT" "cropped buffer width (raw * width + col) video"
  shows "\<exists>v. copy_row k col buffer width raw video = Inr v \<and> length v = length video \<and> cropped buffer width (Suc raw * width) v"
  using assms
proof (induction k arbitrary: col video)
  case 0
  then show ?case by (simp add: add.commute)
next
  case (Suc k)
  let ?p = "raw * width + col" and ?s = "raw * (2 * XDMA_FRAME_WIDTH) + 2 * col"
  let ?v = "video[2 * ?p := buffer ! ?s, 2 * ?p + 1 := buffer ! (?s + 1)]"
  have c: "col < width" using Suc.prems(1) by simp
  then have n: "?p < Suc raw * width" by simp
  have r: "copy_pixel buffer width raw col video = Inr ?v"
  proof (rule copy_pixel_ok)
    show "?s + 1 < length buffer" using Suc.prems(2) c by linarith
    show "2 * ?p + 1 < length video" using twice_less [OF n Suc.prems(3)] .
    have "raw * (2 * XDMA_FRAME_HEIGHT) + 2 * col + 1 < raw * (2 * XDMA_FRAME_HEIGHT) + 2 * width" using c by simp
    then show "raw * (2 * XDMA_FRAME_HEIGHT) + 2 * col + 1 < 2 * XDMA_FRAME_WIDTH * XDMA_FRAME_HEIGHT"
      using Suc.prems(4) by (rule less_le_trans)
  qed
  have "cropped buffer width (raw * width + Suc col) ?v"
    unfolding cropped_def
  proof (intro allI impI)
    fix i assume i: "i < 2 * (raw * width + Suc col)"
    have l: "2 * ?p + 1 < length video" by (rule twice_less [OF n Suc.prems(3)])
    consider "i < 2 * ?p" | "i = 2 * ?p" | "i = 2 * ?p + 1" using twice_Suc_less [OF i] by blast
    then show "?v ! i = buffer ! (i div (2 * width) * (2 * XDMA_FRAME_WIDTH) + i mod (2 * width))"
    proof cases
      case 1
      then show ?thesis using Suc.prems(5) by (simp add: cropped_def)
    next
      case 2
      have j: "2 * col < 2 * width" "i = raw * (2 * width) + 2 * col" using c 2 by simp_all
      then have "i div (2 * width) = raw" "i mod (2 * width) = 2 * col" by (simp_all only: div_mod_line)
      then show ?thesis using l 2 by simp
    next
      case 3
      have j: "2 * col + 1 < 2 * width" "i = raw * (2 * width) + (2 * col + 1)" using c 3 by simp_all
      then have "i div (2 * width) = raw" "i mod (2 * width) = 2 * col + 1" by (simp_all only: div_mod_line)
      then show ?thesis using l 3 by simp
    qed
  qed
  from Suc.IH [OF _ Suc.prems(2) _ Suc.prems(4) this] Suc.prems(1,3) show ?case using r by simp
qed

lemma copy_rows_ok:
  assumes "(raw + k) * (2 * XDMA_FRAME_WIDTH) \<le> length buffer" "width \<le> XDMA_FRAME_WIDTH" "2 * (raw + k) * width \<le> length video"
    "(raw + k) * (2 * XDMA_FRAME_HEIGHT) + 2 * width \<le> 2 * XDMA_FRAME_WIDTH * XDMA_FRAME_HEIGHT" "cropped buffer width (raw * width) video"
  shows "\<exists>v. copy_rows (k + m) raw buffer width video = copy_rows m (raw + k) buffer width v \<and> length v = length video
    \<and> cropped buffer width ((raw + k) * width) v"
  using assms
proof (induction k arbitrary: raw video)
  case 0
  then show ?case by auto
next
  case (Suc k)
  have "\<exists>v. copy_row width 0 buffer width raw video = Inr v \<and> length v = length video \<and> cropped buffer width (Suc raw * width) v"
    by (rule copy_row_ok) (use Suc.prems in \<open>auto simp: algebra_simps\<close>)
  then obtain v where v: "copy_row width 0 buffer width raw video = Inr v" "length v = length video" "cropped buffer width (Suc raw * width) v"
    by blast
  have "\<exists>u. copy_rows (k + m) (Suc raw) buffer width v = copy_rows m (Suc raw + k) buffer width u \<and> length u = length v
      \<and> cropped buffer width ((Suc raw + k) * width) u"
    by (rule Suc.IH) (use Suc.prems v in \<open>simp_all\<close>)
  then show ?case using v by simp
qed

text \<open>
  C33: As long as the lines of the video lie within the frame, the copy loop, with its
  detour over signed characters and its test for the end of the frame, computes the crop.
\<close>

theorem copy_rows_crop:
  assumes "length video = 2 * width * height" "width \<le> XDMA_FRAME_WIDTH" "height * (2 * XDMA_FRAME_WIDTH) \<le> length buffer"
    "height \<le> XDMA_FRAME_HEIGHT"
  shows "copy_rows height 0 buffer width video = Inr (crop width height buffer)"
proof -
  have g: "height * (2 * XDMA_FRAME_HEIGHT) + 2 * width \<le> 2 * XDMA_FRAME_WIDTH * XDMA_FRAME_HEIGHT"
    using assms(2,4) by (simp add: XDMA_FRAME_HEIGHT_def XDMA_FRAME_WIDTH_def)
  have "\<exists>v. copy_rows (height + 0) 0 buffer width video = copy_rows 0 (0 + height) buffer width v \<and> length v = length video
    \<and> cropped buffer width ((0 + height) * width) v"
    by (rule copy_rows_ok) (use assms g in \<open>auto simp: cropped_def\<close>)
  then obtain v where v: "copy_rows height 0 buffer width video = Inr v" "length v = length video" "cropped buffer width (height * width) v"
    by auto
  have "v = crop width height buffer"
    by (rule nth_equalityI) (use v assms(1) in \<open>simp_all add: crop_def cropped_def algebra_simps\<close>)
  then show ?thesis using v(1) by simp
qed

text \<open>The sizes of the program: the frame has fewer lines than the video, and the test never fires.\<close>

lemma copy_rows_overruns:
  assumes "length buffer = XDMA_FRAME_HEIGHT * XDMA_FRAME_WIDTH * 2" "length video = FRAME_WIDTH * FRAME_HEIGHT * 2"
  shows "copy_rows FRAME_HEIGHT 0 buffer FRAME_WIDTH video = Inl (Crash OutOfBounds)"
proof -
  have h: "FRAME_HEIGHT = XDMA_FRAME_HEIGHT + 4" by (simp add: FRAME_HEIGHT_def XDMA_FRAME_HEIGHT_def)
  have "\<exists>v. copy_rows (XDMA_FRAME_HEIGHT + 4) 0 buffer FRAME_WIDTH video = copy_rows 4 (0 + XDMA_FRAME_HEIGHT) buffer FRAME_WIDTH v
      \<and> length v = length video \<and> cropped buffer FRAME_WIDTH ((0 + XDMA_FRAME_HEIGHT) * FRAME_WIDTH) v"
    by (rule copy_rows_ok) (use assms in \<open>auto simp: cropped_def XDMA_FRAME_HEIGHT_def XDMA_FRAME_WIDTH_def FRAME_WIDTH_def FRAME_HEIGHT_def\<close>)
  then obtain v where v: "copy_rows FRAME_HEIGHT 0 buffer FRAME_WIDTH video = copy_rows 4 XDMA_FRAME_HEIGHT buffer FRAME_WIDTH v"
    unfolding h by auto
  have "copy_pixel buffer FRAME_WIDTH XDMA_FRAME_HEIGHT 0 v = Inl (Crash OutOfBounds)"
    using assms by (simp add: copy_pixel_def get_byte_def XDMA_FRAME_HEIGHT_def XDMA_FRAME_WIDTH_def)
  then have "copy_row (Suc n) 0 buffer FRAME_WIDTH XDMA_FRAME_HEIGHT v = Inl (Crash OutOfBounds)" for n by simp
  moreover have "FRAME_WIDTH = Suc 2047" by (simp add: FRAME_WIDTH_def)
  ultimately have "copy_row FRAME_WIDTH 0 buffer FRAME_WIDTH XDMA_FRAME_HEIGHT v = Inl (Crash OutOfBounds)" by metis
  then have "copy_rows (Suc m) XDMA_FRAME_HEIGHT buffer FRAME_WIDTH v = Inl (Crash OutOfBounds)" for m by simp
  from this [of 3] show ?thesis using v by (simp del: copy_rows.simps)
qed

subsection \<open>The whole program\<close>

text \<open>What opening the devices leaves alone.\<close>

lemma ask_sel [simp]:
  "real_width (snd (ask q c)) = real_width c" "real_height (snd (ask q c)) = real_height c" "real_video (snd (ask q c)) = real_video c"
  "fpga_frame_buf (snd (ask q c)) = fpga_frame_buf c" "c_answer (snd (ask q c)) = c_answer c" "c_frame (snd (ask q c)) = c_frame c"
  by (simp_all add: ask_def)

lemma tell_sel [simp]:
  "real_width (tell q c) = real_width c" "real_height (tell q c) = real_height c" "real_video (tell q c) = real_video c"
  "fpga_frame_buf (tell q c) = fpga_frame_buf c" "c_answer (tell q c) = c_answer c" "c_frame (tell q c) = c_frame c"
  by (simp_all add: tell_def)

definition same_buffers :: "camera \<Rightarrow> camera \<Rightarrow> bool" where
  "same_buffers c d \<longleftrightarrow> real_width d = real_width c \<and> real_height d = real_height c \<and> real_video d = real_video c
     \<and> fpga_frame_buf d = fpga_frame_buf c \<and> c_answer d = c_answer c"

lemma same_buffers_simps [simp]:
  "same_buffers c c" "same_buffers c (tell q d) = same_buffers c d" "same_buffers (tell q c) d = same_buffers c d"
  "same_buffers c (snd (ask q d)) = same_buffers c d" "same_buffers (snd (ask q c)) d = same_buffers c d"
  by (simp_all add: same_buffers_def)

lemma same_buffers_trans: "same_buffers a b \<Longrightarrow> same_buffers b c \<Longrightarrow> same_buffers a c"
  by (simp add: same_buffers_def)

lemma ask_same [simp]: "ask q c = (r, d) \<Longrightarrow> same_buffers c d"
  by (auto simp: ask_def same_buffers_def)

lemma enum_formats_same: "enum_formats k i c = Inr d \<Longrightarrow> same_buffers c d"
proof (induction k arbitrary: i c)
  case (Suc k)
  obtain r c' where a: "ask (Enum_fmt i) c = (r, c')" by fastforce
  show ?case
  proof (cases "r = 0")
    case True
    then have "enum_formats k (Suc i) c' = Inr d" using Suc.prems a by simp
    from Suc.IH [OF this] ask_same [OF a] show ?thesis by (simp add: same_buffers_def)
  next
    case False
    then show ?thesis using Suc.prems a ask_same [OF a] by simp
  qed
qed simp

lemma wait_ready_same: "wait_ready k c = Inr d \<Longrightarrow> same_buffers c d"
proof (induction k arbitrary: c)
  case (Suc k)
  obtain r c' where a: "ask (Peek 0x4) (tell (Usleep 100) c) = (r, c')" by fastforce
  have s: "same_buffers c c'" using ask_same [OF a] by (simp add: same_buffers_def)
  show ?case
  proof (cases "(word_of_int r :: u32) = 0")
    case True
    then have "wait_ready k c' = Inr d" using Suc.prems a by simp
    from Suc.IH [OF this] s show ?thesis by (simp add: same_buffers_def)
  next
    case False
    then show ?thesis using Suc.prems a s by simp
  qed
qed simp

lemma exposure_same:
  assumes "exposure_frame k t p i c = Inr d"
  shows "same_buffers c d"
  using assms by (auto simp: exposure_frame_def bindp_eq_Inr split_beta Let_def split: if_splits dest!: wait_ready_same)

lemma open_vpipe_buffers:
  assumes "open_vpipe k c = Inr d"
  shows "real_width d = real_width c" "real_height d = real_height c" "c_answer d = c_answer c" "length (real_video d) = real_width c * real_height c * 2"
    "length (fpga_frame_buf d) = XDMA_FRAME_HEIGHT * XDMA_FRAME_WIDTH * 2"
proof -
  let ?c0 = "snd (ask Query_cap ((snd (ask Open_video c))\<lparr>fdwr := fst (ask Open_video c)\<rparr>))"
  obtain e where e: "enum_formats k 0 ?c0 = Inr e"
    and r: "(let c = tell Get_fmt e; (rc, c) = ask (Set_fmt (wanted_format c)) c in
          if rc = - 1 then Inl Abort
          else
            let v = c_format c (c_log c);
                c = (case format_properties (f_pixelformat v) (f_width v) (f_height v) of
                       None \<Rightarrow> c | Some (lw, fw) \<Rightarrow> c\<lparr>linewidth := lw, framesize := fw\<rparr>)
            in Inr (allocate (tell Get_fmt c))) = Inr d"
    using assms by (auto simp: open_vpipe_def bindp_eq_Inr split_beta Let_def split: if_splits)
  have "real_width e = real_width c" "real_height e = real_height c" "c_answer e = c_answer c" using enum_formats_same [OF e] by (simp_all add: same_buffers_def)
  then show "real_width d = real_width c" "real_height d = real_height c" "c_answer d = c_answer c" "length (real_video d) = real_width c * real_height c * 2"
    "length (fpga_frame_buf d) = XDMA_FRAME_HEIGHT * XDMA_FRAME_WIDTH * 2"
    using r by (auto simp: allocate_def split_beta Let_def split: if_splits option.splits)
qed

text \<open>
  C34: The program never hands a frame to the video device: the frame of the board has 1554
  lines, the video 1558, and the test that is meant to stop the copy compares with the
  wrong product, so that the first frame is read beyond the end of its buffer.
\<close>

theorem camera_overruns:
  assumes "open_vpipe k (start_camera ans fmt frame) = Inr c" "exposure_frame k 0x40 (ucast p) 0x80 c = Inr d" "ans (c_log d) Open_dma \<ge> 0"
  shows "send_frame k p c = Inl (Crash OutOfBounds)"
proof -
  note b = open_vpipe_buffers [OF assms(1)]
  have s: "real_width d = FRAME_WIDTH" "real_height d = FRAME_HEIGHT" "length (real_video d) = FRAME_WIDTH * FRAME_HEIGHT * 2"
    "length (fpga_frame_buf d) = XDMA_FRAME_HEIGHT * XDMA_FRAME_WIDTH * 2" "c_answer d = ans"
    using exposure_same [OF assms(2)] b by (simp_all add: same_buffers_def start_camera_def)
  let ?n = "XDMA_FRAME_HEIGHT * XDMA_FRAME_WIDTH * 2"
  obtain e where e: "read_frames 1 XDMA_FRAME_BASE_ADDR ?n (snd (ask Open_dma d)) = Inr e" "real_width e = FRAME_WIDTH" "real_height e = FRAME_HEIGHT"
    "real_video e = real_video d" "length (fpga_frame_buf e) = ?n"
    using s by (simp add: read_frame_def Let_def)
  have "get_dma_data XDMA_FRAME_BASE_ADDR ?n 1 d = Inl (Crash OutOfBounds)"
    using assms(3) s(5) e copy_rows_overruns [of "fpga_frame_buf e" "real_video e"] s(3)
    by (simp add: get_dma_data_def split_beta ask_def)
  then show ?thesis using assms(2) by (simp add: send_frame_def get_frame_def)
qed

text \<open>The tests of the exposure time and of the gain let every value pass.\<close>

lemma exposure_tests:
  "(t :: u16) \<ge> 0x40 \<or> t \<le> 0x920" "sint (i :: s32) \<ge> 0 \<or> sint i \<le> 0xff"
  by (auto simp: word_le_nat_alt not_le)

text \<open>
  An exposure that is granted programs the pattern, the exposure time and the gain,
  whatever their values, before it starts the frame, then polls until the board is ready
  and acknowledges; without an answer of the board it never returns.
\<close>

theorem exposure_protocol:
  assumes "\<forall>l. c_answer c l Open_user \<noteq> - 1 \<and> c_answer c l Map_user \<noteq> - 1 \<and> c_answer c l Unmap_user \<noteq> - 1"
    "\<forall>l. (word_of_int (c_answer c l (Peek 0x4)) :: u32) = 0 \<longleftrightarrow> length l < length (c_log c) + 7 + 2 * n"
  shows "exposure_frame k t p i c =
    (if n < k then Inr (c\<lparr>c_log := c_log c @ [Open_user, Map_user, Poke 0x10 (if p = 1 then 1 else 0), Poke 0x20 (ucast t), Poke 0x30 i, Poke 0x0 1]
        @ concat (replicate (Suc n) [Usleep 100, Peek 0x4]) @ [Poke 0x4 0, Unmap_user, Close_user]\<rparr>)
     else Inl (Crash NoReturn))"
proof -
  have w: "wait_ready j (c\<lparr>c_log := l\<rparr>) = (if m < j then Inr (c\<lparr>c_log := l @ concat (replicate (Suc m) [Usleep 100, Peek 0x4])\<rparr>) else Inl (Crash NoReturn))"
    if "length l + 2 * m = length (c_log c) + 6 + 2 * n" for j l m
    using that
  proof (induction j arbitrary: l m)
    case (Suc j)
    have a: "ask (Peek 0x4) (tell (Usleep 100) (c\<lparr>c_log := l\<rparr>)) = (c_answer c (l @ [Usleep 100]) (Peek 0x4), c\<lparr>c_log := l @ [Usleep 100, Peek 0x4]\<rparr>)"
      by (simp add: ask_def tell_def)
    show ?case
    proof (cases m)
      case 0
      then have "(word_of_int (c_answer c (l @ [Usleep 100]) (Peek 0x4)) :: u32) \<noteq> 0" using assms(2) Suc.prems by simp
      then show ?thesis using a 0 by simp
    next
      case (Suc m')
      then have z: "(word_of_int (c_answer c (l @ [Usleep 100]) (Peek 0x4)) :: u32) = 0" using assms(2) Suc.prems by simp
      have "length (l @ [Usleep 100, Peek 0x4]) + 2 * m' = length (c_log c) + 6 + 2 * n" using Suc.prems Suc by simp
      from Suc.IH [OF this] show ?thesis using a z Suc by simp
    qed
  qed simp
  let ?l = "c_log c @ [Open_user, Map_user, Poke 0x10 (if p = 1 then 1 else 0), Poke 0x20 (ucast t), Poke 0x30 i, Poke 0x0 1]"
  have "exposure_frame k t p i c = bindp (wait_ready k (c\<lparr>c_log := ?l\<rparr>)) (\<lambda>c.
       let c = tell (Poke 0x4 0) c; (rc, c) = ask Unmap_user c in if rc = - 1 then Inl (Exit 1) else Inr (tell Close_user c))"
    using assms(1) exposure_tests(1) [of t] exposure_tests(2) [of i] by (simp add: exposure_frame_def ask_def tell_def split_beta Let_def)
  then show ?thesis using w [where l = ?l and m = n and j = k] assms(1) by (simp add: ask_def tell_def split_beta Let_def)
qed

subsection \<open>Concrete runs\<close>

theorem copy_rows_crop_witness:
  "copy_rows 2 0 (replicate 9000 5) 1 (replicate 4 0) = Inr [5, 5, 5, 5]"
proof -
  have "copy_rows 2 0 (replicate 9000 5) 1 (replicate 4 0) = Inr (crop 1 2 (replicate 9000 5))"
    by (rule copy_rows_crop) (simp_all add: XDMA_FRAME_WIDTH_def XDMA_FRAME_HEIGHT_def)
  moreover have "[0..<4] = [0, 1, 2, 3 :: nat]" by code_simp
  ultimately show ?thesis by (simp add: crop_def XDMA_FRAME_WIDTH_def)
qed

text \<open>A kernel that grants everything and a board that is ready at once.\<close>

definition ready_answer :: "request list \<Rightarrow> request \<Rightarrow> int" where
  "ready_answer l q = (case q of Enum_fmt _ \<Rightarrow> - 1 | _ \<Rightarrow> 3)"

definition odd_format :: "request list \<Rightarrow> v4l2_format" where
  "odd_format l = \<lparr>f_width = 2048, f_height = 1558, f_pixelformat = SRGGB12, f_sizeimage = 0, f_bytesperline = 0\<rparr>"

theorem camera_overruns_witness:
  "\<exists>c. open_vpipe 1 (start_camera ready_answer odd_format (\<lambda>_. [])) = Inr c \<and> send_frame 1 0 c = Inl (Crash OutOfBounds)"
proof -
  let ?c = "start_camera ready_answer odd_format (\<lambda>_. [])"
  have "\<exists>c. open_vpipe 1 ?c = Inr c \<and> c_answer c = ready_answer"
    by (simp add: open_vpipe_def start_camera_def ask_def tell_def ready_answer_def odd_format_def format_properties_def allocate_def)
  then obtain c where c: "open_vpipe 1 ?c = Inr c" "c_answer c = ready_answer" by blast
  have "\<exists>d. exposure_frame 1 0x40 (ucast (0 :: u16)) 0x80 c = Inr d"
    using c(2) by (simp add: exposure_frame_def ask_def tell_def ready_answer_def)
  then obtain d where "exposure_frame 1 0x40 (ucast (0 :: u16)) 0x80 c = Inr d" by blast
  then show ?thesis using camera_overruns [OF c(1), of 0 d] c(1) by (simp add: ready_answer_def)
qed

theorem exposure_protocol_witness:
  "\<exists>c d. exposure_frame 3 0 1 (- 1) c = Inr d \<and> c_log c = [] \<and> length (c_log d) = 13"
proof -
  let ?c = "start_camera (\<lambda>l q. if q = Peek 0x4 \<and> length l < 9 then 0 else 3) odd_format (\<lambda>_. [])"
  have a: "\<forall>l. c_answer ?c l Open_user \<noteq> - 1 \<and> c_answer ?c l Map_user \<noteq> - 1 \<and> c_answer ?c l Unmap_user \<noteq> - 1"
    "\<forall>l. (word_of_int (c_answer ?c l (Peek 0x4)) :: u32) = 0 \<longleftrightarrow> length l < length (c_log ?c) + 7 + 2 * 1"
    by (simp_all add: start_camera_def)
  let ?d = "?c\<lparr>c_log := c_log ?c @ [Open_user, Map_user, Poke 0x10 1, Poke 0x20 (ucast (0 :: u16)), Poke 0x30 (- 1), Poke 0x0 1]
        @ concat (replicate (Suc 1) [Usleep 100, Peek 0x4]) @ [Poke 0x4 0, Unmap_user, Close_user]\<rparr>"
  have "exposure_frame 3 0 1 (- 1) ?c = Inr ?d" using exposure_protocol [OF a, of 3 0 1 "- 1"] by simp
  moreover have "c_log ?c = []" "length (c_log ?d) = 13" by (simp_all add: start_camera_def)
  ultimately show ?thesis by blast
qed

end
