(* ===== verification/Xdma_Ocl.thy ===== *)
theory Xdma_Ocl
  imports Xdma_Device
begin

unbundle bit_operations_syntax

text \<open>
  The accelerator extensions of driver/xdma-ioctl.c, which are compiled with \<open>SD_ACCEL\<close>
  set: the gate between the static and the reconfigurable part of the board, the clock
  wizard with its frequency and its scaling, the reset of the compute units, and the hot
  reset through the root port. The registers are those of the user BAR. The lemmas give the
  protocol of the gate, the exact frequency that the registers stand for, and show that
  scaling drops the fraction of the divider, and that a hot reset restores the
  configuration space it saved.
\<close>

subsection \<open>The state\<close>

text \<open>
  The device with the fields of its structure that only these files use, what the code reads
  of the kernel's PCI device, the process's memory and the files of the firmware loader.
\<close>

record accel =
  ac_dev :: device
  axi_gate_frozen :: bool
  mcap_base :: nat
  clear_bitstream :: "u8 list option"
  clear_bitstream_length :: u32
  feature_id :: u64
  pci_vendor :: u16
  pci_device :: u16
  pci_subvendor :: u16
  pci_subdevice :: u16
  user_memory :: "u64 \<Rightarrow> u8"
  firmware :: "nat \<Rightarrow> u8 list"

definition upd_dev :: "(device \<Rightarrow> device) \<Rightarrow> accel \<Rightarrow> accel" where
  "upd_dev f a = a\<lparr>ac_dev := f (ac_dev a)\<rparr>"

definition acall :: "service \<Rightarrow> accel \<Rightarrow> int \<times> accel" where
  "acall c a = (let (r, d) = dcall c (ac_dev a) in (r, a\<lparr>ac_dev := d\<rparr>))"

definition acall0 :: "service \<Rightarrow> accel \<Rightarrow> accel" where
  "acall0 c = upd_dev (dcall0 c)"

text \<open>The pointer to a register of the user BAR, computed at every access.\<close>

definition user_reg :: "iomem \<Rightarrow> accel \<Rightarrow> iomem run" where
  "user_reg off a = bindr (bar_ptr (d_user_bar_idx (dv (ac_dev a))) (ac_dev a)) (\<lambda>b. Inr (b + off))"

definition user_read :: "iomem \<Rightarrow> accel \<Rightarrow> (u32 \<times> accel) run" where
  "user_read off a = bindr (user_reg off a) (\<lambda>r. let (v, d) = dread r (ac_dev a) in Inr (v, a\<lparr>ac_dev := d\<rparr>))"

definition user_write :: "u32 \<Rightarrow> iomem \<Rightarrow> accel \<Rightarrow> accel run" where
  "user_write v off a = bindr (user_reg off a) (\<lambda>r. Inr (upd_dev (dwrite v r) a))"

definition user_write8 :: "u8 \<Rightarrow> iomem \<Rightarrow> accel \<Rightarrow> accel run" where
  "user_write8 v off a = bindr (user_reg off a) (\<lambda>r. Inr (upd_dev (upd_dwld (iowrite8 v r)) a))"

definition OCL_CTLR_OFFSET :: iomem where "OCL_CTLR_OFFSET = 0x000000"
definition AXI_GATE_OFFSET :: iomem where "AXI_GATE_OFFSET = 0x030000"
definition AXI_GATE_OFFSET_READ :: iomem where "AXI_GATE_OFFSET_READ = 0x030008"
definition OCL_CLKWIZ_STATUS :: iomem where "OCL_CLKWIZ_STATUS = 0x050004"
definition OCL_CLKWIZ_CONFIG :: "nat \<Rightarrow> iomem" where "OCL_CLKWIZ_CONFIG n = 0x050200 + 4 * of_nat n"
definition OCL_CU_CTRL_RANGE :: iomem where "OCL_CU_CTRL_RANGE = 0x1000"
definition XDMA_7V3_INPUT_FREQ :: u64 where "XDMA_7V3_INPUT_FREQ = 100"
definition XDMA_KU3_INPUT_FREQ :: u64 where "XDMA_KU3_INPUT_FREQ = 200"

definition EFAULT :: int where "EFAULT = 14"
definition ENOTTY :: int where "ENOTTY = 25"

text \<open>The identity of the static part of the board, in two words.\<close>

definition FEATURE_ID :: iomem where "FEATURE_ID = 0x031000"

definition find_feature_id :: "accel \<Rightarrow> (u64 \<times> accel) run" where
  "find_feature_id a =
     bindr (user_read FEATURE_ID a) (\<lambda>(low, a).
     bindr (user_read (FEATURE_ID + 8) a) (\<lambda>(high, a). Inr (ucast low OR push_bit 32 (ucast high), a)))"

subsection \<open>The gate\<close>

definition freezeAXIGate :: "accel \<Rightarrow> accel run" where
  "freezeAXIGate a =
     bindr (bug_on (axi_gate_frozen a)) (\<lambda>_.
     bindr (user_read AXI_GATE_OFFSET_READ a) (\<lambda>(_, a).
     bindr (user_write8 0x0 AXI_GATE_OFFSET a) (\<lambda>a.
     bindr (user_read AXI_GATE_OFFSET_READ a) (\<lambda>(_, a).
       Inr (a\<lparr>axi_gate_frozen := True\<rparr>)))))"

text \<open>One of the four writes of \<open>freeAXIGate\<close>, each after a read.\<close>

definition pulse_gate :: "u8 \<Rightarrow> accel \<Rightarrow> accel run" where
  "pulse_gate w a = bindr (user_read AXI_GATE_OFFSET_READ a) (\<lambda>(_, a). user_write8 w AXI_GATE_OFFSET a)"

definition freeAXIGate :: "accel \<Rightarrow> accel run" where
  "freeAXIGate a =
     bindr (bug_on (\<not> axi_gate_frozen a)) (\<lambda>_.
     bindr (pulse_gate 0x2 a) (\<lambda>a.
     bindr (pulse_gate 0x0 a) (\<lambda>a.
     bindr (pulse_gate 0x2 a) (\<lambda>a.
     bindr (pulse_gate 0x3 a) (\<lambda>a.
     bindr (user_read AXI_GATE_OFFSET_READ a) (\<lambda>(_, a).
       Inr (a\<lparr>axi_gate_frozen := False\<rparr>)))))))"

subsection \<open>Compute units\<close>

fun busy_units :: "nat \<Rightarrow> nat \<Rightarrow> u32 \<Rightarrow> accel \<Rightarrow> (u32 \<times> accel) run" where
  "busy_units 0 i result a = Inr (result, a)"
| "busy_units (Suc k) i result a =
     bindr (user_read (OCL_CTLR_OFFSET + of_nat i * OCL_CU_CTRL_RANGE) a) (\<lambda>(r, a).
       busy_units k (Suc i) (if r = 0x1 then result OR push_bit i r else result) a)"

definition compute_unit_busy :: "accel \<Rightarrow> (u32 \<times> accel) run" where
  "compute_unit_busy a =
     bindr (user_read AXI_GATE_OFFSET_READ a) (\<lambda>(r, a).
       if r \<noteq> 0x3 then Inr (0, a) else busy_units 16 0 0 a)"

definition reset_ocl_ioctl :: "accel \<Rightarrow> (int \<times> accel) run" where
  "reset_ocl_ioctl a =
     bindr (compute_unit_busy a) (\<lambda>(busy, a).
       if busy = 0 then Inr (0, a)
       else
         bindr (freezeAXIGate a) (\<lambda>a.
         bindr (freeAXIGate a) (\<lambda>a.
         bindr (compute_unit_busy a) (\<lambda>(busy, a). Inr (if busy \<noteq> 0 then - EBUSY else 0, a)))))"

subsection \<open>The clock\<close>

text \<open>The arithmetic of \<open>get_ocl_frequency\<close> on the two configuration words, in the widths of the code.\<close>

definition clock_frequency :: "u64 \<Rightarrow> u32 \<Rightarrow> u32 \<Rightarrow> u64" where
  "clock_frequency input config0 config2 =
     (let div0 = config0 AND 0xff;
          mul0 = drop_bit 8 (config0 AND 0xff00);
          mul_frac0 = (if bit config0 26 then drop_bit 16 config0 AND 0x3ff else 0);
          mul0 = mul0 * 1000;
          mul0 = mul0 + mul_frac0;
          div0 = div0 * 1000;
          div1 = config2 AND 0xff;
          div_frac1 = (if bit config2 18 then drop_bit 8 config2 AND 0x3ff else 0);
          div1 = div1 * 1000;
          div1 = div1 + div_frac1;
          div0 = div0 * div1;
          mul0 = mul0 * 1000
      in if div0 = 0 then 0 else (input * ucast mul0) div ucast div0)"

definition get_ocl_frequency :: "accel \<Rightarrow> (u64 \<times> accel) run" where
  "get_ocl_frequency a =
     (let input = (if pci_device a = 0x8138 then XDMA_KU3_INPUT_FREQ else XDMA_7V3_INPUT_FREQ) in
      bindr (user_read OCL_CLKWIZ_STATUS a) (\<lambda>(val, a).
        if val AND 1 = 0 then Inr (0, a)
        else
          bindr (user_read (OCL_CLKWIZ_CONFIG 0) a) (\<lambda>(config0, a).
          bindr (user_read (OCL_CLKWIZ_CONFIG 2) a) (\<lambda>(config2, a).
            Inr (clock_frequency input config0 config2, a)))))"

record clockwiz =
  ocl :: nat
  divide :: u32
  divide_frac :: u32

definition frequency_table :: "clockwiz list" where
  "frequency_table = map (\<lambda>(f, d, q). \<lparr>ocl = f, divide = d, divide_frac = q\<rparr>)
     [(25, 0x28, 0x0), (50, 0x14, 0x0), (75, 0xd, 0x14d), (100, 0xa, 0x0), (125, 0x8, 0x0), (150, 0x6, 0x29a),
      (175, 0x5, 0x2ca), (200, 0x5, 0x0), (225, 0x4, 0x1bc), (250, 0x4, 0x0), (275, 0x3, 0x27c), (300, 0x3, 0x14d),
      (325, 0x3, 0x4c), (350, 0x2, 0x359), (375, 0x2, 0x29a), (400, 0x2, 0x1f4)]"

text \<open>The word for the divider: the code masks with the enable bit where it means to set it.\<close>

definition divider_config :: "clockwiz \<Rightarrow> u32" where
  "divider_config e =
     (let config = push_bit 8 (divide_frac e);
          config = (if config \<noteq> 0 then config AND push_bit 18 1 else config)
      in config OR divide e)"

text \<open>The wait for the lock reads the status a thousand times, whatever it reads.\<close>

fun wait_locked :: "nat \<Rightarrow> u32 \<Rightarrow> accel \<Rightarrow> (u32 \<times> accel) run" where
  "wait_locked 0 val a = Inr (val, a)"
| "wait_locked (Suc k) val a = bindr (user_read OCL_CLKWIZ_STATUS a) (\<lambda>(val, a). wait_locked k val a)"

definition scale_clock :: "clockwiz \<Rightarrow> u32 \<Rightarrow> accel \<Rightarrow> (int \<times> accel) run" where
  "scale_clock e config a =
     bindr (user_write config (OCL_CLKWIZ_CONFIG 0) a) (\<lambda>a.
     bindr (user_write (divider_config e) (OCL_CLKWIZ_CONFIG 2) a) (\<lambda>a.
     bindr (user_write 0x00000007 (OCL_CLKWIZ_CONFIG 23) a) (\<lambda>a.
     bindr (user_write 0x00000002 (OCL_CLKWIZ_CONFIG 23) a) (\<lambda>a.
     bindr (wait_locked 1000 1 a) (\<lambda>(val, a).
       if val \<noteq> 1 then
         bindr (user_write 0x00000004 (OCL_CLKWIZ_CONFIG 23) a) (\<lambda>a.
         bindr (user_write 0x00000000 (OCL_CLKWIZ_CONFIG 23) a) (\<lambda>a. Inr (- EINVAL, a)))
       else Inr (0, a))))))"

text \<open>\<open>arg\<close> is the address of the request; \<open>freq\<close> the frequency it asks for.\<close>

definition ocl_freqscaling_ioctl :: "u64 \<Rightarrow> u32 \<Rightarrow> accel \<Rightarrow> (int \<times> accel) run" where
  "ocl_freqscaling_ioctl arg freq a =
     (let config = (if pci_device a = 0x8138 then 0x04000501 else 0x04000a01); (rc, a) = acall (Copy_from_user 0 arg 12) a in
      if rc \<noteq> 0 then Inr (- EFAULT, a)
      else
        bindr (user_read OCL_CLKWIZ_STATUS a) (\<lambda>(val, a).
          if val AND 0x1 = 0 then Inr (- EBUSY, a)
          else
            bindr (compute_unit_busy a) (\<lambda>(busy, a).
              if busy \<noteq> 0 then Inr (- EBUSY, a)
              else
                bindr (array_get frequency_table 0) (\<lambda>e0.
                if freq > 250 \<or> freq < of_nat (ocl e0) then Inr (- EINVAL, a)
                else
                  bindr (get_ocl_frequency a) (\<lambda>(_, a).
                  bindr (array_get frequency_table (unat freq div ocl e0 - 1)) (\<lambda>e.
                  bindr (freezeAXIGate a) (\<lambda>a.
                  bindr (user_read (OCL_CLKWIZ_CONFIG 0) a) (\<lambda>(_, a).
                  bindr (user_read (OCL_CLKWIZ_CONFIG 2) a) (\<lambda>(_, a).
                  bindr (user_read OCL_CLKWIZ_STATUS a) (\<lambda>(val, a).
                  bindr (if val \<noteq> 1 then Inr (- EBUSY, a) else scale_clock e config a) (\<lambda>(err, a).
                  bindr (get_ocl_frequency a) (\<lambda>(_, a).
                  bindr (freeAXIGate a) (\<lambda>a. Inr (err, a))))))))))))))"

subsection \<open>Version and hot reset\<close>

record ioc_info =
  i_vendor :: u16
  i_device :: u16
  i_subvendor :: u16
  i_subdevice :: u16
  i_driver_version :: u32
  i_feature_id :: u64
  i_ocl_frequency :: u32

text \<open>What is copied to the user is returned too.\<close>

definition version_ioctl :: "u64 \<Rightarrow> accel \<Rightarrow> (int \<times> ioc_info option \<times> accel) run" where
  "version_ioctl arg a =
     (let (rc, a) = acall (Copy_from_user 0 arg 40) a in
      if rc \<noteq> 0 then Inr (- EFAULT, None, a)
      else
        bindr (get_ocl_frequency a) (\<lambda>(freq, a).
          let obj = \<lparr>i_vendor = pci_vendor a, i_device = pci_device a, i_subvendor = pci_subvendor a, i_subdevice = pci_subdevice a,
                     i_driver_version = 0x10000, i_feature_id = feature_id a, i_ocl_frequency = ucast freq\<rparr>;
              (rc, a) = acall (Copy_to_user arg 0 40) a
          in Inr (if rc \<noteq> 0 then (- EFAULT, None, a) else (0, Some obj, a))))"

text \<open>The control register of an engine is programmed again after a reset.\<close>

definition reinit_mask :: u32 where
  "reinit_mask = XDMA_CTRL_IE_DESC_STOPPED OR XDMA_CTRL_IE_DESC_COMPLETED OR XDMA_CTRL_IE_DESC_ALIGN_MISMATCH
     OR XDMA_CTRL_IE_MAGIC_STOPPED OR XDMA_CTRL_IE_READ_ERROR OR XDMA_CTRL_IE_DESC_ERROR"

definition engine_reinit :: "nat \<Rightarrow> accel \<Rightarrow> accel run" where
  "engine_reinit n a = bindr (engine_at n (ac_dev a)) (\<lambda>e. Inr (upd_dev (dwrite reinit_mask (e_regs e + er R_interrupt_enable_mask)) a))"

text \<open>\<open>interrupts_enable\<close> is declared but not defined in the repository.\<close>

definition reinit :: "(accel \<Rightarrow> int \<times> accel) \<Rightarrow> accel \<Rightarrow> (int \<times> accel) run" where
  "reinit interrupts_enable a =
     (let (rc, a) = interrupts_enable a;
          slot = (\<lambda>dir c a. case d_engine (dv (ac_dev a)) c dir of None \<Rightarrow> Inr a | Some n \<Rightarrow> engine_reinit n a)
      in bindr (for_loop XDMA_CHANNEL_NUM_MAX 0 (slot 0) a) (\<lambda>a.
         bindr (for_loop XDMA_CHANNEL_NUM_MAX 0 (slot 1) a) (\<lambda>a. Inr (rc, a))))"

text \<open>The card's configuration space, word by word; a word that is not restored is only reported.\<close>

fun save_config :: "nat \<Rightarrow> nat \<Rightarrow> accel \<Rightarrow> u32 list \<times> accel" where
  "save_config 0 i a = ([], a)"
| "save_config (Suc k) i a =
     (let (v, a) = acall (Pci_read_config (4 * i)) a; (vs, a) = save_config k (Suc i) a in (word_of_int v # vs, a))"

fun restore_config :: "nat \<Rightarrow> u32 list \<Rightarrow> accel \<Rightarrow> accel" where
  "restore_config i [] a = a"
| "restore_config i (v # vs) a = restore_config (Suc i) vs (acall0 (Pci_write_config (4 * i) v) a)"

definition PCI_MIN_GNT :: nat where "PCI_MIN_GNT = 0x3e"

text \<open>\<open>root\<close> tells whether the board sits behind a root port.\<close>

definition reset_hot_ioctl :: "(accel \<Rightarrow> int \<times> accel) \<Rightarrow> bool \<Rightarrow> accel \<Rightarrow> (int \<times> accel) run" where
  "reset_hot_ioctl interrupts_enable root a =
     bindr (bug_on (\<not> root)) (\<lambda>_.
     let (p, a) = acall (Kmalloc 0x100) a in
     if p = 0 then Inr (- ENOMEM, a)
     else
       let (pci_cfg, a) = save_config 64 0 a;
           (hot, a) = acall (Pci_read_config_byte PCI_MIN_GNT) a;
           hot = word_of_int hot :: u8;
           a = acall0 (Pci_write_config_byte PCI_MIN_GNT (hot OR 0x40)) a;
           a = acall0 (Pci_write_config_byte PCI_MIN_GNT hot) a;
           a = restore_config 0 pci_cfg a;
           (_, a) = save_config 64 0 a
       in bindr (reinit interrupts_enable a) (\<lambda>(err, a). Inr (err, acall0 (Kfree (word_of_int p)) a)))"

definition reset_device_if_running :: "(accel \<Rightarrow> int \<times> accel) \<Rightarrow> bool \<Rightarrow> accel \<Rightarrow> (int \<times> accel) run" where
  "reset_device_if_running interrupts_enable root a =
     bindr (compute_unit_busy a) (\<lambda>(busy, a).
       if busy = 0 then Inr (0, a)
       else bindr (reset_ocl_ioctl a) (\<lambda>(rc, a). if rc = 0 then Inr (0, a) else reset_hot_ioctl interrupts_enable root a))"

subsection \<open>The registers of the user BAR\<close>

text \<open>The user BAR is mapped at \<open>b\<close>.\<close>

definition user_at :: "iomem \<Rightarrow> accel \<Rightarrow> bool" where
  "user_at b a \<longleftrightarrow> bar_ptr (d_user_bar_idx (dv (ac_dev a))) (ac_dev a) = Inr b"

definition add_log :: "event list \<Rightarrow> accel \<Rightarrow> accel" where
  "add_log es a = a\<lparr>ac_dev := log_add es (ac_dev a)\<rparr>"

abbreviation alog :: "accel \<Rightarrow> event list" where "alog a \<equiv> w_log (dwld (ac_dev a))"
abbreviation answers :: "accel \<Rightarrow> event list \<Rightarrow> iomem \<Rightarrow> u32" where "answers a \<equiv> w_dev (dwld (ac_dev a))"
abbreviation grants :: "accel \<Rightarrow> event list \<Rightarrow> service \<Rightarrow> int" where "grants a \<equiv> w_kern (dwld (ac_dev a))"

lemma add_log_sel [simp]:
  "alog (add_log es a) = alog a @ es" "answers (add_log es a) = answers a" "grants (add_log es a) = grants a"
  "user_at b (add_log es a) = user_at b a" "axi_gate_frozen (add_log es a) = axi_gate_frozen a" "pci_device (add_log es a) = pci_device a"
  "add_log fs (add_log es a) = add_log (es @ fs) a" "add_log [] a = a" "mcap_base (add_log es a) = mcap_base a"
  "clear_bitstream (add_log es a) = clear_bitstream a" "user_memory (add_log es a) = user_memory a"
  "clear_bitstream_length (add_log es a) = clear_bitstream_length a" "firmware (add_log es a) = firmware a"
  by (simp_all add: add_log_def user_at_def log_add_def upd_dwld_def bar_ptr_def)

lemma user_access:
  assumes "user_at b a"
  shows "user_read off a = Inr (answers a (alog a) (b + off), add_log [Rd (b + off)] a)"
    "user_write v off a = Inr (add_log [Wr (b + off) v] a)" "user_write8 u off a = Inr (add_log [Wr8 (b + off) u] a)"
  using assms by (simp_all add: user_read_def user_write_def user_write8_def user_reg_def user_at_def dread_eq dwrite_eq add_log_def log_add_def
      upd_dwld_def upd_dev_def emit_def write_register_def iowrite8_def)

lemma call_log:
  "acall c a = (grants a (alog a) c, add_log [Call c] a)" "acall0 c a = add_log [Call c] a"
  by (simp_all add: acall_def acall0_def dcall_eq dcall0_eq upd_dev_def add_log_def log_add_def upd_dwld_def emit_def kcall0_def)

lemma user_at_frozen [simp]: "user_at b (a\<lparr>axi_gate_frozen := f\<rparr>) = user_at b a"
  by (simp add: user_at_def)

text \<open>What the writes to the gate are, and nothing else of it.\<close>

fun gate_writes :: "iomem \<Rightarrow> event list \<Rightarrow> u8 list" where
  "gate_writes b [] = []"
| "gate_writes b (Wr8 r v # es) = (if r = b + AXI_GATE_OFFSET then v # gate_writes b es else gate_writes b es)"
| "gate_writes b (_ # es) = gate_writes b es"

lemma gate_writes_append [simp]: "gate_writes b (es @ fs) = gate_writes b es @ gate_writes b fs"
  by (induction b es rule: gate_writes.induct) simp_all

lemma freeze_ok:
  assumes "user_at b a" "\<not> axi_gate_frozen a"
  shows "freezeAXIGate a = Inr ((add_log [Rd (b + AXI_GATE_OFFSET_READ), Wr8 (b + AXI_GATE_OFFSET) 0, Rd (b + AXI_GATE_OFFSET_READ)] a)\<lparr>axi_gate_frozen := True\<rparr>)"
  using assms by (simp add: freezeAXIGate_def user_access [where b = b])

lemma free_ok:
  assumes "user_at b a" "axi_gate_frozen a"
  shows "freeAXIGate a = Inr ((add_log (concat (map (\<lambda>v. [Rd (b + AXI_GATE_OFFSET_READ), Wr8 (b + AXI_GATE_OFFSET) v]) [2, 0, 2, 3])
    @ [Rd (b + AXI_GATE_OFFSET_READ)]) a)\<lparr>axi_gate_frozen := False\<rparr>)"
  using assms by (simp add: freeAXIGate_def pulse_gate_def user_access [where b = b])

lemma freeze_twice: "axi_gate_frozen a \<Longrightarrow> freezeAXIGate a = Inl BugOn" "\<not> axi_gate_frozen a \<Longrightarrow> freeAXIGate a = Inl BugOn"
  by (simp_all add: freezeAXIGate_def freeAXIGate_def bug_on_def)

subsection \<open>The frequency\<close>

text \<open>
  The multiplier and the dividers in thousandths. The fields are small enough for the
  numerator; the denominator overflows for dividers that no table of the code uses.
\<close>

definition clock_mul :: "u32 \<Rightarrow> nat" where
  "clock_mul c = unat (drop_bit 8 (c AND 0xff00)) * 1000 + (if bit c 26 then unat (drop_bit 16 c AND 0x3ff) else 0)"

definition clock_div :: "u32 \<Rightarrow> nat" where
  "clock_div c = unat (c AND 0xff) * 1000 + (if bit c 18 then unat (drop_bit 8 c AND 0x3ff) else 0)"

lemma small_fields:
  "unat (drop_bit 8 (c AND 0xff00) :: u32) \<le> 255" "unat (c AND 0xff :: u32) \<le> 255" "unat (drop_bit n c AND 0x3ff :: u32) \<le> 1023"
proof -
  have "drop_bit 8 (c AND 0xff00) = drop_bit 8 c AND 0xff" by (rule bit_word_eqI) (auto simp: bit_simps)
  then show "unat (drop_bit 8 (c AND 0xff00) :: u32) \<le> 255" using unat_and_bound [of "drop_bit 8 c" "0xff"] by simp
  show "unat (c AND 0xff :: u32) \<le> 255" using unat_and_bound [of c "0xff"] by simp
  show "unat (drop_bit n c AND 0x3ff :: u32) \<le> 1023" using unat_and_bound [of "drop_bit n c" "0x3ff"] by simp
qed

lemma clock_fields:
  "unat (drop_bit 8 (c AND 0xff00) * 1000 + (if bit c 26 then drop_bit 16 c AND 0x3ff else 0) :: u32) = clock_mul c"
  "unat ((c AND 0xff) * 1000 + (if bit c 18 then drop_bit 8 c AND 0x3ff else 0) :: u32) = clock_div c"
  using small_fields(1,2) [of c] small_fields(3) [of 16 c] small_fields(3) [of 8 c]
  by (auto simp: clock_mul_def clock_div_def unat_word_ariths)

lemma unat_widen: "unat (ucast (w :: u32) :: u64) = unat w"
  by (rule unat_ucast_small) (rule less_le_trans [OF unsigned_less], simp)

text \<open>
  C39: Within the range of dividers that the driver programs, the frequency computed in 32
  and 64 bit arithmetic is exactly that of the fields of the two registers: the input times
  the multiplier, over the product of the dividers, all with their fractions, rounded down,
  and 0 when a divider is 0.
\<close>

theorem clock_frequency_exact:
  assumes "unat (config0 AND 0xff) \<le> 16" "unat input \<le> 1000"
  shows "unat (clock_frequency input config0 config2)
    = unat input * clock_mul config0 div (unat (config0 AND 0xff) * clock_div config2)"
proof -
  let ?d0 = "unat (config0 AND 0xff)" and ?d1 = "clock_div config2" and ?m = "clock_mul config0"
  have b: "?m \<le> 256023" "?d1 \<le> 256023"
    using small_fields(1,2) [of config0] small_fields(3) [of 16 config0]
      small_fields(2) [of config2] small_fields(3) [of 8 config2] by (auto simp: clock_mul_def clock_div_def)
  have "?d0 * 1000 * ?d1 \<le> 16 * 1000 * 256023" by (intro mult_le_mono assms(1) b order_refl)
  then have d: "?d0 * 1000 * ?d1 < 2 ^ 32" by simp
  let ?div = "(config0 AND 0xff) * 1000 * ((config2 AND 0xff) * 1000 + (if bit config2 18 then drop_bit 8 config2 AND 0x3ff else 0))"
  let ?mul = "(drop_bit 8 (config0 AND 0xff00) * 1000 + (if bit config0 26 then drop_bit 16 config0 AND 0x3ff else 0)) * 1000"
  have k: "unat ((config0 AND 0xff) * 1000) = ?d0 * 1000" using assms(1) by (simp add: unat_word_ariths)
  have ud: "unat ?div = ?d0 * 1000 * ?d1"
    using d unfolding unat_word_ariths(2) [of "(config0 AND 0xff) * 1000"] k clock_fields by simp
  have um: "unat ?mul = ?m * 1000"
    using b(1) by (simp only: unat_word_ariths(2) clock_fields) simp
  have "unat input * (?m * 1000) \<le> 1000 * (256023 * 1000)" by (intro mult_le_mono assms(2) b order_refl)
  then have ui: "unat (input * ucast ?mul) = unat input * (?m * 1000)"
    by (simp only: unat_word_ariths(2) [of input] unat_widen um) simp
  have cu: "unat (ucast ?div :: u64) = ?d0 * 1000 * ?d1" using ud by (simp only: unat_widen)
  show ?thesis
  proof (cases "?div = 0")
    case True
    then have "?d0 * 1000 * ?d1 = 0" using ud by simp
    then show ?thesis using True by (auto simp: clock_frequency_def Let_def)
  next
    case False
    then have "clock_frequency input config0 config2 = (input * ucast ?mul) div ucast ?div"
      by (simp add: clock_frequency_def Let_def)
    then have "unat (clock_frequency input config0 config2) = unat input * (?m * 1000) div (?d0 * 1000 * ?d1)"
      by (simp only: unat_div ui cu)
    also have "\<dots> = unat input * ?m div (?d0 * ?d1)"
      using div_mult_mult1 [of 1000 "unat input * ?m" "?d0 * ?d1"] by (simp add: ac_simps)
    finally show ?thesis .
  qed
qed

subsection \<open>Scaling the clock\<close>

text \<open>No word for a divider has its fraction, or the bit that enables it.\<close>

lemma divider_config_drops: "e \<in> set frequency_table \<Longrightarrow> divider_config e = divide e"
proof -
  have "\<forall>e\<in>set frequency_table. divider_config e = divide e" by code_simp
  then show "e \<in> set frequency_table \<Longrightarrow> divider_config e = divide e" by blast
qed

lemma wait_locked_ok:
  assumes "user_at b a" "\<forall>l. answers a l (b + OCL_CLKWIZ_STATUS) = 1"
  shows "wait_locked k 1 a = Inr (1, add_log (replicate k (Rd (b + OCL_CLKWIZ_STATUS))) a)"
  using assms
proof (induction k arbitrary: a)
  case (Suc k)
  have "user_at b (add_log [Rd (b + OCL_CLKWIZ_STATUS)] a)" using Suc.prems(1) by simp
  from Suc.IH [OF this] Suc.prems show ?case by (simp add: user_access(1) [where b = b])
qed simp

lemma frequency_at: "array_get frequency_table 0 = Inr \<lparr>ocl = 25, divide = 0x28, divide_frac = 0x0\<rparr>"
  by (simp add: array_get_def frequency_table_def)

lemma get_frequency_ok:
  assumes "user_at b a" "\<forall>l. answers a l (b + OCL_CLKWIZ_STATUS) = 1"
  shows "\<exists>f. get_ocl_frequency a = Inr (f, add_log [Rd (b + OCL_CLKWIZ_STATUS), Rd (b + OCL_CLKWIZ_CONFIG 0), Rd (b + OCL_CLKWIZ_CONFIG 2)] a)"
  using assms by (simp add: get_ocl_frequency_def Let_def user_access(1) [where b = b])

lemma not_busy:
  assumes "user_at b a" "\<forall>l. answers a l (b + AXI_GATE_OFFSET_READ) \<noteq> 3"
  shows "compute_unit_busy a = Inr (0, add_log [Rd (b + AXI_GATE_OFFSET_READ)] a)"
  using assms by (simp add: compute_unit_busy_def user_access(1) [where b = b])

lemma scale_clock_ok:
  assumes "user_at b a" "\<forall>l. answers a l (b + OCL_CLKWIZ_STATUS) = 1" "e \<in> set frequency_table"
  shows "scale_clock e config a = Inr (0, add_log ([Wr (b + OCL_CLKWIZ_CONFIG 0) config, Wr (b + OCL_CLKWIZ_CONFIG 2) (divide e),
      Wr (b + OCL_CLKWIZ_CONFIG 23) 7, Wr (b + OCL_CLKWIZ_CONFIG 23) 2] @ replicate 1000 (Rd (b + OCL_CLKWIZ_STATUS))) a)"
proof -
  let ?a = "add_log [Wr (b + OCL_CLKWIZ_CONFIG 0) config, Wr (b + OCL_CLKWIZ_CONFIG 2) (divide e),
      Wr (b + OCL_CLKWIZ_CONFIG 23) 7, Wr (b + OCL_CLKWIZ_CONFIG 23) 2] a"
  have "wait_locked 1000 1 ?a = Inr (1, add_log (replicate 1000 (Rd (b + OCL_CLKWIZ_STATUS))) ?a)"
    by (rule wait_locked_ok) (use assms in simp_all)
  then show ?thesis using assms(1) divider_config_drops [OF assms(3)]
    by (simp add: scale_clock_def user_access(2) [where b = b] del: wait_locked.simps)
qed

lemma quiet_reads [simp]: "writes (replicate k (Rd r)) = []" "gate_writes b (replicate k (Rd r)) = []"
  by (induction k) simp_all

text \<open>The board \<open>a\<close> after the events \<open>es\<close>, with the gate as \<open>x\<close> says: what each part of the scaling makes of it.\<close>

definition seen :: "accel \<Rightarrow> event list \<Rightarrow> bool \<Rightarrow> accel" where
  "seen a es x = add_log es (a\<lparr>axi_gate_frozen := x\<rparr>)"

lemma seen_sel [simp]:
  "user_at b (seen a es x) = user_at b a" "answers (seen a es x) = answers a" "axi_gate_frozen (seen a es x) = x"
  "add_log fs (seen a es x) = seen a (es @ fs) x" "(seen a es x)\<lparr>axi_gate_frozen := y\<rparr> = seen a es y" "alog (seen a es x) = alog a @ es"
  by (simp_all add: seen_def) (simp_all add: add_log_def)

lemma seen_steps:
  assumes "user_at b a"
  shows "user_read off (seen a es x) = Inr (answers a (alog a @ es) (b + off), seen a (es @ [Rd (b + off)]) x)"
    "freezeAXIGate (seen a es False) = Inr (seen a (es @ [Rd (b + AXI_GATE_OFFSET_READ), Wr8 (b + AXI_GATE_OFFSET) 0, Rd (b + AXI_GATE_OFFSET_READ)]) True)"
    "freeAXIGate (seen a es True) = Inr (seen a (es @ concat (map (\<lambda>v. [Rd (b + AXI_GATE_OFFSET_READ), Wr8 (b + AXI_GATE_OFFSET) v]) [2, 0, 2, 3])
      @ [Rd (b + AXI_GATE_OFFSET_READ)]) False)"
  using assms freeze_ok [of b "seen a es False"] free_ok [of b "seen a es True"] by (simp_all add: user_access(1) [where b = b])

abbreviation asked :: "iomem \<Rightarrow> event list" where
  "asked b \<equiv> [Rd (b + OCL_CLKWIZ_STATUS), Rd (b + OCL_CLKWIZ_CONFIG 0), Rd (b + OCL_CLKWIZ_CONFIG 2)]"

abbreviation programmed :: "iomem \<Rightarrow> u32 \<Rightarrow> clockwiz \<Rightarrow> event list" where
  "programmed b c e \<equiv> [Wr (b + OCL_CLKWIZ_CONFIG 0) c, Wr (b + OCL_CLKWIZ_CONFIG 2) (divide e), Wr (b + OCL_CLKWIZ_CONFIG 23) 7,
     Wr (b + OCL_CLKWIZ_CONFIG 23) 2] @ replicate 1000 (Rd (b + OCL_CLKWIZ_STATUS))"

lemma seen_parts:
  assumes "user_at b a" "\<forall>l. answers a l (b + OCL_CLKWIZ_STATUS) = 1"
  shows "\<exists>f. get_ocl_frequency (seen a es x) = Inr (f, seen a (es @ asked b) x)"
    "\<forall>l. answers a l (b + AXI_GATE_OFFSET_READ) \<noteq> 3 \<Longrightarrow> compute_unit_busy (seen a es x) = Inr (0, seen a (es @ [Rd (b + AXI_GATE_OFFSET_READ)]) x)"
    "e \<in> set frequency_table \<Longrightarrow> scale_clock e c (seen a es x) = Inr (0, seen a (es @ programmed b c e) x)"
  using assms get_frequency_ok [of b "seen a es x"] not_busy [of b "seen a es x"] scale_clock_ok [of b "seen a es x" e c] by simp_all

lemma freqscaling_runs:
  assumes "user_at b a" "\<not> axi_gate_frozen a" "\<forall>l. answers a l (b + OCL_CLKWIZ_STATUS) = 1" "\<forall>l. answers a l (b + AXI_GATE_OFFSET_READ) \<noteq> 3"
    "grants a (alog a) (Copy_from_user 0 arg 12) = 0" "25 \<le> freq" "freq \<le> 250"
    and e: "array_get frequency_table (unat freq div 25 - 1) = Inr e" "e \<in> set frequency_table"
  shows "\<exists>es. ocl_freqscaling_ioctl arg freq a = Inr (0, seen a es False)
    \<and> writes es = [(b + OCL_CLKWIZ_CONFIG 0, if pci_device a = 0x8138 then 0x04000501 else 0x04000a01),
        (b + OCL_CLKWIZ_CONFIG 2, divide e), (b + OCL_CLKWIZ_CONFIG 23, 7), (b + OCL_CLKWIZ_CONFIG 23, 2)]
    \<and> gate_writes b es = [0, 2, 0, 2, 3]"
proof -
  let ?c = "if pci_device a = 0x8138 then 0x04000501 else 0x04000a01 :: u32"
  let ?start = "[Call (Copy_from_user 0 arg 12), Rd (b + OCL_CLKWIZ_STATUS), Rd (b + AXI_GATE_OFFSET_READ)]"
  let ?mid = "?start @ asked b @ [Rd (b + AXI_GATE_OFFSET_READ), Wr8 (b + AXI_GATE_OFFSET) 0, Rd (b + AXI_GATE_OFFSET_READ)]
    @ [Rd (b + OCL_CLKWIZ_CONFIG 0), Rd (b + OCL_CLKWIZ_CONFIG 2), Rd (b + OCL_CLKWIZ_STATUS)] @ programmed b ?c e"
  have v: "answers a l (b + OCL_CLKWIZ_STATUS) = 1" for l using assms(3) by blast
  have lim: "\<not> (250 < freq \<or> freq < of_nat 25)" using assms(6,7) by (simp add: not_less)
  have "a = seen a [] False" using assms(2) by (simp add: seen_def)
  then have call: "acall (Copy_from_user 0 arg 12) a = (0, seen a [Call (Copy_from_user 0 arg 12)] False)"
    using assms(5) by (simp add: call_log seen_def)
  obtain f where f: "get_ocl_frequency (seen a ?start False) = Inr (f, seen a (?start @ asked b) False)"
    using seen_parts(1) [OF assms(1,3)] by blast
  obtain f' where f': "get_ocl_frequency (seen a ?mid True) = Inr (f', seen a (?mid @ asked b) True)"
    using seen_parts(1) [OF assms(1,3)] by blast
  have "ocl_freqscaling_ioctl arg freq a = Inr (0, seen a (?mid @ asked b
      @ concat (map (\<lambda>v. [Rd (b + AXI_GATE_OFFSET_READ), Wr8 (b + AXI_GATE_OFFSET) v]) [2, 0, 2, 3]) @ [Rd (b + AXI_GATE_OFFSET_READ)]) False)"
    using f f' e(1) seen_parts(3) [OF assms(1,3) e(2), where c = ?c and x = True] lim
    by (simp add: ocl_freqscaling_ioctl_def call seen_steps [OF assms(1)] v seen_parts(2) [OF assms(1,3,4)] frequency_at)
  then show ?thesis by (intro exI conjI, assumption) simp_all
qed

text \<open>
  C40: A request for a frequency between 25 and 250 MHz on an idle, locked clock succeeds:
  between the freezing and the freeing of the gate it writes the multiplier, then the
  divider of the table without its fraction, and the two load commands. For 75, 150, 175
  and 225 MHz the board runs at another frequency than the one asked for.
\<close>

theorem freqscaling_drops_fraction:
  assumes "user_at b a" "\<not> axi_gate_frozen a" "\<forall>l. answers a l (b + OCL_CLKWIZ_STATUS) = 1" "\<forall>l. answers a l (b + AXI_GATE_OFFSET_READ) \<noteq> 3"
    "grants a (alog a) (Copy_from_user 0 arg 12) = 0" "25 \<le> freq" "freq \<le> 250"
  shows "\<exists>a' es. ocl_freqscaling_ioctl arg freq a = Inr (0, a') \<and> \<not> axi_gate_frozen a' \<and> alog a' = alog a @ es
    \<and> writes es = [(b + OCL_CLKWIZ_CONFIG 0, if pci_device a = 0x8138 then 0x04000501 else 0x04000a01),
        (b + OCL_CLKWIZ_CONFIG 2, divide (frequency_table ! (unat freq div 25 - 1))), (b + OCL_CLKWIZ_CONFIG 23, 7), (b + OCL_CLKWIZ_CONFIG 23, 2)]
    \<and> gate_writes b es = [0, 2, 0, 2, 3]
    \<and> map (\<lambda>e. (ocl e, unat (clock_frequency 200 0x04000501 (divide e)))) (take 10 frequency_table)
      = [(25, 25), (50, 50), (75, 76), (100, 100), (125, 125), (150, 166), (175, 200), (200, 200), (225, 250), (250, 250)]"
proof -
  let ?i = "unat freq div 25 - 1"
  have "25 \<le> unat freq" "unat freq \<le> 250" using assms(6,7) by (simp_all add: word_le_nat_alt)
  then have "?i < length frequency_table" by (simp add: frequency_table_def)
  then have e: "array_get frequency_table ?i = Inr (frequency_table ! ?i)" "frequency_table ! ?i \<in> set frequency_table" by simp_all
  have t: "map (\<lambda>e. (ocl e, unat (clock_frequency 200 0x04000501 (divide e)))) (take 10 frequency_table)
      = [(25, 25), (50, 50), (75, 76), (100, 100), (125, 125), (150, 166), (175, 200), (200, 200), (225, 250), (250, 250)]" by code_simp
  from freqscaling_runs [OF assms e] obtain es where es: "ocl_freqscaling_ioctl arg freq a = Inr (0, seen a es False)"
    "writes es = [(b + OCL_CLKWIZ_CONFIG 0, if pci_device a = 0x8138 then 0x04000501 else 0x04000a01),
        (b + OCL_CLKWIZ_CONFIG 2, divide (frequency_table ! ?i)), (b + OCL_CLKWIZ_CONFIG 23, 7), (b + OCL_CLKWIZ_CONFIG 23, 2)]"
    "gate_writes b es = [0, 2, 0, 2, 3]" by blast
  show ?thesis by (rule exI [of _ "seen a es False"], rule exI [of _ es]) (simp add: es t)
qed

subsection \<open>The gate is left open\<close>

text \<open>
  The writes that take the gate from open to open: 0 closes it, and the sequence that frees
  it ends with 3, which opens it. In \<open>gate_at\<close> the user BAR is mapped at \<open>b\<close>, the flag says
  whether the gate is frozen, and the writes to the gate since the log \<open>l\<close> are \<open>n\<close> times those
  from open to open, and the one that closes it once more when it is frozen. The rules run
  a command to its end.
\<close>

abbreviation open_to_open :: "u8 list" where "open_to_open \<equiv> [0, 2, 0, 2, 3]"

definition gate_at :: "iomem \<Rightarrow> event list \<Rightarrow> nat \<Rightarrow> bool \<Rightarrow> accel \<Rightarrow> bool" where
  "gate_at b l n f a \<longleftrightarrow> user_at b a \<and> axi_gate_frozen a = f
     \<and> (\<exists>es. alog a = l @ es \<and> gate_writes b es = concat (replicate n open_to_open) @ (if f then [0] else []))"

lemma gate_at_log: "gate_writes b es = [] \<Longrightarrow> gate_at b l n f a \<Longrightarrow> gate_at b l n f (add_log es a)"
  by (auto simp: gate_at_def)

lemma gate_at_here: "user_at b a \<Longrightarrow> \<not> axi_gate_frozen a \<Longrightarrow> gate_at b (alog a) 0 False a"
  by (simp add: gate_at_def)

lemma replicate_snoc: "concat (replicate n xs) @ xs = concat (replicate (Suc n) xs)"
  by (induction n) simp_all

lemma run_ok_bindr: "run_ok P (bindr m f) \<longleftrightarrow> run_ok (\<lambda>x. run_ok P (f x)) m"
  by (cases m) (simp_all add: run_ok_def)

lemma run_ok_Inr [simp]: "run_ok P (Inr x) = P x"
  by (simp add: run_ok_def)

lemma run_ok_mono: "run_ok Q m \<Longrightarrow> (\<And>x. Q x \<Longrightarrow> P x) \<Longrightarrow> run_ok P m"
  by (auto simp: run_ok_iff)

lemma gate_steps:
  assumes "gate_at b l n f a"
  shows "run_ok (\<lambda>(v, a). gate_at b l n f a) (user_read off a)" "run_ok (gate_at b l n f) (user_write v off a)"
    "gate_at b l n f (snd (acall c a))" "gate_at b l n f (acall0 c a)"
proof -
  have u: "user_at b a" using assms by (simp add: gate_at_def)
  show "run_ok (\<lambda>(v, a). gate_at b l n f a) (user_read off a)" "run_ok (gate_at b l n f) (user_write v off a)"
    "gate_at b l n f (snd (acall c a))" "gate_at b l n f (acall0 c a)"
    by (simp_all add: user_access [OF u] call_log gate_at_log [OF _ assms])
qed

lemma gate_bindr:
  assumes "run_ok (\<lambda>(v, a). gate_at b l n f a) m" "\<And>v a. gate_at b l n f a \<Longrightarrow> run_ok P (k v a)"
  shows "run_ok P (bindr m (\<lambda>(v, a). k v a))"
  using assms by (auto simp: run_ok_bindr run_ok_iff)

lemma gate_bindr':
  assumes "run_ok (gate_at b l n f) m" "\<And>a. gate_at b l n f a \<Longrightarrow> run_ok P (k a)"
  shows "run_ok P (bindr m k)"
  using assms by (auto simp: run_ok_bindr run_ok_iff)

lemmas gate_read = gate_bindr [OF gate_steps(1)]
lemmas gate_write = gate_bindr' [OF gate_steps(2)]

text \<open>Freezing closes the gate; freeing it completes the sequence, and counts.\<close>

lemma gate_freeze:
  assumes "gate_at b l n False a"
  shows "run_ok (gate_at b l n True) (freezeAXIGate a)"
proof -
  have u: "user_at b a" "\<not> axi_gate_frozen a" using assms by (simp_all add: gate_at_def)
  show ?thesis using assms by (auto simp: freeze_ok [OF u] gate_at_def)
qed

lemma gate_free:
  assumes "gate_at b l n True a"
  shows "run_ok (gate_at b l (Suc n) False) (freeAXIGate a)"
proof -
  have u: "user_at b a" "axi_gate_frozen a" using assms by (simp_all add: gate_at_def)
  show ?thesis using assms replicate_snoc [of n open_to_open]
    by (auto simp: free_ok [OF u] gate_at_def)
qed

lemma gate_busy_units: "gate_at b l n f a \<Longrightarrow> run_ok (\<lambda>(v, a). gate_at b l n f a) (busy_units k i r a)"
proof (induction k arbitrary: i r a)
  case (Suc k)
  then show ?case by (auto intro!: gate_read)
qed simp

lemma gate_busy: "gate_at b l n f a \<Longrightarrow> run_ok (\<lambda>(v, a). gate_at b l n f a) (compute_unit_busy a)"
  by (auto simp: compute_unit_busy_def intro!: gate_read gate_busy_units)

lemma gate_frequency: "gate_at b l n f a \<Longrightarrow> run_ok (\<lambda>(v, a). gate_at b l n f a) (get_ocl_frequency a)"
  by (auto simp: get_ocl_frequency_def Let_def intro!: gate_read)

lemma gate_wait: "gate_at b l n f a \<Longrightarrow> run_ok (\<lambda>(v, a). gate_at b l n f a) (wait_locked k v a)"
proof (induction k arbitrary: v a)
  case (Suc k)
  then show ?case by (auto intro!: gate_read)
qed simp

lemma gate_scale: "gate_at b l n f a \<Longrightarrow> run_ok (\<lambda>(v, a). gate_at b l n f a) (scale_clock e c a)"
  unfolding scale_clock_def
  by (intro gate_write gate_bindr [OF gate_wait] | assumption | rule if_splits)+ (auto intro!: gate_write)

text \<open>The index into the table of frequencies is in range when the range test has passed.\<close>

lemma table_bindr:
  assumes "\<not> 250 < freq" "\<not> freq < (25 :: u32)" "\<And>e. run_ok P (k e)"
  shows "run_ok P (bindr (array_get frequency_table (unat freq div 25 - Suc 0)) k)"
proof -
  have "25 \<le> unat freq" "unat freq \<le> 250" using assms(1,2) by (simp_all add: word_le_nat_alt not_less)
  then have "unat freq div 25 - Suc 0 < 16" by linarith
  then show ?thesis using assms(3) by (simp add: array_get_def frequency_table_def)
qed

text \<open>
  A request either leaves the gate alone or takes it from open to open once; scaling that
  reports success has done so, and so has a reset that reports an error.
\<close>

abbreviation gate_kept :: "iomem \<Rightarrow> event list \<Rightarrow> nat \<Rightarrow> bool \<Rightarrow> accel \<Rightarrow> bool" where
  "gate_kept b l n touched a \<equiv> gate_at b l (Suc n) False a \<or> \<not> touched \<and> gate_at b l n False a"

lemma gate_freqscaling:
  assumes "gate_at b l n False a"
  shows "run_ok (\<lambda>(rc, a). gate_kept b l n (rc = 0) a) (ocl_freqscaling_ioctl arg freq a)"
proof -
  have arg: "gate_at b l n False (snd (acall (Copy_from_user 0 arg 12) a))" using assms by (rule gate_steps(3))
  have scaled: "run_ok (\<lambda>(rc, a). gate_at b l n True a) (if val \<noteq> 1 then Inr (- EBUSY, a) else scale_clock e c a)"
    if "gate_at b l n True a" for val e c a
    using that by (simp add: gate_scale)
  have work: "run_ok (\<lambda>(rc, a). gate_kept b l n (rc = 0) a)
      (bindr (freezeAXIGate a) (\<lambda>a. bindr (user_read (OCL_CLKWIZ_CONFIG 0) a) (\<lambda>(_, a). bindr (user_read (OCL_CLKWIZ_CONFIG 2) a) (\<lambda>(_, a).
       bindr (user_read OCL_CLKWIZ_STATUS a) (\<lambda>(val, a). bindr (if val \<noteq> 1 then Inr (- EBUSY, a) else scale_clock e c a) (\<lambda>(err, a).
       bindr (get_ocl_frequency a) (\<lambda>(_, a). bindr (freeAXIGate a) (\<lambda>a. Inr (err, a)))))))))"
    if "gate_at b l n False a" for e c a
    by (intro gate_bindr' [OF gate_freeze [OF that]] gate_read gate_bindr [OF scaled] gate_bindr [OF gate_frequency]
        gate_bindr' [OF gate_free]; (assumption | auto))
  show ?thesis
    unfolding ocl_freqscaling_ioctl_def Let_def
    using arg
    by (auto simp: frequency_at EBUSY_def EINVAL_def EFAULT_def split: prod.splits
        intro!: gate_read gate_bindr [OF gate_busy] gate_bindr [OF gate_frequency] table_bindr work)
qed

lemma gate_reset:
  "gate_at b l n False a \<Longrightarrow> run_ok (\<lambda>(rc, a). gate_kept b l n (rc \<noteq> 0) a) (reset_ocl_ioctl a)"
  unfolding reset_ocl_ioctl_def
  by (auto intro!: gate_bindr [OF gate_busy] gate_bindr' [OF gate_freeze] gate_bindr' [OF gate_free])

lemma gate_version: "gate_at b l n f a \<Longrightarrow> run_ok (\<lambda>(rc, obj, a). gate_at b l n f a) (version_ioctl arg a)"
  unfolding version_ioctl_def Let_def
  using gate_steps(3) [of b l n f]
  by (auto split: prod.splits simp: call_log gate_at_log intro!: gate_bindr [OF gate_frequency [where b = b and l = l and n = n and f = f]])

text \<open>The requests that touch the gate or only look at the board, as a machine.\<close>

inductive gate_step :: "accel \<Rightarrow> accel \<Rightarrow> bool" where
  scaling: "ocl_freqscaling_ioctl arg freq a = Inr (rc, a') \<Longrightarrow> gate_step a a'"
| resetting: "reset_ocl_ioctl a = Inr (rc, a') \<Longrightarrow> gate_step a a'"
| asking: "version_ioctl arg a = Inr (rc, obj, a') \<Longrightarrow> gate_step a a'"

abbreviation gate_open :: "iomem \<Rightarrow> event list \<Rightarrow> accel \<Rightarrow> bool" where
  "gate_open b l a \<equiv> \<exists>n. gate_at b l n False a"

lemma gate_step_open: "gate_step a a' \<Longrightarrow> gate_open b l a \<Longrightarrow> gate_open b l a'"
proof (induction rule: gate_step.induct)
  case (scaling arg freq a rc a')
  then show ?case using gate_freqscaling [of b l _ a arg freq] by (fastforce simp: run_ok_iff)
next
  case (resetting a rc a')
  then show ?case using gate_reset [of b l _ a] by (fastforce simp: run_ok_iff)
next
  case (asking arg a rc obj a')
  then show ?case using gate_version [of b l _ False a arg] by (fastforce simp: run_ok_iff)
qed

interpretation gate_machine: state_machine "gate_open b l" gate_step "gate_open b l" for b l
  by unfold_locales (assumption, rule gate_step_open, assumption, assumption)

lemma gate_kept_writes:
  "gate_kept b (alog a) 0 t a' \<Longrightarrow> \<exists>es. alog a' = alog a @ es \<and> \<not> axi_gate_frozen a'
    \<and> (gate_writes b es = open_to_open \<or> \<not> t \<and> gate_writes b es = [])"
  by (auto simp: gate_at_def)

text \<open>
  C38: With the user BAR mapped and the gate open at first, the writes to the gate's register
  during any sequence of requests are whole rounds, each from closing it to the 3 that
  opens it. The next request, to scale the clock or to reset the compute units, returns
  whatever the registers answer and whatever frequency is asked for, its flag says that
  the gate is open, and it either wrote exactly one such round or nothing at all to the
  gate; scaling that reports success and a reset that reports an error have written the
  round. So no path leaves the gate closed, freezes it twice or reads the table of
  frequencies out of its bounds.
\<close>

theorem gate_left_open:
  assumes "user_at b a0" "\<not> axi_gate_frozen a0" "gate_step\<^sup>*\<^sup>* a0 a"
  shows "(\<exists>n es. alog a = alog a0 @ es \<and> gate_writes b es = concat (replicate n open_to_open))
    \<and> (\<exists>rc a' es. ocl_freqscaling_ioctl arg freq a = Inr (rc, a') \<and> \<not> axi_gate_frozen a' \<and> alog a' = alog a @ es
        \<and> (gate_writes b es = open_to_open \<or> rc \<noteq> 0 \<and> gate_writes b es = []))
    \<and> (\<exists>rc a' es. reset_ocl_ioctl a = Inr (rc, a') \<and> \<not> axi_gate_frozen a' \<and> alog a' = alog a @ es
        \<and> (gate_writes b es = open_to_open \<or> rc = 0 \<and> gate_writes b es = []))"
proof -
  have "gate_open b (alog a0) a0" using gate_at_here [OF assms(1,2)] by blast
  from gate_machine.reach_good [OF this assms(3)] obtain n where n: "gate_at b (alog a0) n False a" by blast
  then have h: "gate_at b (alog a) 0 False a" using gate_at_here [of b a] by (simp add: gate_at_def)
  from n have "\<exists>n es. alog a = alog a0 @ es \<and> gate_writes b es = concat (replicate n open_to_open)"
    by (auto simp: gate_at_def)
  moreover obtain rc a' where s: "ocl_freqscaling_ioctl arg freq a = Inr (rc, a')" "gate_kept b (alog a) 0 (rc = 0) a'"
    using gate_freqscaling [OF h, of arg freq] by (auto simp: run_ok_iff)
  moreover obtain rc' a'' where r: "reset_ocl_ioctl a = Inr (rc', a'')" "gate_kept b (alog a) 0 (rc' \<noteq> 0) a''"
    using gate_reset [OF h] by (auto simp: run_ok_iff)
  ultimately show ?thesis using gate_kept_writes [OF s(2)] gate_kept_writes [OF r(2)] by auto
qed

subsection \<open>The hot reset\<close>

text \<open>The words read are those the device answers in turn; the words written back are the same.\<close>

lemma save_config_log:
  "save_config k i a = (map (\<lambda>j. word_of_int (grants a (alog a @ map (\<lambda>m. Call (Pci_read_config (4 * m))) [i..<j]) (Pci_read_config (4 * j)))) [i..<i + k],
     add_log (map (\<lambda>m. Call (Pci_read_config (4 * m))) [i..<i + k]) a)"
proof (induction k arbitrary: i a)
  case (Suc k)
  have u: "[i..<i + Suc k] = i # [Suc i..<Suc i + k]" by (simp add: upt_conv_Cons del: upt_Suc)
  have v: "[i..<j] = i # [Suc i..<j]" if "j \<in> set [Suc i..<Suc i + k]" for j using that by (simp add: upt_conv_Cons del: upt_Suc)
  show ?case unfolding u by (simp add: Suc.IH call_log v)
qed simp

lemma restore_config_log:
  "restore_config i vs a = add_log (map (\<lambda>j. Call (Pci_write_config (4 * (i + j)) (vs ! j))) [0..<length vs]) a"
proof (induction vs arbitrary: i a)
  case (Cons v vs)
  show ?case by (simp add: Cons.IH call_log upt_rec [of 0 "Suc (length vs)"] map_Suc_upt [symmetric] o_def ac_simps del: upt_Suc)
qed simp

lemma hot_reset_restores:
  assumes "grants a (alog a) (Kmalloc 0x100) \<noteq> 0"
    and cfg: "cfg = map (\<lambda>j. word_of_int (grants a (alog a @ Call (Kmalloc 0x100) # map (\<lambda>m. Call (Pci_read_config (4 * m))) [0..<j])
      (Pci_read_config (4 * j)))) [0..<64]"
  shows "\<exists>hot. reset_hot_ioctl f True a
    = bindr (reinit f (add_log (Call (Kmalloc 0x100) # map (\<lambda>m. Call (Pci_read_config (4 * m))) [0..<64]
        @ [Call (Pci_read_config_byte PCI_MIN_GNT), Call (Pci_write_config_byte PCI_MIN_GNT (hot OR 0x40)), Call (Pci_write_config_byte PCI_MIN_GNT hot)]
        @ map (\<lambda>j. Call (Pci_write_config (4 * j) (cfg ! j))) [0..<64] @ map (\<lambda>m. Call (Pci_read_config (4 * m))) [0..<64]) a))
      (\<lambda>(err, a'). Inr (err, acall0 (Kfree (word_of_int (grants a (alog a) (Kmalloc 0x100)))) a'))"
proof -
  have l: "length cfg = 64" by (simp add: cfg)
  let ?a = "add_log (Call (Kmalloc 0x100) # map (\<lambda>m. Call (Pci_read_config (4 * m))) [0..<64]) a"
  have s: "save_config 64 0 (add_log [Call (Kmalloc 0x100)] a) = (cfg, ?a)" by (simp add: save_config_log cfg)
  have s2: "save_config 64 0 b = (fst (save_config 64 0 b), add_log (map (\<lambda>m. Call (Pci_read_config (4 * m))) [0..<64]) b)" for b
    by (simp add: save_config_log)
  show ?thesis
    by (rule exI [of _ "word_of_int (grants a (alog ?a) (Pci_read_config_byte PCI_MIN_GNT))"], subst reset_hot_ioctl_def, subst s2)
      (use assms(1) in \<open>simp add: call_log s restore_config_log l Let_def bug_on_def del: upt_Suc save_config.simps\<close>)
qed

subsection \<open>Concrete runs\<close>

text \<open>A board that answers 1 everywhere, so that the clock is locked and the gate closed to the compute units.\<close>

definition sample_accel :: accel where
  "sample_accel = \<lparr>ac_dev = fresh_device\<lparr>dv := no_dev\<lparr>d_bar := [0x10000, 0, 0, 0, 0, 0], d_user_bar_idx := 0\<rparr>,
       dwld := idle_world\<lparr>w_dev := (\<lambda>_ _. 1), w_kern := (\<lambda>_ _. 0)\<rparr>\<rparr>,
     axi_gate_frozen = False, mcap_base = 0, clear_bitstream = None, clear_bitstream_length = 0, feature_id = 0, pci_vendor = 0x10ee,
     pci_device = 0x8138, pci_subvendor = 0, pci_subdevice = 0, user_memory = (\<lambda>_. 0), firmware = (\<lambda>_. [])\<rparr>"

lemma sample_accel_sel:
  "user_at 0x10000 sample_accel" "\<not> axi_gate_frozen sample_accel" "answers sample_accel l r = 1"
  "grants sample_accel l (Copy_from_user 0 0 12) = 0" "alog sample_accel = []" "pci_device sample_accel = 0x8138"
  by (simp_all add: sample_accel_def user_at_def bar_ptr_def array_get_def fresh_device_def no_dev_def idle_world_def)

theorem clock_frequency_exact_witness: "unat (clock_frequency 200 0x04000501 0x0d) = 76"
proof -
  have "clock_mul 0x04000501 = 5000" "clock_div 0x0d = 13000" "unat (0x04000501 AND 0xff :: u32) = 1" by code_simp+
  then show ?thesis using clock_frequency_exact [of "0x04000501" 200 "0x0d"] by simp
qed

theorem freqscaling_drops_fraction_witness:
  "\<exists>a'. ocl_freqscaling_ioctl 0 75 sample_accel = Inr (0, a')
     \<and> writes (alog a') = [(0x60200, 0x04000501), (0x60208, 0x0d), (0x6025c, 7), (0x6025c, 2)]"
proof -
  have "divide (frequency_table ! 2) = 0x0d" by code_simp
  then show ?thesis
    using freqscaling_drops_fraction [where b = "0x10000" and a = sample_accel and arg = 0 and freq = 75]
    by (auto simp: sample_accel_sel OCL_CLKWIZ_CONFIG_def)
qed

text \<open>A request that scales the clock to 75 MHz, and a reset after it.\<close>

theorem gate_left_open_witness:
  "\<exists>a1 a2 rc es. ocl_freqscaling_ioctl 0 75 sample_accel = Inr (0, a1) \<and> \<not> axi_gate_frozen a1 \<and> gate_writes 0x10000 (alog a1) = [0, 2, 0, 2, 3]
     \<and> reset_ocl_ioctl a1 = Inr (rc, a2) \<and> \<not> axi_gate_frozen a2 \<and> alog a2 = alog a1 @ es \<and> gate_writes 0x10000 es \<in> {[0, 2, 0, 2, 3], []}"
proof -
  have e: "array_get frequency_table (unat (75 :: u32) div 25 - 1) = Inr (frequency_table ! 2)" "frequency_table ! 2 \<in> set frequency_table"
    by (simp_all add: array_get_def frequency_table_def)
  obtain a1 where run: "ocl_freqscaling_ioctl 0 75 sample_accel = Inr (0, a1)"
    using freqscaling_runs [of "0x10000" sample_accel 0 75, OF _ _ _ _ _ _ _ e] by (auto simp: sample_accel_sel)
  then have "gate_step\<^sup>*\<^sup>* sample_accel a1" by (blast intro: gate_step.scaling)
  then show ?thesis
    using run gate_left_open [where b = "0x10000" and ?a0.0 = sample_accel and a = sample_accel and arg = 0 and freq = 75]
      gate_left_open [where b = "0x10000" and ?a0.0 = sample_accel and a = a1 and arg = 0 and freq = 75]
    by (auto simp: sample_accel_sel)
qed

end
