(* ===== verification/Xdma_Bitstream.thy ===== *)
theory Xdma_Bitstream
  imports Xdma_Ocl
begin

unbundle bit_operations_syntax

text \<open>
  The download of bitstreams, driver/xdma-bit.c, and the dispatch of its ioctls in
  driver/xdma-ioctl.c; both are compiled with \<open>SD_ACCEL\<close> set. A bitstream file starts with
  a header of counted fields; its words go to the board through the write FIFO of the ICAP
  or through the MCAP registers of the configuration space. A buffer is the list of its
  bytes, and moving a pointer forward drops bytes, so that reading behind the buffer is the
  fault \<open>OutOfBounds\<close>; the memory of the process is a function. The lemmas give the round
  trip of the header, the words that reach the board, and the verdicts that are wrong.
\<close>

subsection \<open>The header of a bitstream\<close>

text \<open>An allocated name is its pointer with its bytes.\<close>

record XHwIcap_Bit_Header =
  HeaderLength :: u32
  BitstreamLength :: u32
  DesignName :: "u64 \<times> u8 list"
  PartName :: "u64 \<times> u8 list"
  Date_name :: "u64 \<times> u8 list"
  Time_name :: "u64 \<times> u8 list"
  MagicLength :: u32

definition zero_header :: XHwIcap_Bit_Header where
  "zero_header = \<lparr>HeaderLength = 0, BitstreamLength = 0, DesignName = (0, []), PartName = (0, []), Date_name = (0, []),
     Time_name = (0, []), MagicLength = 0\<rparr>"

definition XHI_BIT_HEADER_FAILURE :: u32 where "XHI_BIT_HEADER_FAILURE = - 1"
definition XHI_EVEN_MAGIC_BYTE :: u8 where "XHI_EVEN_MAGIC_BYTE = 0x0f"
definition XHI_ODD_MAGIC_BYTE :: u8 where "XHI_ODD_MAGIC_BYTE = 0xf0"
definition DMA_HWICAP_BITFILE_BUFFER_SIZE :: nat where "DMA_HWICAP_BITFILE_BUFFER_SIZE = 1024"

text \<open>Two bytes of the header, the more significant one first.\<close>

definition half_word :: "u8 list \<Rightarrow> nat \<Rightarrow> u32 run" where
  "half_word data i = bindr (array_get data i) (\<lambda>x. bindr (array_get data (i + 1)) (\<lambda>y. Inr (push_bit 8 (ucast x) OR ucast y)))"

fun header_magic :: "nat \<Rightarrow> nat \<Rightarrow> u8 list \<Rightarrow> nat \<Rightarrow> bool run" where
  "header_magic 0 i data index = Inr True"
| "header_magic (Suc k) i data index =
     bindr (array_get data index) (\<lambda>tmp.
       if even i \<and> tmp \<noteq> XHI_EVEN_MAGIC_BYTE then Inr False
       else if odd i \<and> tmp \<noteq> XHI_ODD_MAGIC_BYTE then Inr False
       else header_magic k (Suc i) data (Suc index))"

fun read_bytes :: "nat \<Rightarrow> nat \<Rightarrow> u8 list \<Rightarrow> u8 list run" where
  "read_bytes 0 index data = Inr []"
| "read_bytes (Suc k) index data =
     bindr (array_get data index) (\<lambda>x. bindr (read_bytes k (Suc index) data) (\<lambda>xs. Inr (x # xs)))"

text \<open>
  A counted field, read four times in the same way: the name is copied to memory that is
  not checked, and its last byte is looked at, which does not exist when the count is 0.
  The result has the name, whether it ends with a null, and the index behind it.
\<close>

definition header_field :: "u8 list \<Rightarrow> nat \<Rightarrow> accel \<Rightarrow> ((u64 \<times> u8 list) \<times> bool \<times> nat \<times> accel) run" where
  "header_field data index a =
     bindr (half_word data index) (\<lambda>len.
     let (p, a) = acall (Kmalloc (unat len)) a; p = word_of_int p in
     if p = 0 \<and> len \<noteq> 0 then Inl NullDeref
     else
       bindr (read_bytes (unat len) (index + 2) data) (\<lambda>name.
       bindr (array_get name (unat (len - 1))) (\<lambda>z. Inr ((p, name), z = 0, index + 2 + unat len, a))))"

text \<open>The argument \<open>Size\<close> of the parser is not used by it.\<close>

definition bitstream_parse_header :: "u8 list \<Rightarrow> XHwIcap_Bit_Header \<Rightarrow> accel \<Rightarrow> (int \<times> XHwIcap_Bit_Header \<times> accel) run" where
  "bitstream_parse_header data h a =
     (let h = h\<lparr>HeaderLength := XHI_BIT_HEADER_FAILURE\<rparr> in
      bindr (half_word data 0) (\<lambda>ml.
      let h = h\<lparr>MagicLength := ml\<rparr>; index = 2 + unat (ml - 1) in
      bindr (header_magic (unat (ml - 1)) 0 data 2) (\<lambda>ok. if \<not> ok then Inr (- 1, h, a) else
      bindr (array_get data index) (\<lambda>_.
      bindr (half_word data (index + 1)) (\<lambda>tmp. if tmp \<noteq> 0x01 then Inr (- 1, h, a) else
      bindr (array_get data (index + 3)) (\<lambda>tmp. if tmp \<noteq> 0x61 then Inr (- 1, h, a) else
      bindr (header_field data (index + 4) a) (\<lambda>(name, ok, index, a).
      let h = h\<lparr>DesignName := name\<rparr> in if \<not> ok then Inr (- 1, h, a) else
      bindr (array_get data index) (\<lambda>tmp. if tmp \<noteq> 0x62 then Inr (- 1, h, a) else
      bindr (header_field data (index + 1) a) (\<lambda>(name, ok, index, a).
      let h = h\<lparr>PartName := name\<rparr> in if \<not> ok then Inr (- 1, h, a) else
      bindr (array_get data index) (\<lambda>tmp. if tmp \<noteq> 0x63 then Inr (- 1, h, a) else
      bindr (header_field data (index + 1) a) (\<lambda>(name, ok, index, a).
      let h = h\<lparr>Date_name := name\<rparr> in if \<not> ok then Inr (- 1, h, a) else
      bindr (array_get data index) (\<lambda>tmp. if tmp \<noteq> 0x64 then Inr (- 1, h, a) else
      bindr (header_field data (index + 1) a) (\<lambda>(name, ok, index, a).
      let h = h\<lparr>Time_name := name\<rparr> in if \<not> ok then Inr (- 1, h, a) else
      bindr (array_get data index) (\<lambda>tmp. if tmp \<noteq> 0x65 then Inr (- 1, h, a) else
      bindr (half_word data (index + 1)) (\<lambda>hi. bindr (half_word data (index + 3)) (\<lambda>lo.
        Inr (0, h\<lparr>BitstreamLength := push_bit 16 hi OR lo, HeaderLength := of_nat (index + 5)\<rparr>, a)))))))))))))))))"

definition free_header :: "XHwIcap_Bit_Header \<Rightarrow> accel \<Rightarrow> accel" where
  "free_header h a = acall0 (Kfree (fst (Time_name h))) (acall0 (Kfree (fst (Date_name h)))
     (acall0 (Kfree (fst (PartName h))) (acall0 (Kfree (fst (DesignName h))) a)))"

text \<open>A word of the buffer as \<open>be32_to_cpu\<close> gives it.\<close>

definition be_word :: "u8 list \<Rightarrow> nat \<Rightarrow> u32 run" where
  "be_word buf i = bindr (half_word buf (4 * i)) (\<lambda>hi. bindr (half_word buf (4 * i + 2)) (\<lambda>lo. Inr (push_bit 16 hi OR lo)))"

subsection \<open>The ICAP\<close>

definition HWICAP_OFFSET :: iomem where "HWICAP_OFFSET = 0x020000"
definition XHWICAP_WF :: iomem where "XHWICAP_WF = HWICAP_OFFSET + 0x100"
definition XHWICAP_CR :: iomem where "XHWICAP_CR = HWICAP_OFFSET + 0x10c"
definition XHWICAP_SR :: iomem where "XHWICAP_SR = HWICAP_OFFSET + 0x110"
definition XHWICAP_WFV :: iomem where "XHWICAP_WFV = HWICAP_OFFSET + 0x114"

fun done_polls :: "nat \<Rightarrow> accel \<Rightarrow> (int \<times> accel) run" where
  "done_polls 0 a = Inr (- EIO, a)"
| "done_polls (Suc k) a = bindr (user_read XHWICAP_SR a) (\<lambda>(w, a). if w AND 0x5 \<noteq> 0 then Inr (0, a) else done_polls k a)"

definition wait_for_done :: "accel \<Rightarrow> (int \<times> accel) run" where
  "wait_for_done a = done_polls 10 a"

fun fifo_words :: "nat \<Rightarrow> nat \<Rightarrow> u8 list \<Rightarrow> accel \<Rightarrow> accel run" where
  "fifo_words 0 i buf a = Inr a"
| "fifo_words (Suc k) i buf a = bindr (be_word buf i) (\<lambda>v. bindr (user_write v XHWICAP_WF a) (fifo_words k (Suc i) buf))"

fun control_polls :: "nat \<Rightarrow> accel \<Rightarrow> (int \<times> accel) run" where
  "control_polls 0 a = Inr (- EIO, a)"
| "control_polls (Suc k) a = bindr (user_read XHWICAP_CR a) (\<lambda>(v, a). if v AND 0x1 = 0 then Inr (0, a) else control_polls k a)"

definition hwicapWrite :: "u8 list \<Rightarrow> nat \<Rightarrow> accel \<Rightarrow> (int \<times> accel) run" where
  "hwicapWrite word_buf n a =
     bindr (fifo_words n 0 word_buf a) (\<lambda>a.
     bindr (user_write 0x1 XHWICAP_CR a) (control_polls 10))"

text \<open>The vacancy is a signed number in the code.\<close>

function bitstream_icap_helper :: "u8 list \<Rightarrow> nat \<Rightarrow> accel \<Rightarrow> (int \<times> accel) run" where
  "bitstream_icap_helper word_buffer remain_word a =
     (if remain_word = 0 then Inr (0, a)
      else
        bindr (user_read XHWICAP_WFV a) (\<lambda>(wr_fifo_vacancy, a).
          if sint wr_fifo_vacancy \<le> 0 then Inr (- EIO, a)
          else
            bindr (hwicapWrite word_buffer (min (unat wr_fifo_vacancy) remain_word) a) (\<lambda>(rc, a).
              if rc \<noteq> 0 then Inr (- EIO, a)
              else bitstream_icap_helper (drop (4 * min (unat wr_fifo_vacancy) remain_word) word_buffer)
                     (remain_word - min (unat wr_fifo_vacancy) remain_word) a)))"
  by pat_completeness auto

lemma positive_unat: "0 < sint w \<Longrightarrow> 0 < unat w"
  by (cases "w = 0") (simp_all add: unat_gt_0)

termination bitstream_icap_helper
  by (relation "measure (\<lambda>(_, r, _). r)") (auto simp: not_le dest!: positive_unat)

text \<open>The pieces of a bitstream in the kernel's memory; the first result tells whether the loop was left.\<close>

function icap_pieces :: "nat \<Rightarrow> u8 list \<Rightarrow> accel \<Rightarrow> (bool \<times> accel) run" where
  "icap_pieces remaining buffer a =
     (if remaining = 0 then Inr (False, a)
      else
        bindr (bitstream_icap_helper buffer (min remaining DMA_HWICAP_BITFILE_BUFFER_SIZE div 4) a) (\<lambda>(err, a).
          if err \<noteq> 0 then Inr (True, a)
          else icap_pieces (remaining - min remaining DMA_HWICAP_BITFILE_BUFFER_SIZE) (drop (min remaining DMA_HWICAP_BITFILE_BUFFER_SIZE) buffer) a))"
  by pat_completeness auto

termination icap_pieces
  by (relation "measure fst") (auto simp: DMA_HWICAP_BITFILE_BUFFER_SIZE_def)

definition bitstream_icap :: "u8 list \<Rightarrow> u32 \<Rightarrow> accel \<Rightarrow> (int \<times> accel) run" where
  "bitstream_icap buffer len a =
     bindr (bug_on (len = 0)) (\<lambda>_.
     bindr (bitstream_parse_header buffer zero_header a) (\<lambda>(rc, h, a).
       if rc \<noteq> 0 then Inr (- EINVAL, free_header h a)
       else if HeaderLength h + BitstreamLength h > len then Inr (- EINVAL, free_header h a)
       else
         bindr (icap_pieces (unat (BitstreamLength h)) (drop (unat (HeaderLength h)) buffer) a) (\<lambda>(left, a).
           if left then Inr (0, free_header h a)
           else bindr (wait_for_done a) (\<lambda>(rc, a). Inr (if rc \<noteq> 0 then - EIO else 0, free_header h a)))))"

definition bitstream_clear_icap :: "accel \<Rightarrow> (int \<times> accel) run" where
  "bitstream_clear_icap a =
     (case clear_bitstream a of None \<Rightarrow> Inr (0, a)
      | Some buffer \<Rightarrow>
          bindr (bitstream_icap buffer (clear_bitstream_length a) a) (\<lambda>(err, a).
            Inr (err, (acall0 Vfree a)\<lparr>clear_bitstream := None, clear_bitstream_length := 0\<rparr>)))"

text \<open>The bytes of the process's memory from an address on.\<close>

definition user_bytes :: "u64 \<Rightarrow> nat \<Rightarrow> accel \<Rightarrow> u8 list" where
  "user_bytes p n a = map (\<lambda>i. user_memory a (p + of_nat i)) [0..<n]"

text \<open>The pieces of a bitstream in the process's memory, each copied to the buffer first.\<close>

function icap_user_pieces :: "nat \<Rightarrow> u64 \<Rightarrow> u8 list \<Rightarrow> accel \<Rightarrow> ((int \<times> bool) \<times> accel) run" where
  "icap_user_pieces remaining bit_buf buffer a =
     (if remaining = 0 then Inr ((0, False), a)
      else
        let n = min remaining DMA_HWICAP_BITFILE_BUFFER_SIZE; (rc, a) = acall (Copy_from_user 0 bit_buf n) a in
        if rc \<noteq> 0 then Inr ((- EFAULT, True), a)
        else
          let buffer = user_bytes bit_buf n a @ drop n buffer in
          bindr (bitstream_icap_helper buffer (n div 4) a) (\<lambda>(err, a).
            if err \<noteq> 0 then Inr ((0, True), a)
            else icap_user_pieces (remaining - n) (bit_buf + of_nat n) buffer a))"
  by pat_completeness auto

termination icap_user_pieces
  by (relation "measure fst") (auto simp: DMA_HWICAP_BITFILE_BUFFER_SIZE_def)

text \<open>The label \<open>free_buffers\<close>; \<open>p\<close> is the buffer or null.\<close>

definition release_download :: "int \<Rightarrow> u64 \<Rightarrow> XHwIcap_Bit_Header \<Rightarrow> accel \<Rightarrow> (int \<times> accel) run" where
  "release_download err p h a = bindr (freeAXIGate a) (\<lambda>a. Inr (err, free_header h (acall0 (Kfree p) a)))"

definition bitstream_ioctl_icap :: "u64 \<Rightarrow> u64 \<Rightarrow> accel \<Rightarrow> (int \<times> accel) run" where
  "bitstream_ioctl_icap bit_buf len a =
     bindr (freezeAXIGate a) (\<lambda>a.
     bindr (bitstream_clear_icap a) (\<lambda>(err, a).
     if err \<noteq> 0 then release_download err 0 zero_header a
     else
       let (p, a) = acall (Kmalloc DMA_HWICAP_BITFILE_BUFFER_SIZE) a; p = word_of_int p in
       if p = 0 then release_download (- ENOMEM) 0 zero_header a
       else
         let (rc, a) = acall (Copy_from_user 0 bit_buf DMA_HWICAP_BITFILE_BUFFER_SIZE) a in
         if rc \<noteq> 0 then release_download (- EFAULT) p zero_header a
         else
           let buffer = user_bytes bit_buf DMA_HWICAP_BITFILE_BUFFER_SIZE a in
           bindr (bitstream_parse_header buffer zero_header a) (\<lambda>(rc, h, a).
           if rc \<noteq> 0 then release_download (- EINVAL) p h a
           else if ucast (HeaderLength h + BitstreamLength h) > len then release_download (- EINVAL) p h a
           else
             bindr (icap_user_pieces (unat (BitstreamLength h)) (bit_buf + ucast (HeaderLength h)) buffer a) (\<lambda>((err, left), a).
             if left then release_download err p h a
             else bindr (wait_for_done a) (\<lambda>(rc, a). release_download (if rc \<noteq> 0 then - EIO else 0) p h a)))))"

subsection \<open>The MCAP\<close>

definition MCAP_STATUS :: nat where "MCAP_STATUS = 0x10"
definition MCAP_CONTROL :: nat where "MCAP_CONTROL = 0x14"
definition MCAP_DATA :: nat where "MCAP_DATA = 0x18"
definition MCAP_CTRL_MODE_MASK :: u32 where "MCAP_CTRL_MODE_MASK = push_bit 0 1"
definition MCAP_CTRL_REG_READ_MASK :: u32 where "MCAP_CTRL_REG_READ_MASK = push_bit 1 1"
definition MCAP_CTRL_RESET_MASK :: u32 where "MCAP_CTRL_RESET_MASK = push_bit 4 1"
definition MCAP_CTRL_MOD_RESET_MASK :: u32 where "MCAP_CTRL_MOD_RESET_MASK = push_bit 5 1"
definition MCAP_CTRL_IN_USE_MASK :: u32 where "MCAP_CTRL_IN_USE_MASK = push_bit 8 1"
definition MCAP_CTRL_DESIGN_SWITCH_MASK :: u32 where "MCAP_CTRL_DESIGN_SWITCH_MASK = push_bit 12 1"
definition MCAP_CTRL_DATA_REG_PROT_MASK :: u32 where "MCAP_CTRL_DATA_REG_PROT_MASK = push_bit 16 1"
definition MCAP_STS_ERR_MASK :: u32 where "MCAP_STS_ERR_MASK = push_bit 0 1"
definition MCAP_STS_EOS_MASK :: u32 where "MCAP_STS_EOS_MASK = push_bit 1 1"
definition MCAP_STS_REG_READ_CMP_MASK :: u32 where "MCAP_STS_REG_READ_CMP_MASK = push_bit 4 1"
definition MCAP_STS_FIFO_OVERFLOW_MASK :: u32 where "MCAP_STS_FIFO_OVERFLOW_MASK = push_bit 8 1"
definition MCAP_STS_CFG_MCAP_REQ_MASK :: u32 where "MCAP_STS_CFG_MCAP_REQ_MASK = push_bit 24 1"
definition MCAP_LOOP_COUNT :: nat where "MCAP_LOOP_COUNT = 1000000"
definition EMCAP_EOS_RETRY_COUNT :: nat where "EMCAP_EOS_RETRY_COUNT = 10"
definition EMCAP_EOS_LOOP_COUNT :: nat where "EMCAP_EOS_LOOP_COUNT = 100"
definition EMCAP_NOOP_VAL :: u32 where "EMCAP_NOOP_VAL = 0x2000000"

definition MCapRegWrite :: "nat \<Rightarrow> u32 \<Rightarrow> accel \<Rightarrow> accel" where
  "MCapRegWrite offset v a = acall0 (Pci_write_config (mcap_base a + offset) v) a"

definition MCapRegRead :: "nat \<Rightarrow> accel \<Rightarrow> u32 \<times> accel" where
  "MCapRegRead offset a = (let (v, a) = acall (Pci_read_config (mcap_base a + offset)) a in (word_of_int v, a))"

text \<open>The six tests of one bit of a register, each a read.\<close>

definition mcap_test :: "nat \<Rightarrow> u32 \<Rightarrow> accel \<Rightarrow> bool \<times> accel" where
  "mcap_test offset m a = (let (v, a) = MCapRegRead offset a in (v AND m \<noteq> 0, a))"

definition IsResetSet :: "accel \<Rightarrow> bool \<times> accel" where
  "IsResetSet = mcap_test MCAP_CONTROL MCAP_CTRL_RESET_MASK"
definition IsModuleResetSet :: "accel \<Rightarrow> bool \<times> accel" where
  "IsModuleResetSet = mcap_test MCAP_CONTROL MCAP_CTRL_MOD_RESET_MASK"
definition IsConfigureMCapReqSet :: "accel \<Rightarrow> bool \<times> accel" where
  "IsConfigureMCapReqSet = mcap_test MCAP_STATUS MCAP_STS_CFG_MCAP_REQ_MASK"
definition IsErrSet :: "accel \<Rightarrow> bool \<times> accel" where
  "IsErrSet = mcap_test MCAP_STATUS MCAP_STS_ERR_MASK"
definition IsRegReadComplete :: "accel \<Rightarrow> bool \<times> accel" where
  "IsRegReadComplete = mcap_test MCAP_STATUS MCAP_STS_REG_READ_CMP_MASK"
definition IsFifoOverflow :: "accel \<Rightarrow> bool \<times> accel" where
  "IsFifoOverflow = mcap_test MCAP_STATUS MCAP_STS_FIFO_OVERFLOW_MASK"

text \<open>C's \<open>||\<close> on tests that read: the second is made only when the first is false.\<close>

definition or_else :: "(accel \<Rightarrow> bool \<times> accel) \<Rightarrow> (accel \<Rightarrow> bool \<times> accel) \<Rightarrow> accel \<Rightarrow> bool \<times> accel" where
  "or_else f g a = (let (x, a) = f a in if x then (True, a) else g a)"

definition unless :: "(accel \<Rightarrow> bool \<times> accel) \<Rightarrow> accel \<Rightarrow> bool \<times> accel" where
  "unless f a = (let (x, a) = f a in (\<not> x, a))"

text \<open>The loop \<open>do ... while (loop--)\<close>: the value of \<open>loop\<close> behind it, \<open>- 1\<close> when it has run out.\<close>

fun request_loop :: "nat \<Rightarrow> accel \<Rightarrow> int \<times> accel" where
  "request_loop loop a =
     (let (req, a) = IsConfigureMCapReqSet a in
      if \<not> req then (int loop, a) else (case loop of 0 \<Rightarrow> (- 1, a) | Suc l \<Rightarrow> request_loop l a))"

definition MCapClearRequestByConfigure :: "accel \<Rightarrow> int \<times> u32 \<times> accel" where
  "MCapClearRequestByConfigure a =
     (let (restore, a) = MCapRegRead MCAP_CONTROL a; set0 = restore; (req, a) = IsConfigureMCapReqSet a in
      if req then
        let set0 = set0 OR (MCAP_CTRL_MODE_MASK OR MCAP_CTRL_IN_USE_MASK);
            a = MCapRegWrite MCAP_CONTROL set0 a;
            (loop, a) = request_loop MCAP_LOOP_COUNT a
        in if loop = 0 then (- EIO, restore, MCapRegWrite MCAP_CONTROL restore a) else (0, restore, a)
      else (0, restore, a))"

definition noops :: "nat \<Rightarrow> accel \<Rightarrow> accel" where
  "noops n a = (MCapRegWrite MCAP_DATA EMCAP_NOOP_VAL ^^ n) a"

fun completion_loop :: "nat \<Rightarrow> u32 \<Rightarrow> accel \<Rightarrow> int \<times> accel" where
  "completion_loop retries sts a =
     (if sts AND MCAP_STS_EOS_MASK \<noteq> 0 then (0, a)
      else
        let a = noops EMCAP_EOS_LOOP_COUNT a; (sts, a) = MCapRegRead MCAP_STATUS a
        in case retries of 0 \<Rightarrow> (- EIO, a) | Suc r \<Rightarrow> completion_loop r sts a)"

definition Checkforcompletion :: "accel \<Rightarrow> int \<times> accel" where
  "Checkforcompletion a = (let (sts, a) = MCapRegRead MCAP_STATUS a in completion_loop EMCAP_EOS_RETRY_COUNT sts a)"

definition MCapFullReset :: "accel \<Rightarrow> int \<times> accel" where
  "MCapFullReset a =
     (let (err, restore, a) = MCapClearRequestByConfigure a in
      if err \<noteq> 0 then (err, a)
      else
        let (set0, a) = MCapRegRead MCAP_CONTROL a;
            set0 = set0 OR (MCAP_CTRL_MODE_MASK OR MCAP_CTRL_IN_USE_MASK OR MCAP_CTRL_RESET_MASK OR MCAP_CTRL_MOD_RESET_MASK);
            a = MCapRegWrite MCAP_CONTROL set0 a;
            (bad, a) = or_else IsErrSet (or_else (unless IsModuleResetSet) (unless IsResetSet)) a
        in if bad then (- EIO, MCapRegWrite MCAP_CONTROL restore a) else (0, MCapRegWrite MCAP_CONTROL restore a))"

definition bitstream_mcap_setup :: "bool \<Rightarrow> accel \<Rightarrow> int \<times> u32 \<times> accel" where
  "bitstream_mcap_setup design_switch a =
     (let (err, restore, a) = MCapClearRequestByConfigure a in
      if err \<noteq> 0 then (err, restore, a)
      else
        let (bad, a) = or_else IsErrSet (or_else IsRegReadComplete IsFifoOverflow) a in
        if bad then (- EIO, restore, MCapRegWrite MCAP_CONTROL restore a)
        else
          let (set0, a) = MCapRegRead MCAP_CONTROL a;
              set0 = set0 OR (MCAP_CTRL_MODE_MASK OR MCAP_CTRL_IN_USE_MASK OR MCAP_CTRL_DATA_REG_PROT_MASK);
              set0 = set0 AND NOT (MCAP_CTRL_RESET_MASK OR MCAP_CTRL_MOD_RESET_MASK OR MCAP_CTRL_REG_READ_MASK);
              set0 = (if design_switch then set0 AND NOT MCAP_CTRL_DESIGN_SWITCH_MASK else set0)
          in (0, restore, MCapRegWrite MCAP_CONTROL set0 a))"

fun data_words :: "nat \<Rightarrow> nat \<Rightarrow> u8 list \<Rightarrow> accel \<Rightarrow> accel run" where
  "data_words 0 i buf a = Inr a"
| "data_words (Suc k) i buf a = bindr (be_word buf i) (\<lambda>v. data_words k (Suc i) buf (MCapRegWrite MCAP_DATA v a))"

definition bitstream_mcap_helper :: "u8 list \<Rightarrow> nat \<Rightarrow> accel \<Rightarrow> (int \<times> accel) run" where
  "bitstream_mcap_helper word_buffer word_count a = bindr (data_words word_count 0 word_buffer a) (\<lambda>a. Inr (0, a))"

definition bitstream_clear_mcap :: "accel \<Rightarrow> (int \<times> accel) run" where
  "bitstream_clear_mcap a =
     (case clear_bitstream a of None \<Rightarrow> Inr (0, a)
      | Some buffer \<Rightarrow>
          bindr (bitstream_parse_header buffer zero_header a) (\<lambda>(rc, h, a).
            if rc \<noteq> 0 then Inr (- EINVAL, free_header h a)
            else if HeaderLength h + BitstreamLength h > clear_bitstream_length a then Inr (- EINVAL, free_header h a)
            else
              bindr (bitstream_mcap_helper (drop (unat (HeaderLength h)) buffer) (unat (BitstreamLength h) div 4) a) (\<lambda>(_, a).
                Inr (0, free_header h ((acall0 Vfree a)\<lparr>clear_bitstream := None, clear_bitstream_length := 0\<rparr>)))))"

text \<open>The pieces of a bitstream in the process's memory.\<close>

function mcap_user_pieces :: "nat \<Rightarrow> u64 \<Rightarrow> u8 list \<Rightarrow> accel \<Rightarrow> (int \<times> accel) run" where
  "mcap_user_pieces remaining bit_buf buffer a =
     (if remaining = 0 then Inr (0, a)
      else
        let n = min remaining DMA_HWICAP_BITFILE_BUFFER_SIZE; (rc, a) = acall (Copy_from_user 0 bit_buf n) a in
        if rc \<noteq> 0 then Inr (- EFAULT, a)
        else
          let buffer = user_bytes bit_buf n a @ drop n buffer in
          bindr (bitstream_mcap_helper buffer (n div 4) a) (\<lambda>(_, a).
            mcap_user_pieces (remaining - n) (bit_buf + of_nat n) buffer a))"
  by pat_completeness auto

termination mcap_user_pieces
  by (relation "measure fst") (auto simp: DMA_HWICAP_BITFILE_BUFFER_SIZE_def)

text \<open>
  After the data: the check that the board has taken it, and the reset when it has not.
  Both downloads through the MCAP end with it.
\<close>

definition mcap_finish :: "u32 \<Rightarrow> accel \<Rightarrow> int \<times> accel" where
  "mcap_finish restore a =
     (let (err, a) = Checkforcompletion a;
          (bad, a) = (if err \<noteq> 0 then (True, a) else or_else IsErrSet IsFifoOverflow a)
      in if bad then (- EIO, snd (MCapFullReset (MCapRegWrite MCAP_CONTROL restore a))) else (0, a))"

definition bitstream_ioctl_mcap :: "u64 \<Rightarrow> u64 \<Rightarrow> accel \<Rightarrow> (int \<times> accel) run" where
  "bitstream_ioctl_mcap bit_buf len a =
     (if bit_buf = 0 \<or> len = 0 then Inr (- EINVAL, a)
      else
        bindr (freezeAXIGate a) (\<lambda>a.
        let (p, a) = acall (Kmalloc DMA_HWICAP_BITFILE_BUFFER_SIZE) a; p = word_of_int p in
        if p = 0 then release_download (- ENOMEM) 0 zero_header a
        else
          let (rc, a) = acall (Copy_from_user 0 bit_buf DMA_HWICAP_BITFILE_BUFFER_SIZE) a in
          if rc \<noteq> 0 then release_download (- EFAULT) p zero_header a
          else
            let buffer = user_bytes bit_buf DMA_HWICAP_BITFILE_BUFFER_SIZE a in
            bindr (bitstream_parse_header buffer zero_header a) (\<lambda>(rc, h, a).
            if rc \<noteq> 0 then release_download (- EINVAL) p h a
            else if ucast (HeaderLength h + BitstreamLength h) > len then release_download (- EINVAL) p h a
            else
              let (err, restore, a) = bitstream_mcap_setup False a;
                  design_switch = (\<lambda>err a. release_download err p h (MCapRegWrite MCAP_CONTROL restore a))
              in if err \<noteq> 0 then design_switch err a
                 else
                   bindr (bitstream_clear_mcap a) (\<lambda>(err, a).
                   if err \<noteq> 0 then design_switch err a
                   else
                     bindr (mcap_user_pieces (unat (BitstreamLength h)) (bit_buf + ucast (HeaderLength h)) buffer a) (\<lambda>(err, a).
                     if err \<noteq> 0 then design_switch err a
                     else let (err, a) = mcap_finish restore a in design_switch err a)))))"

definition bitstream_mcap :: "u8 list \<Rightarrow> u32 \<Rightarrow> accel \<Rightarrow> (int \<times> accel) run" where
  "bitstream_mcap buffer len a =
     bindr (bug_on (len = 0)) (\<lambda>_.
     bindr (bitstream_parse_header buffer zero_header a) (\<lambda>(rc, h, a).
       if rc \<noteq> 0 then Inr (- EINVAL, free_header h a)
       else if HeaderLength h + BitstreamLength h > len then Inr (- EINVAL, free_header h a)
       else
         let (err, restore, a) = bitstream_mcap_setup True a in
         if err \<noteq> 0 then Inr (err, free_header h a)
         else
           bindr (bitstream_mcap_helper (drop (unat (HeaderLength h)) buffer) (unat (BitstreamLength h) div 4) a) (\<lambda>(_, a).
             let (err, a) = mcap_finish restore a in
             if err \<noteq> 0 then Inr (err, free_header h a)
             else Inr (0, free_header h (MCapRegWrite MCAP_CONTROL (restore OR MCAP_CTRL_DESIGN_SWITCH_MASK) a)))))"

subsection \<open>The files of bitstreams\<close>

text \<open>The fields of a file that the code looks at; on the board's host they are little-endian.\<close>

record xclBin =
  m_magic :: "u8 list"
  m_length :: u64
  m_primaryFirmwareOffset :: u64
  m_primaryFirmwareLength :: u64
  m_secondaryFirmwareOffset :: u64
  m_secondaryFirmwareLength :: u64

definition xclbin0 :: "u8 list" where "xclbin0 = [0x78, 0x63, 0x6c, 0x62, 0x69, 0x6e, 0x30, 0]"

fun le_word :: "u8 list \<Rightarrow> u64" where
  "le_word [] = 0"
| "le_word (b # bs) = ucast b OR push_bit 8 (le_word bs)"

definition read_xclBin :: "u8 list \<Rightarrow> xclBin run" where
  "read_xclBin data =
     (let field = (\<lambda>i. bindr (read_bytes 8 i data) (\<lambda>bs. Inr (le_word bs))) in
      bindr (read_bytes 8 0 data) (\<lambda>magic.
      bindr (field 8) (\<lambda>len.
      bindr (field 80) (\<lambda>po. bindr (field 88) (\<lambda>pl.
      bindr (field 96) (\<lambda>so. bindr (field 104) (\<lambda>sl.
        Inr \<lparr>m_magic = magic, m_length = len, m_primaryFirmwareOffset = po, m_primaryFirmwareLength = pl,
             m_secondaryFirmwareOffset = so, m_secondaryFirmwareLength = sl\<rparr>)))))))"

text \<open>An ioctl code as the kernel's macros build it, and its parts.\<close>

definition ioc_code :: "u32 \<Rightarrow> u32 \<Rightarrow> u32 \<Rightarrow> u32" where
  "ioc_code dir nr sz = push_bit 30 dir OR push_bit 16 sz OR push_bit 8 0x78 OR nr"

definition XDMA_IOCINFO :: u32 where "XDMA_IOCINFO = ioc_code 3 1 40"
definition XDMA_IOCICAPDOWNLOAD :: u32 where "XDMA_IOCICAPDOWNLOAD = ioc_code 1 2 16"
definition XDMA_IOCMCAPDOWNLOAD :: u32 where "XDMA_IOCMCAPDOWNLOAD = ioc_code 1 3 16"
definition XDMA_IOCHOTRESET :: u32 where "XDMA_IOCHOTRESET = ioc_code 1 4 8"
definition XDMA_IOCOCLRESET :: u32 where "XDMA_IOCOCLRESET = ioc_code 1 5 8"
definition XDMA_IOCFREQSCALING :: u32 where "XDMA_IOCFREQSCALING = ioc_code 3 6 12"
definition XDMA_XCL_MAGIC :: u32 where "XDMA_XCL_MAGIC = 0x586C0C6C"

text \<open>The stash of the clearing bitstream that a download leaves for the next one.\<close>

definition stash_secondary :: "u64 \<Rightarrow> xclBin \<Rightarrow> accel \<Rightarrow> int \<times> accel" where
  "stash_secondary xclbin bin a =
     (let n = unat (m_secondaryFirmwareLength bin); (p, a) = acall (Vmalloc n) (acall0 Vfree a) in
      if p = 0 then (- ENOMEM, a\<lparr>clear_bitstream := None, clear_bitstream_length := 0\<rparr>)
      else
        let from = xclbin + m_secondaryFirmwareOffset bin; (rc, a) = acall (Copy_from_user (word_of_int p) from n) a in
        if rc \<noteq> 0 then (- EFAULT, (acall0 Vfree a)\<lparr>clear_bitstream := None, clear_bitstream_length := 0\<rparr>)
        else (0, a\<lparr>clear_bitstream := Some (user_bytes from n a), clear_bitstream_length := ucast (m_secondaryFirmwareLength bin)\<rparr>))"

definition bitstream_ioctl :: "u32 \<Rightarrow> u64 \<Rightarrow> accel \<Rightarrow> (int \<times> accel) run" where
  "bitstream_ioctl cmd arg a =
     (let (rc, a) = acall (Copy_from_user 0 arg 16) a in
      if rc \<noteq> 0 then Inr (- EFAULT, a)
      else
        let xclbin = le_word (user_bytes (arg + 8) 8 a); (rc, a) = acall (Copy_from_user 0 xclbin 128) a in
        if rc \<noteq> 0 then Inr (- EFAULT, a)
        else
          bindr (read_xclBin (user_bytes xclbin 128 a)) (\<lambda>bin.
          if m_magic bin \<noteq> xclbin0 then Inr (- EINVAL, a)
          else if m_primaryFirmwareOffset bin + m_primaryFirmwareLength bin > m_length bin then Inr (- EINVAL, a)
          else if m_secondaryFirmwareOffset bin + m_secondaryFirmwareLength bin > m_length bin then Inr (- EINVAL, a)
          else
            let (ok, a) = acall (Access_ok xclbin (m_length bin)) a in
            if ok = 0 then Inr (- EFAULT, a)
            else
              let buffer = xclbin + m_primaryFirmwareOffset bin;
                  stash = (\<lambda>(err, a). Inr (if m_secondaryFirmwareLength bin \<noteq> 0 then stash_secondary xclbin bin a else (err, a)))
              in if cmd = XDMA_IOCICAPDOWNLOAD then bindr (bitstream_ioctl_icap buffer (m_primaryFirmwareLength bin) a) stash
                 else if cmd = XDMA_IOCMCAPDOWNLOAD then bindr (bitstream_ioctl_mcap buffer (m_primaryFirmwareLength bin) a) stash
                 else Inr (- EINVAL, a)))"

text \<open>The three names of the file of the boot firmware are numbered in the order they are tried.\<close>

definition boot_file :: "accel \<Rightarrow> nat option \<times> accel" where
  "boot_file a =
     (let (e, a) = acall (Request_firmware 0) a in if e = 0 then (Some 0, a) else
      let (e, a) = acall (Request_firmware 1) a in if e = 0 then (Some 1, a) else
      let (e, a) = acall (Request_firmware 2) a in if e = 0 then (Some 2, a) else (None, a))"

definition drop_stash :: "accel \<Rightarrow> accel" where
  "drop_stash a = (acall0 Vfree a)\<lparr>clear_bitstream := None, clear_bitstream_length := 0\<rparr>"

definition boot_stash :: "xclBin \<Rightarrow> u8 list \<Rightarrow> accel \<Rightarrow> (int \<times> accel) run" where
  "boot_stash bin data a =
     (if m_secondaryFirmwareLength bin \<noteq> 0 \<and> (m_primaryFirmwareLength bin \<noteq> 0 \<or> clear_bitstream a = None) then
        let (p, a) = acall (Vmalloc (unat (m_secondaryFirmwareLength bin))) (acall0 Vfree a) in
        if p = 0 then Inr (- ENOMEM, a\<lparr>clear_bitstream := None, clear_bitstream_length := 0\<rparr>)
        else
          let len = ucast (m_secondaryFirmwareLength bin) :: u32 in
          bindr (read_bytes (unat len) (unat (m_secondaryFirmwareOffset bin)) data) (\<lambda>bs.
            Inr (0, a\<lparr>clear_bitstream := Some bs, clear_bitstream_length := len\<rparr>))
      else Inr (0, a))"

definition boot_done :: "int \<Rightarrow> XHwIcap_Bit_Header \<Rightarrow> accel \<Rightarrow> (int \<times> accel) run" where
  "boot_done err h a = Inr (err, free_header h (acall0 Release_firmware a))"

definition load_boot_firmware :: "accel \<Rightarrow> (int \<times> accel) run" where
  "load_boot_firmware a =
     (let (file, a) = boot_file a in
      case file of None \<Rightarrow> Inr (0, a)
      | Some name \<Rightarrow>
          let data = firmware a name in
          bindr (read_xclBin data) (\<lambda>bin.
          if m_length bin > of_nat (length data) then boot_done (- EINVAL) zero_header a
          else if m_primaryFirmwareOffset bin + m_primaryFirmwareLength bin > m_length bin then boot_done (- EINVAL) zero_header a
          else if m_secondaryFirmwareOffset bin + m_secondaryFirmwareLength bin > m_length bin then boot_done (- EINVAL) zero_header a
          else
            bindr (if m_primaryFirmwareLength bin \<noteq> 0 then
                     bindr (bitstream_mcap (drop (unat (m_primaryFirmwareOffset bin)) data) (ucast (m_primaryFirmwareLength bin)) a)
                       (\<lambda>(err, a). Inr (err, drop_stash a))
                   else Inr (0, a)) (\<lambda>(err, a).
            if err \<noteq> 0 then boot_done err zero_header a
            else
              bindr (boot_stash bin data a) (\<lambda>(err, a).
              if err \<noteq> 0 then boot_done err zero_header a
              else
                (case clear_bitstream a of None \<Rightarrow> boot_done 0 zero_header a
                 | Some bs \<Rightarrow>
                     bindr (bitstream_parse_header bs zero_header a) (\<lambda>(rc, h, a).
                       if rc \<noteq> 0 then boot_done (- EINVAL) h (drop_stash a) else boot_done 0 h a))))))"

subsection \<open>The dispatch\<close>

text \<open>
  \<open>user\<close> tells whether the file is the user device; \<open>root\<close> and \<open>interrupts_enable\<close> are those
  of the hot reset.
\<close>

definition char_ctrl_ioctl :: "(accel \<Rightarrow> int \<times> accel) \<Rightarrow> bool \<Rightarrow> bool \<Rightarrow> u32 \<Rightarrow> u64 \<Rightarrow> accel \<Rightarrow> (int \<times> accel) run" where
  "char_ctrl_ioctl interrupts_enable root user cmd arg a =
     (if \<not> user then Inr (- ENOTTY, a)
      else if drop_bit 8 cmd AND 0xff \<noteq> 0x78 then Inr (- ENOTTY, a)
      else
        let dir = drop_bit 30 cmd AND 3; sz = drop_bit 16 cmd AND 0x3fff;
            (ok, a) = (if dir AND 2 \<noteq> 0 \<or> dir AND 1 \<noteq> 0 then acall (Access_ok arg (ucast sz)) a else (1, a))
        in if ok = 0 then Inr (- EFAULT, a)
           else
             let (rc, a) = acall (Copy_from_user 0 arg 8) a in
             if rc \<noteq> 0 then Inr (- EFAULT, a)
             else if (ucast (le_word (user_bytes arg 4 a)) :: u32) \<noteq> XDMA_XCL_MAGIC then Inr (- ENOTTY, a)
             else if cmd = XDMA_IOCINFO then bindr (version_ioctl arg a) (\<lambda>(rc, _, a). Inr (rc, a))
             else if cmd = XDMA_IOCICAPDOWNLOAD \<or> cmd = XDMA_IOCMCAPDOWNLOAD then bitstream_ioctl cmd arg a
             else if cmd = XDMA_IOCOCLRESET then reset_ocl_ioctl a
             else if cmd = XDMA_IOCHOTRESET then reset_hot_ioctl interrupts_enable root a
             else if cmd = XDMA_IOCFREQSCALING then
               ocl_freqscaling_ioctl arg (ucast (le_word (user_bytes (arg + 8) 4 a))) a
             else Inr (- ENOTTY, a))"

declare request_loop.simps [simp del] completion_loop.simps [simp del] bitstream_icap_helper.simps [simp del]
  icap_pieces.simps [simp del] icap_user_pieces.simps [simp del] mcap_user_pieces.simps [simp del]

subsection \<open>The header as a file has it\<close>

text \<open>
  The reference for the parser: the bytes of a header with its counted fields. The lemmas
  follow the index through the bytes that are left.
\<close>

definition be2 :: "nat \<Rightarrow> u8 list" where "be2 n = [of_nat (n div 256), of_nat n]"

definition magic_bytes :: "nat \<Rightarrow> nat \<Rightarrow> u8 list" where
  "magic_bytes i k = map (\<lambda>j. if even j then XHI_EVEN_MAGIC_BYTE else XHI_ODD_MAGIC_BYTE) [i..<i + k]"

definition field_bytes :: "u8 list \<Rightarrow> u8 list" where "field_bytes s = be2 (length s) @ s"

definition header_bytes :: "nat \<Rightarrow> u8 list \<Rightarrow> u8 list \<Rightarrow> u8 list \<Rightarrow> u8 list \<Rightarrow> nat \<Rightarrow> u8 list" where
  "header_bytes m design part date time n =
     be2 (m + 1) @ magic_bytes 0 m @ [0] @ be2 1 @ [0x61] @ field_bytes design @ [0x62] @ field_bytes part
     @ [0x63] @ field_bytes date @ [0x64] @ field_bytes time @ [0x65] @ be2 (n div 65536) @ be2 (n mod 65536)"

definition field_ok :: "u8 list \<Rightarrow> bool" where
  "field_ok s \<longleftrightarrow> s \<noteq> [] \<and> last s = 0 \<and> length s < 65536"

lemma be2_word:
  assumes "n < 65536"
  shows "push_bit 8 (ucast (of_nat (n div 256) :: u8)) OR ucast (of_nat n :: u8) = (of_nat n :: u32)"
proof -
  have n: "bit n k \<Longrightarrow> k < 16" for k
    using assms bit_take_bit_iff [of 16 n k] by (simp add: take_bit_nat_eq_self)
  have d: "n div 256 = drop_bit 8 n" by (simp add: drop_bit_eq_div)
  show ?thesis unfolding d by (rule bit_word_eqI) (auto simp: bit_simps dest: n)
qed

lemma be4_word:
  assumes "n < 2 ^ 32"
  shows "push_bit 16 (of_nat (n div 65536)) OR of_nat (n mod 65536) = (of_nat n :: u32)"
proof -
  have d: "n div 65536 = drop_bit 16 n" "n mod 65536 = take_bit 16 n" by (simp_all add: drop_bit_eq_div take_bit_eq_mod)
  show ?thesis unfolding d by (rule bit_word_eqI) (auto simp: bit_simps)
qed

lemma at_byte:
  assumes "drop i data = x # s"
  shows "array_get data i = Inr x \<and> drop (Suc i) data = s"
proof -
  have "i < length data" by (rule ccontr) (use assms in simp)
  then show ?thesis using assms Cons_nth_drop_Suc [of i data] by simp
qed

lemma at_half:
  assumes "drop i data = be2 n @ s" "n < 65536"
  shows "half_word data i = Inr (of_nat n)" "drop (i + 2) data = s"
  using assms at_byte [of i data] at_byte [of "Suc i" data] by (auto simp: be2_def half_word_def be2_word)

lemma at_magic:
  assumes "drop i data = magic_bytes j k @ s"
  shows "header_magic k j data i = Inr True \<and> drop (i + k) data = s"
  using assms
proof (induction k arbitrary: i j)
  case 0
  then show ?case by (simp add: magic_bytes_def)
next
  case (Suc k)
  have "magic_bytes j (Suc k) = (if even j then XHI_EVEN_MAGIC_BYTE else XHI_ODD_MAGIC_BYTE) # magic_bytes (Suc j) k"
    unfolding magic_bytes_def by (simp add: upt_conv_Cons del: upt_Suc)
  then have b: "array_get data i = Inr (if even j then XHI_EVEN_MAGIC_BYTE else XHI_ODD_MAGIC_BYTE)" "drop (Suc i) data = magic_bytes (Suc j) k @ s"
    using at_byte [of i data] Suc.prems by auto
  from Suc.IH [OF b(2)] b(1) show ?case by simp
qed

lemma at_bytes:
  assumes "drop i data = xs @ s"
  shows "read_bytes (length xs) i data = Inr xs \<and> drop (i + length xs) data = s"
  using assms
proof (induction xs arbitrary: i)
  case (Cons x xs)
  then have b: "array_get data i = Inr x" "drop (Suc i) data = xs @ s" using at_byte [of i data] by auto
  from Cons.IH [OF b(2)] b(1) show ?case by simp
qed simp

lemma at_field:
  assumes "drop i data = field_bytes name @ s" "field_ok name" "\<forall>l n. (word_of_int (grants a l (Kmalloc n)) :: u64) \<noteq> 0"
  shows "\<exists>p. header_field data i a = Inr ((p, name), True, i + 2 + length name, add_log [Call (Kmalloc (length name))] a)
    \<and> drop (i + 2 + length name) data = s"
proof -
  have l: "0 < length name" "length name < 65536" "name ! (length name - 1) = 0"
    using assms(2) last_conv_nth [of name] by (auto simp: field_ok_def)
  have l1: "Suc 0 \<le> length name" using l(1) by linarith
  have "drop i data = be2 (length name) @ (name @ s)" using assms(1) by (simp add: field_bytes_def)
  note h = at_half [OF this l(2)]
  note r = at_bytes [OF h(2)]
  have u: "unat (of_nat (length name) :: u32) = length name" using l(2) by (simp add: unat_of_nat take_bit_nat_eq_self)
  have z: "unat (of_nat (length name) - 1 :: u32) = length name - 1"
    using l1 by (simp add: unat_sub_if_size u word_size unat_1)
  have c: "acall (Kmalloc (length name)) a = (grants a (alog a) (Kmalloc (length name)), add_log [Call (Kmalloc (length name))] a)"
    by (rule call_log)
  show ?thesis
    using l r assms(3) by (auto simp: header_field_def h(1) u z c Let_def l1)
qed

lemma header_length:
  "length (header_bytes m design part date time n) = m + 22 + length design + length part + length date + length time"
  by (simp add: header_bytes_def field_bytes_def be2_def magic_bytes_def)

text \<open>What the parser makes of a well-formed header, whatever follows it.\<close>

lemma parse_header_bytes:
  assumes "m + 1 < 65536" "field_ok design" "field_ok part" "field_ok date" "field_ok time" "n < 2 ^ 32"
    and kmalloc: "\<forall>l n. (word_of_int (grants a l (Kmalloc n)) :: u64) \<noteq> 0"
  shows "\<exists>p q r t. bitstream_parse_header (header_bytes m design part date time n @ rest) h a
    = Inr (0, h\<lparr>HeaderLength := of_nat (length (header_bytes m design part date time n)), BitstreamLength := of_nat n,
        DesignName := (p, design), PartName := (q, part), Date_name := (r, date), Time_name := (t, time), MagicLength := of_nat (m + 1)\<rparr>,
      add_log (map (\<lambda>s. Call (Kmalloc (length s))) [design, part, date, time]) a)"
proof -
  define data where "data = header_bytes m design part date time n @ rest"
  define e where "e = be2 (n div 65536) @ be2 (n mod 65536) @ rest"
  define d where "d = field_bytes time @ 0x65 # e"
  define c where "c = field_bytes date @ 0x64 # d"
  define b where "b = field_bytes part @ 0x63 # c"
  define body where "body = field_bytes design @ 0x62 # b"
  let ?l1 = "[Call (Kmalloc (length design))]" and ?i1 = "m + 8 + length design"
  let ?l2 = "?l1 @ [Call (Kmalloc (length part))]" and ?i2 = "m + 11 + length design + length part"
  let ?l3 = "?l2 @ [Call (Kmalloc (length date))]" and ?i3 = "m + 14 + length design + length part + length date"
  let ?l4 = "?l3 @ [Call (Kmalloc (length time))]" and ?i4 = "m + 17 + length design + length part + length date + length time"
  have k: "\<forall>l n. (word_of_int (grants (add_log es a) l (Kmalloc n)) :: u64) \<noteq> 0" for es using kmalloc by simp
  have ml: "unat (of_nat (m + 1) - 1 :: u32) = m" using assms(1) by (simp add: unat_of_nat take_bit_nat_eq_self)
  have i1: "2 + m + 1 + 2 = 2 + m + 3" "Suc (2 + m + 3) = 2 + m + 4" "?i4 + 1 + 2 = ?i4 + 3" by simp_all
  have "drop 0 data = be2 (m + 1) @ (magic_bytes 0 m @ 0 # be2 1 @ 0x61 # body)"
    by (simp add: data_def header_bytes_def body_def b_def c_def d_def e_def)
  from at_half [OF this assms(1)] have s1: "half_word data 0 = Inr (of_nat (m + 1))" "drop 2 data = magic_bytes 0 m @ (0 # be2 1 @ 0x61 # body)"
    by (simp_all add: numeral_2_eq_2)
  have s2: "header_magic m 0 data 2 = Inr True" "drop (2 + m) data = 0 # be2 1 @ 0x61 # body" using at_magic [OF s1(2)] by simp_all
  have s3: "array_get data (2 + m) = Inr 0" "drop (2 + m + 1) data = be2 1 @ (0x61 # body)" using at_byte [OF s2(2)] by simp_all
  have s4: "half_word data (2 + m + 1) = Inr 1" "drop (2 + m + 3) data = 0x61 # body" using at_half [OF s3(2)] unfolding i1(1) by simp_all
  have s5: "array_get data (2 + m + 3) = Inr 0x61" "drop (2 + m + 4) data = field_bytes design @ (0x62 # b)"
    using at_byte [OF s4(2)] unfolding i1(2) by (simp_all add: body_def)
  obtain p where f1: "header_field data (2 + m + 4) a = Inr ((p, design), True, ?i1, add_log ?l1 a)" "drop ?i1 data = 0x62 # b"
    using at_field [OF s5(2) assms(2) kmalloc] by (auto simp: ac_simps)
  have t1: "array_get data ?i1 = Inr 0x62" "drop (?i1 + 1) data = field_bytes part @ (0x63 # c)" using at_byte [OF f1(2)] by (simp_all add: b_def)
  obtain q where f2: "header_field data (?i1 + 1) (add_log ?l1 a) = Inr ((q, part), True, ?i2, add_log ?l2 a)" "drop ?i2 data = 0x63 # c"
    using at_field [OF t1(2) assms(3) k [of ?l1]] by (auto simp: ac_simps)
  have t2: "array_get data ?i2 = Inr 0x63" "drop (?i2 + 1) data = field_bytes date @ (0x64 # d)" using at_byte [OF f2(2)] by (simp_all add: c_def)
  obtain r where f3: "header_field data (?i2 + 1) (add_log ?l2 a) = Inr ((r, date), True, ?i3, add_log ?l3 a)" "drop ?i3 data = 0x64 # d"
    using at_field [OF t2(2) assms(4) k [of ?l2]] by (auto simp: ac_simps)
  have t3: "array_get data ?i3 = Inr 0x64" "drop (?i3 + 1) data = field_bytes time @ (0x65 # e)" using at_byte [OF f3(2)] by (simp_all add: d_def)
  obtain t where f4: "header_field data (?i3 + 1) (add_log ?l3 a) = Inr ((t, time), True, ?i4, add_log ?l4 a)" "drop ?i4 data = 0x65 # e"
    using at_field [OF t3(2) assms(5) k [of ?l3]] by (auto simp: ac_simps)
  have t4: "array_get data ?i4 = Inr 0x65" "drop (?i4 + 1) data = be2 (n div 65536) @ (be2 (n mod 65536) @ rest)" using at_byte [OF f4(2)] by (simp_all add: e_def)
  have hi: "half_word data (?i4 + 1) = Inr (of_nat (n div 65536))" "drop (?i4 + 3) data = be2 (n mod 65536) @ rest"
    using at_half [OF t4(2)] assms(6) unfolding i1(3) by (simp_all add: less_mult_imp_div_less)
  have lo: "half_word data (?i4 + 3) = Inr (of_nat (n mod 65536))" using at_half(1) [OF hi(2)] by simp
  have "bitstream_parse_header data h a = Inr (0, h\<lparr>HeaderLength := of_nat (?i4 + 5), BitstreamLength := of_nat n,
        DesignName := (p, design), PartName := (q, part), Date_name := (r, date), Time_name := (t, time), MagicLength := of_nat (m + 1)\<rparr>, add_log ?l4 a)"
    unfolding bitstream_parse_header_def Let_def
    by (simp only: ml s1(1) s2(1) s3(1) s4(1) s5(1) f1(1) t1(1) f2(1) t2(1) f3(1) t3(1) f4(1) t4(1) hi(1) lo be4_word [OF assms(6)]
        bindr_Inr prod.case simp_thms if_True if_False) simp
  moreover have "?i4 + 5 = length (header_bytes m design part date time n)" by (simp add: header_length)
  ultimately show ?thesis unfolding data_def by auto
qed

subsection \<open>The words that reach the board\<close>

text \<open>Word \<open>i\<close> of a buffer as a number, and the words written to the FIFO of the ICAP.\<close>

definition word_at :: "u8 list \<Rightarrow> nat \<Rightarrow> u32" where
  "word_at buf i = (let b = (\<lambda>j. unat (buf ! (4 * i + j))) in of_nat (((b 0 * 256 + b 1) * 256 + b 2) * 256 + b 3))"

definition icap_words :: "iomem \<Rightarrow> event list \<Rightarrow> u32 list" where
  "icap_words b es = map snd (filter (\<lambda>(r, v). r = b + XHWICAP_WF) (writes es))"

lemma icap_words_append [simp]: "icap_words b (es @ fs) = icap_words b es @ icap_words b fs"
  by (simp add: icap_words_def)

lemma byte_bound: "unat (x :: u8) < 256"
  using unsigned_less [of x] by simp

lemma half_word_in:
  assumes "i + 1 < length buf"
  shows "half_word buf i = Inr (of_nat (unat (buf ! i) * 256 + unat (buf ! (i + 1))))"
proof -
  let ?x = "buf ! i" and ?y = "buf ! (i + 1)"
  have n: "unat ?x * 256 + unat ?y < 65536" "(unat ?x * 256 + unat ?y) div 256 = unat ?x" using byte_bound [of ?x] byte_bound [of ?y] by simp_all
  have y: "(of_nat (unat ?x * 256 + unat ?y) :: u8) = ?y"
  proof -
    have "(256 :: u8) = 0" by simp
    then show ?thesis by (simp only: of_nat_add of_nat_mult of_nat_numeral mult_zero_right add_0) simp
  qed
  show ?thesis using assms be2_word [OF n(1)] unfolding n(2) y by (simp add: half_word_def)
qed

lemma be_word_in:
  assumes "4 * i + 3 < length buf"
  shows "be_word buf i = Inr (word_at buf i)"
proof -
  let ?b = "\<lambda>j. unat (buf ! (4 * i + j))"
  let ?hi = "?b 0 * 256 + ?b 1" and ?lo = "?b 2 * 256 + ?b 3"
  have b: "?b j < 256" for j by (rule byte_bound)
  have lo: "?lo < 65536" "?hi < 65536" using b [of 0] b [of 1] b [of 2] b [of 3] by simp_all
  then have n: "?hi * 65536 + ?lo < 2 ^ 32" "(?hi * 65536 + ?lo) div 65536 = ?hi" "(?hi * 65536 + ?lo) mod 65536 = ?lo"
    by (simp_all only: mod_mult_self3 mod_less) simp_all
  have w: "word_at buf i = of_nat (?hi * 65536 + ?lo)" unfolding word_at_def Let_def by (rule arg_cong [of _ _ of_nat]) simp
  have h: "half_word buf (4 * i) = Inr (of_nat ?hi)" "half_word buf (4 * i + 2) = Inr (of_nat ?lo)"
    using half_word_in [of "4 * i" buf] half_word_in [of "4 * i + 2" buf] assms by (simp_all add: numeral_3_eq_3)
  show ?thesis unfolding be_word_def h bindr_Inr w using be4_word [OF n(1)] unfolding n(2,3) by simp
qed

lemma fifo_words_ok:
  assumes "user_at b a" "4 * (i + k) \<le> length buf"
  shows "fifo_words k i buf a = Inr (add_log (map (\<lambda>j. Wr (b + XHWICAP_WF) (word_at buf j)) [i..<i + k]) a)"
  using assms
proof (induction k arbitrary: i a)
  case (Suc k)
  have u: "[i..<i + Suc k] = i # [Suc i..<Suc i + k]" by (simp add: upt_conv_Cons del: upt_Suc)
  have "user_at b (add_log [Wr (b + XHWICAP_WF) (word_at buf i)] a)" using Suc.prems(1) by simp
  from Suc.IH [OF this, of "Suc i"] Suc.prems show ?case
    unfolding u by (simp add: be_word_in user_access(2) [where b = b] del: upt_Suc)
qed simp

lemma icap_words_map: "icap_words b (map (\<lambda>j. Wr (b + XHWICAP_WF) (f j)) xs) = map f xs"
  by (induction xs) (simp_all add: icap_words_def)

text \<open>A board whose FIFO takes at least a word at a time, and whose ICAP is never busy.\<close>

definition icap_ready :: "iomem \<Rightarrow> accel \<Rightarrow> bool" where
  "icap_ready b a \<longleftrightarrow> user_at b a \<and> (\<forall>l. 0 < sint (answers a l (b + XHWICAP_WFV)) \<and> answers a l (b + XHWICAP_CR) AND 0x1 = 0
     \<and> answers a l (b + XHWICAP_SR) AND 0x5 \<noteq> 0)"

lemma icap_ready_log [simp]: "icap_ready b (add_log es a) = icap_ready b a"
  by (simp add: icap_ready_def)

lemma icap_regs: "XHWICAP_CR \<noteq> XHWICAP_WF"
  by (simp add: XHWICAP_CR_def XHWICAP_WF_def HWICAP_OFFSET_def)

lemma hwicapWrite_ok:
  assumes "icap_ready b a" "4 * n \<le> length buf"
  shows "\<exists>es. hwicapWrite buf n a = Inr (0, add_log es a) \<and> icap_words b es = map (word_at buf) [0..<n]"
proof -
  have u: "user_at b a" and c: "answers a l (b + XHWICAP_CR) AND 0x1 = 0" for l using assms(1) by (simp_all add: icap_ready_def)
  let ?w = "map (\<lambda>j. Wr (b + XHWICAP_WF) (word_at buf j)) [0..<n]"
  have p: "control_polls 10 a' = Inr (0, add_log [Rd (b + XHWICAP_CR)] a')" if "icap_ready b a'" for a'
    using that user_access(1) [where b = b] unfolding icap_ready_def numeral_eq_Suc by (simp add: numeral_eq_Suc)
  have "hwicapWrite buf n a = Inr (0, add_log (?w @ [Wr (b + XHWICAP_CR) 1, Rd (b + XHWICAP_CR)]) a)"
    using fifo_words_ok [OF u, of 0 n buf] assms u by (simp add: hwicapWrite_def user_access(2) [where b = b] p)
  moreover have "icap_words b (?w @ [Wr (b + XHWICAP_CR) 1, Rd (b + XHWICAP_CR)]) = map (word_at buf) [0..<n]"
    using icap_regs by (simp only: icap_words_append icap_words_map) (simp add: icap_words_def)
  ultimately show ?thesis by blast
qed

lemma word_at_drop: "4 * (m + i) + 3 < length buf \<Longrightarrow> word_at (drop (4 * m) buf) i = word_at buf (m + i)"
  by (simp add: word_at_def Let_def algebra_simps)

lemma words_split:
  assumes "4 * (m + k) \<le> length buf"
  shows "map (word_at buf) [0..<m] @ map (word_at (drop (4 * m) buf)) [0..<k] = map (word_at buf) [0..<m + k]"
proof -
  have "map (word_at (drop (4 * m) buf)) [0..<k] = map (\<lambda>i. word_at buf (m + i)) [0..<k]"
    using assms by (intro map_cong refl word_at_drop) auto
  also have "\<dots> = map (word_at buf) [m..<m + k]"
  proof -
    have "map (\<lambda>i. word_at buf (m + i)) [0..<k] = map (word_at buf) (map (\<lambda>i. i + m) [0..<k])" by (simp add: add.commute)
    then show ?thesis by (simp only: map_add_upt add.commute [of m k])
  qed
  finally show ?thesis by (simp only: map_append [symmetric] upt_add_eq_append [of 0 m k, simplified])
qed

lemma icap_helper_ok:
  assumes "icap_ready b a" "4 * n \<le> length buf"
  shows "\<exists>es. bitstream_icap_helper buf n a = Inr (0, add_log es a) \<and> icap_words b es = map (word_at buf) [0..<n]"
  using assms
proof (induction n arbitrary: buf a rule: less_induct)
  case (less n)
  show ?case
  proof (cases "n = 0")
    case True
    then show ?thesis by (intro exI [of _ "[]"]) (simp add: bitstream_icap_helper.simps icap_words_def)
  next
    case False
    let ?v = "answers a (alog a) (b + XHWICAP_WFV)" and ?a = "add_log [Rd (b + XHWICAP_WFV)] a"
    let ?m = "min (unat ?v) n"
    have v: "0 < sint ?v" "user_at b a" using less.prems(1) by (simp_all add: icap_ready_def)
    then have m: "0 < ?m" "?m \<le> n" using False positive_unat by simp_all
    have ml: "4 * ?m \<le> length buf" using m(2) less.prems(2) by linarith
    have "icap_ready b ?a" using less.prems(1) by simp
    from hwicapWrite_ok [OF this ml] obtain es where es: "hwicapWrite buf ?m ?a = Inr (0, add_log es ?a)" "icap_words b es = map (word_at buf) [0..<?m]"
      by blast
    have r: "n - ?m < n" "icap_ready b (add_log es ?a)" "4 * (n - ?m) \<le> length (drop (4 * ?m) buf)"
      using m less.prems by (simp_all add: diff_mult_distrib2)
    from less.IH [OF r] obtain fs where
      fs: "bitstream_icap_helper (drop (4 * ?m) buf) (n - ?m) (add_log es ?a) = Inr (0, add_log fs (add_log es ?a))"
      "icap_words b fs = map (word_at (drop (4 * ?m) buf)) [0..<n - ?m]"
      by blast
    have "bitstream_icap_helper buf n a = Inr (0, add_log ([Rd (b + XHWICAP_WFV)] @ es @ fs) a)"
      using False v es(1) fs(1) by (subst bitstream_icap_helper.simps) (simp add: user_access(1) [where b = b] not_le)
    moreover have "icap_words b ([Rd (b + XHWICAP_WFV)] @ es @ fs) = map (word_at buf) [0..<n]"
      using words_split [of ?m "n - ?m" buf] es(2) fs(2) less.prems(2) m by (simp add: icap_words_def)
    ultimately show ?thesis by blast
  qed
qed

lemma icap_pieces_ok:
  assumes "icap_ready b a" "n \<le> length buf"
  shows "\<exists>es. icap_pieces n buf a = Inr (False, add_log es a) \<and> icap_words b es = map (word_at buf) [0..<n div 4]"
  using assms
proof (induction n arbitrary: buf a rule: less_induct)
  case (less n)
  show ?case
  proof (cases "n = 0")
    case True
    then show ?thesis by (intro exI [of _ "[]"]) (simp add: icap_pieces.simps icap_words_def)
  next
    case False
    let ?m = "min n 1024"
    have m: "?m \<le> n" "0 < ?m" using False by simp_all
    have "4 * (?m div 4) \<le> length buf" using less.prems(2) m(1) by linarith
    from icap_helper_ok [OF less.prems(1) this] obtain es where
      es: "bitstream_icap_helper buf (?m div 4) a = Inr (0, add_log es a)" "icap_words b es = map (word_at buf) [0..<?m div 4]" by blast
    have r: "icap_ready b (add_log es a)" "n - ?m \<le> length (drop ?m buf)" "n - ?m < n" using less.prems m by auto
    from less.IH [OF r(3,1,2)] obtain fs where
      fs: "icap_pieces (n - ?m) (drop ?m buf) (add_log es a) = Inr (False, add_log fs (add_log es a))"
      "icap_words b fs = map (word_at (drop ?m buf)) [0..<(n - ?m) div 4]" by blast
    have "icap_pieces n buf a = Inr (False, add_log (es @ fs) a)"
      using False es(1) fs(1) by (subst icap_pieces.simps) (simp add: DMA_HWICAP_BITFILE_BUFFER_SIZE_def)
    moreover have "map (word_at buf) [0..<?m div 4] @ map (word_at (drop ?m buf)) [0..<(n - ?m) div 4] = map (word_at buf) [0..<n div 4]"
    proof (cases "n \<le> 1024")
      case False
      define q where "q = (n - 1024) div 4"
      have "4 * q \<le> n - 1024" unfolding q_def by simp
      then have "4 * (256 + q) \<le> length buf" using False less.prems(2) by presburger
      moreover have "n div 4 = 256 + q" using False unfolding q_def by linarith
      ultimately have "n div 4 = 256 + (n - 1024) div 4" "4 * (256 + (n - 1024) div 4) \<le> length buf" unfolding q_def by blast+
      then show ?thesis using words_split [of 256 "(n - 1024) div 4" buf] False by (simp add: min_def)
    qed simp
    ultimately show ?thesis using es(2) fs(2) by auto
  qed
qed

text \<open>What the download of a well-formed file does before and after its data.\<close>

lemma icap_of_file:
  assumes "m + 1 < 65536" "field_ok design" "field_ok part" "field_ok date" "field_ok time"
    and "file = header_bytes m design part date time (length data) @ data" "length file < 2 ^ 32"
    and "\<forall>l n. (word_of_int (grants a l (Kmalloc n)) :: u64) \<noteq> 0"
  shows "\<exists>es fs. writes es = [] \<and> writes fs = [] \<and> bitstream_icap file (of_nat (length file)) a
    = bindr (icap_pieces (length data) data (add_log es a)) (\<lambda>(left, a).
        if left then Inr (0, add_log fs a)
        else bindr (wait_for_done a) (\<lambda>(rc, a). Inr (if rc \<noteq> 0 then - EIO else 0, add_log fs a)))"
proof -
  let ?n = "length data" and ?hd = "header_bytes m design part date time (length data)"
  have n: "?n < 2 ^ 32" "length ?hd + ?n = length file" using assms(6,7) by simp_all
  let ?l = "[Call (Kmalloc (length design)), Call (Kmalloc (length part)), Call (Kmalloc (length date)), Call (Kmalloc (length time))]"
  obtain p q r t where ph: "bitstream_parse_header file zero_header a
    = Inr (0, zero_header\<lparr>HeaderLength := of_nat (length ?hd), BitstreamLength := of_nat ?n,
        DesignName := (p, design), PartName := (q, part), Date_name := (r, date), Time_name := (t, time), MagicLength := of_nat (m + 1)\<rparr>, add_log ?l a)"
    using parse_header_bytes [OF assms(1-5) n(1) assms(8), of data zero_header] unfolding assms(6) list.map by blast
  have u: "unat (of_nat ?n :: u32) = ?n" "unat (of_nat (length ?hd) :: u32) = length ?hd"
    using assms(7) n by (simp_all add: unat_of_nat take_bit_nat_eq_self)
  have fit: "of_nat (length ?hd) + of_nat ?n = (of_nat (length file) :: u32)" unfolding n(2) [symmetric] by simp
  have z: "(of_nat (length file) :: u32) \<noteq> 0"
    using n(2) assms(7) header_length [of m design part date time ?n] by (auto simp: word_of_nat_eq_0_iff dest: nat_dvd_not_less)
  have d: "drop (length ?hd) file = data" by (simp add: assms(6))
  let ?f = "[Call (Kfree p), Call (Kfree q), Call (Kfree r), Call (Kfree t)]"
  have "bitstream_icap file (of_nat (length file)) a
    = bindr (icap_pieces ?n data (add_log ?l a)) (\<lambda>(left, a).
        if left then Inr (0, add_log ?f a)
        else bindr (wait_for_done a) (\<lambda>(rc, a). Inr (if rc \<noteq> 0 then - EIO else 0, add_log ?f a)))"
    using z by (simp add: bitstream_icap_def bug_on_def ph fit u d free_header_def call_log cong: if_cong)
  then show ?thesis by (intro exI [of _ ?l] exI [of _ ?f]) simp
qed

text \<open>
  C35: Downloading a well-formed file to a board that is ready succeeds: the names of the
  header are parsed, and after it exactly the words of the data reach the FIFO of the ICAP,
  in order and each with its more significant byte first, whatever vacancies the FIFO
  reports on the way.
\<close>

theorem icap_downloads_words:
  assumes "m + 1 < 65536" "field_ok design" "field_ok part" "field_ok date" "field_ok time"
    and "file = header_bytes m design part date time (length data) @ data" "length file < 2 ^ 32"
    and "\<forall>l n. (word_of_int (grants a l (Kmalloc n)) :: u64) \<noteq> 0" "icap_ready b a"
  shows "\<exists>es. bitstream_icap file (of_nat (length file)) a = Inr (0, add_log es a)
    \<and> icap_words b es = map (word_at data) [0..<length data div 4]"
proof -
  obtain es fs where f: "writes es = []" "writes fs = []" "bitstream_icap file (of_nat (length file)) a
    = bindr (icap_pieces (length data) data (add_log es a)) (\<lambda>(left, a).
        if left then Inr (0, add_log fs a)
        else bindr (wait_for_done a) (\<lambda>(rc, a). Inr (if rc \<noteq> 0 then - EIO else 0, add_log fs a)))"
    using icap_of_file [OF assms(1-8)] by blast
  obtain gs where g: "icap_pieces (length data) data (add_log es a) = Inr (False, add_log gs (add_log es a))"
    "icap_words b gs = map (word_at data) [0..<length data div 4]"
    using icap_pieces_ok [of b "add_log es a" "length data" data] assms(9) by auto
  have w: "wait_for_done a' = Inr (0, add_log [Rd (b + XHWICAP_SR)] a')" if "icap_ready b a'" for a'
    using that user_access(1) [where b = b] unfolding icap_ready_def wait_for_done_def numeral_eq_Suc by (simp add: numeral_eq_Suc)
  have "bitstream_icap file (of_nat (length file)) a = Inr (0, add_log (es @ gs @ [Rd (b + XHWICAP_SR)] @ fs) a)"
    unfolding f(3) g(1) using assms(9) by (simp add: w)
  moreover have "icap_words b (es @ gs @ [Rd (b + XHWICAP_SR)] @ fs) = map (word_at data) [0..<length data div 4]"
    using g(2) f(1,2) by (simp add: icap_words_def)
  ultimately show ?thesis by blast
qed

text \<open>
  A FIFO that reports no vacancy ends the download before its first word, and the download
  reports success: the loop is left without an error code.
\<close>

lemma icap_failure_is_success:
  assumes "m + 1 < 65536" "field_ok design" "field_ok part" "field_ok date" "field_ok time"
    and "file = header_bytes m design part date time (length data) @ data" "length file < 2 ^ 32"
    and "\<forall>l n. (word_of_int (grants a l (Kmalloc n)) :: u64) \<noteq> 0"
    and "user_at b a" "\<forall>l. sint (answers a l (b + XHWICAP_WFV)) \<le> 0" "4 \<le> length data"
  shows "\<exists>es. bitstream_icap file (of_nat (length file)) a = Inr (0, add_log es a) \<and> writes es = []"
proof -
  obtain es fs where f: "writes es = []" "writes fs = []" "bitstream_icap file (of_nat (length file)) a
    = bindr (icap_pieces (length data) data (add_log es a)) (\<lambda>(left, a).
        if left then Inr (0, add_log fs a)
        else bindr (wait_for_done a) (\<lambda>(rc, a). Inr (if rc \<noteq> 0 then - EIO else 0, add_log fs a)))"
    using icap_of_file [OF assms(1-8)] by blast
  have p: "min (length data) 1024 div 4 \<noteq> 0" "length data \<noteq> 0" using assms(11) by auto
  have "icap_pieces (length data) data (add_log es a) = Inr (True, add_log [Rd (b + XHWICAP_WFV)] (add_log es a))"
    using p assms(9,10) by (subst icap_pieces.simps, subst bitstream_icap_helper.simps)
      (simp add: DMA_HWICAP_BITFILE_BUFFER_SIZE_def user_access(1) [where b = b] EIO_def)
  then have "bitstream_icap file (of_nat (length file)) a = Inr (0, add_log (es @ [Rd (b + XHWICAP_WFV)] @ fs) a)"
    unfolding f(3) by simp
  then show ?thesis using f(1,2) by (intro exI [of _ "es @ [Rd (b + XHWICAP_WFV)] @ fs"]) simp
qed

subsection \<open>Headers nobody vouches for\<close>

text \<open>
  What the bytes of an accepted header are, whoever wrote them: those of \<open>header_bytes\<close>, but
  for the byte behind the magic, which the parser skips.
\<close>

definition any_header :: "u8 \<Rightarrow> nat \<Rightarrow> u8 list \<Rightarrow> u8 list \<Rightarrow> u8 list \<Rightarrow> u8 list \<Rightarrow> nat \<Rightarrow> u8 list" where
  "any_header z m design part date time n =
     be2 (m + 1) @ magic_bytes 0 m @ [z] @ be2 1 @ [0x61] @ field_bytes design @ [0x62] @ field_bytes part
     @ [0x63] @ field_bytes date @ [0x64] @ field_bytes time @ [0x65] @ be2 (n div 65536) @ be2 (n mod 65536)"

lemma any_header_bytes: "any_header 0 = header_bytes"
  by (simp add: any_header_def header_bytes_def fun_eq_iff)

lemma any_header_length:
  "length (any_header z m d p q t n) = 22 + m + length d + length p + length q + length t"
  by (simp add: any_header_def field_bytes_def be2_def magic_bytes_def)

text \<open>Each read, turned around: what is left of the bytes starts with what was read.\<close>

lemma byte_read: "array_get data i = Inr x \<Longrightarrow> drop i data = x # drop (Suc i) data"
  by (auto simp: array_get_def Cons_nth_drop_Suc split: if_splits)

lemma word_be2:
  fixes x y :: u8
  assumes "w = push_bit 8 (ucast x) OR (ucast y :: u32)"
  shows "be2 (unat w) = [x, y]" "unat w < 65536"
proof -
  have t: "take_bit 16 w = w" unfolding assms by (rule bit_word_eqI) (auto simp: bit_simps dest: bit_imp_le_length)
  then have "unat w = take_bit 16 (unat w)" by (simp flip: unsigned_take_bit_eq)
  then show "unat w < 65536" using take_bit_nat_less_exp [of 16 "unat w"] by simp
  have "unat w div 256 = unat (drop_bit 8 w)" unfolding unat_drop_bit_eq by (simp add: drop_bit_eq_div)
  then have "(of_nat (unat w div 256) :: u8) = ucast (drop_bit 8 w)" by simp
  also have "\<dots> = x" unfolding assms by (rule bit_word_eqI) (auto simp: bit_simps dest: bit_imp_le_length)
  finally have h: "(of_nat (unat w div 256) :: u8) = x" .
  have "(of_nat (unat w) :: u8) = ucast w" by simp
  also have "\<dots> = y" unfolding assms by (rule bit_word_eqI) (auto simp: bit_simps dest: bit_imp_le_length)
  finally show "be2 (unat w) = [x, y]" by (simp add: be2_def h)
qed

lemma half_read:
  assumes "half_word data i = Inr w"
  shows "drop i data = be2 (unat w) @ drop (i + 2) data" "unat w < 65536"
proof -
  obtain x y where r: "array_get data i = Inr x" "array_get data (i + 1) = Inr y" "w = push_bit 8 (ucast x) OR ucast y"
    using assms by (auto simp: half_word_def bindr_eq_Inr)
  show "drop i data = be2 (unat w) @ drop (i + 2) data" using byte_read [OF r(1)] byte_read [OF r(2)] word_be2(1) [OF r(3)] by simp
  show "unat w < 65536" by (rule word_be2(2) [OF r(3)])
qed

lemma magic_read: "header_magic k i data index = Inr True \<Longrightarrow> drop index data = magic_bytes i k @ drop (index + k) data"
proof (induction k arbitrary: i index)
  case (Suc k)
  have u: "[i..<i + Suc k] = i # [Suc i..<Suc i + k]" by (simp add: upt_conv_Cons del: upt_Suc)
  from Suc.prems obtain x where x: "array_get data index = Inr x" "x = (if even i then XHI_EVEN_MAGIC_BYTE else XHI_ODD_MAGIC_BYTE)"
    "header_magic k (Suc i) data (Suc index) = Inr True"
    by (auto simp: bindr_eq_Inr split: if_splits)
  have "magic_bytes i (Suc k) = x # magic_bytes (Suc i) k" by (simp only: magic_bytes_def u x(2) list.map)
  then show ?case using byte_read [OF x(1)] Suc.IH [OF x(3)] by simp
qed (simp add: magic_bytes_def)

lemma bytes_read: "read_bytes k i data = Inr xs \<Longrightarrow> drop i data = xs @ drop (i + k) data \<and> length xs = k"
proof (induction k arbitrary: i xs)
  case (Suc k)
  then obtain x ys where x: "array_get data i = Inr x" "read_bytes k (Suc i) data = Inr ys" "xs = x # ys" by (auto simp: bindr_eq_Inr)
  show ?case using byte_read [OF x(1)] Suc.IH [OF x(2)] x(3) by simp
qed simp

lemma field_read:
  assumes "header_field data i a = Inr (name, True, j, a')"
  shows "drop i data = field_bytes (snd name) @ drop j data" "field_ok (snd name)" "j = i + 2 + length (snd name)"
proof -
  obtain len p xs z where f: "half_word data i = Inr len" "read_bytes (unat len) (i + 2) data = Inr xs" "array_get xs (unat (len - 1)) = Inr z"
    "name = (p, xs)" "z = 0" "j = i + 2 + unat len"
    using assms by (auto simp: header_field_def bindr_eq_Inr Let_def split_beta split: if_splits)
  have l: "length xs = unat len" using bytes_read [OF f(2)] by simp
  show "drop i data = field_bytes (snd name) @ drop j data"
    using half_read(1) [OF f(1)] bytes_read [OF f(2)] f(4,6) l by (simp add: field_bytes_def)
  have nz: "len \<noteq> 0"
  proof
    assume "len = 0"
    then show False using f(3) l by (simp add: array_get_def)
  qed
  then have "unat len \<noteq> 0" by (simp add: unsigned_eq_0_iff)
  then have u: "unat (len - 1) = length xs - 1" "xs \<noteq> []" using l nz by (auto simp: unat_minus_one)
  then have "last xs = 0" using f(3,5) by (simp add: array_get_def last_conv_nth split: if_splits)
  then show "field_ok (snd name)" using f(4) u(2) l half_read(2) [OF f(1)] by (simp add: field_ok_def)
  show "j = i + 2 + length (snd name)" using f(4,6) l by simp
qed

lemma be2_magic: "be2 (Suc (unat (ml - 1 :: u32))) = be2 (unat ml)"
proof (cases "ml = 0")
  case True
  have "unat (- 1 :: u32) = 4294967295" by (simp add: unsigned_minus_1_eq_mask mask_eq_exp_minus_1)
  then show ?thesis using True by (simp add: be2_def)
next
  case False
  then have "Suc (unat (ml - 1)) = unat ml" by (simp add: unat_minus_one unat_gt_0)
  then show ?thesis by (simp only:)
qed

lemma be4_words:
  assumes "unat hi < 65536" "unat lo < 65536"
  shows "unat (push_bit 16 hi OR lo :: u32) div 65536 = unat hi" "unat (push_bit 16 hi OR lo :: u32) mod 65536 = unat lo"
proof -
  have b: "bit hi k \<Longrightarrow> k < 16" "bit lo k \<Longrightarrow> k < 16" for k using bit_below [of hi 16 k] bit_below [of lo 16 k] assms by simp_all
  have "drop_bit 16 (push_bit 16 hi OR lo) = hi" by (rule bit_word_eqI) (auto simp: bit_simps dest: b)
  then have "unat (drop_bit 16 (push_bit 16 hi OR lo) :: u32) = unat hi" by (simp only:)
  then show "unat (push_bit 16 hi OR lo :: u32) div 65536 = unat hi" unfolding unat_drop_bit_eq by (simp add: drop_bit_eq_div)
  have "take_bit 16 (push_bit 16 hi OR lo) = lo" by (rule bit_word_eqI) (auto simp: bit_simps dest: b)
  then have "unat (take_bit 16 (push_bit 16 hi OR lo) :: u32) = unat lo" by (simp only:)
  then show "unat (push_bit 16 hi OR lo :: u32) mod 65536 = unat lo" unfolding unsigned_take_bit_eq by (simp add: take_bit_eq_mod)
qed

abbreviation bytes_of_header :: "u8 \<Rightarrow> XHwIcap_Bit_Header \<Rightarrow> u8 list" where
  "bytes_of_header z h \<equiv> any_header z (unat (MagicLength h - 1)) (snd (DesignName h)) (snd (PartName h)) (snd (Date_name h)) (snd (Time_name h))
     (unat (BitstreamLength h))"

lemma header_read:
  assumes "bitstream_parse_header data h a = Inr (0, h', a')"
  shows "field_ok (snd (DesignName h')) \<and> field_ok (snd (PartName h')) \<and> field_ok (snd (Date_name h')) \<and> field_ok (snd (Time_name h'))
    \<and> HeaderLength h' = of_nat (length (bytes_of_header 0 h')) \<and> (\<exists>z rest. data = bytes_of_header z h' @ rest)"
proof -
  from assms obtain ml z n1 i1 a1 n2 i2 a2 n3 i3 a3 n4 i4 hi lo where r:
    "half_word data 0 = Inr ml" "header_magic (unat (ml - 1)) 0 data 2 = Inr True" "array_get data (2 + unat (ml - 1)) = Inr z"
    "half_word data (Suc (2 + unat (ml - 1))) = Inr 1" "array_get data (2 + unat (ml - 1) + 3) = Inr 0x61"
    "header_field data (2 + unat (ml - 1) + 4) a = Inr (n1, True, i1, a1)" "array_get data i1 = Inr 0x62"
    "header_field data (Suc i1) a1 = Inr (n2, True, i2, a2)" "array_get data i2 = Inr 0x63"
    "header_field data (Suc i2) a2 = Inr (n3, True, i3, a3)" "array_get data i3 = Inr 0x64"
    "header_field data (Suc i3) a3 = Inr (n4, True, i4, a')" "array_get data i4 = Inr 0x65"
    "half_word data (Suc i4) = Inr hi" "half_word data (i4 + 3) = Inr lo"
    and h': "h' = h\<lparr>HeaderLength := of_nat (i4 + 5), MagicLength := ml, DesignName := n1, PartName := n2, Date_name := n3, Time_name := n4,
       BitstreamLength := push_bit 16 hi OR lo\<rparr>"
    unfolding bitstream_parse_header_def Let_def by (auto simp: bindr_eq_Inr split: if_splits)
  note f = field_read [OF r(6)] field_read [OF r(8)] field_read [OF r(10)] field_read [OF r(12)]
  have u1: "unat (1 :: u32) = 1" by simp
  have "data = be2 (unat ml) @ magic_bytes 0 (unat (ml - 1)) @ z # be2 1 @ 0x61 # field_bytes (snd n1) @ 0x62 # field_bytes (snd n2)
     @ 0x63 # field_bytes (snd n3) @ 0x64 # field_bytes (snd n4) @ 0x65 # be2 (unat hi) @ be2 (unat lo) @ drop (i4 + 5) data"
    using half_read(1) [OF r(1)] magic_read [OF r(2)] byte_read [OF r(3)] half_read(1) [OF r(4)] byte_read [OF r(5)] f(1) byte_read [OF r(7)] f(4)
      byte_read [OF r(9)] f(7) byte_read [OF r(11)] f(10) byte_read [OF r(13)] half_read(1) [OF r(14)] half_read(1) [OF r(15)]
    by (simp add: eval_nat_numeral)
  then have "data = bytes_of_header z h' @ drop (i4 + 5) data"
    using be4_words [OF half_read(2) [OF r(14)] half_read(2) [OF r(15)]] by (simp add: h' any_header_def be2_magic)
  moreover have "length (bytes_of_header 0 h') = i4 + 5" using f(3,6,9,12) by (simp add: h' any_header_length)
  ultimately show ?thesis using f(2,5,8,11) by (auto simp: h')
qed

text \<open>
  The parser does not ask where the bytes end: more bytes behind them change nothing but
  the reads that went behind the end.
\<close>

definition behind :: "'a run \<Rightarrow> 'a run \<Rightarrow> bool" where
  "behind m m' \<longleftrightarrow> m = Inl OutOfBounds \<or> m' = m"

lemma behind_refl [simp]: "behind m m"
  by (simp add: behind_def)

lemma behind_bindr: "behind m m' \<Longrightarrow> (\<And>x. behind (f x) (f' x)) \<Longrightarrow> behind (bindr m f) (bindr m' f')"
  by (cases m) (auto simp: behind_def)

lemma behind_get: "behind (array_get data i) (array_get (data @ rest) i)"
  by (simp add: behind_def array_get_def nth_append)

lemma behind_half: "behind (half_word data i) (half_word (data @ rest) i)"
  unfolding half_word_def by (intro behind_bindr behind_get behind_refl)

lemma behind_bytes: "behind (read_bytes k i data) (read_bytes k i (data @ rest))"
proof (induction k arbitrary: i)
  case (Suc k)
  show ?case unfolding read_bytes.simps by (intro behind_bindr behind_get Suc.IH behind_refl)
qed simp

lemma behind_magic: "behind (header_magic k i data index) (header_magic k i (data @ rest) index)"
proof (induction k arbitrary: i index)
  case (Suc k)
  show ?case unfolding header_magic.simps by (intro behind_bindr behind_get) (simp add: Suc.IH)
qed simp

lemma behind_field: "behind (header_field data i a) (header_field (data @ rest) i a)"
  unfolding header_field_def
  by (intro behind_bindr behind_half) (auto simp: Let_def split_beta intro!: behind_bindr behind_bytes)

lemma behind_header: "behind (bitstream_parse_header data h a) (bitstream_parse_header (data @ rest) h a)"
  unfolding bitstream_parse_header_def Let_def
  by (auto intro!: behind_bindr behind_get behind_half behind_magic behind_field)

text \<open>
  C36: The bytes that the parser takes for a header are exactly those that the fields of the
  result stand for: the counts, the magic, one byte of any value, and the four names, each
  of at least one byte and ending with a null. The length it reports is the number of these
  bytes, in 32 bits; the header file of the driver says that it counts words. The parser
  has no bound, its argument for the size is not used: on a file that ends anywhere within
  these bytes it reads behind the end, and the size is compared only afterwards. So the
  success of this parse says where the bytes lie, not that the code checked it.
\<close>

theorem accepted_header_is_exact:
  assumes "bitstream_parse_header data h a = Inr (0, h', a')"
  shows "\<exists>z rest. data = bytes_of_header z h' @ rest
    \<and> HeaderLength h' = of_nat (length (bytes_of_header z h'))
    \<and> field_ok (snd (DesignName h')) \<and> field_ok (snd (PartName h')) \<and> field_ok (snd (Date_name h')) \<and> field_ok (snd (Time_name h'))
    \<and> (\<forall>k < length (bytes_of_header z h'). bitstream_parse_header (take k data) h a = Inl OutOfBounds)"
proof -
  let ?n = "length (bytes_of_header 0 h')"
  have len: "length (bytes_of_header z h') = ?n" for z by (simp add: any_header_length)
  obtain z rest where z: "data = bytes_of_header z h' @ rest" using header_read [OF assms] by blast
  have "bitstream_parse_header (take k data) h a = Inl OutOfBounds" if k: "k < ?n" for k
  proof (rule ccontr)
    assume "bitstream_parse_header (take k data) h a \<noteq> Inl OutOfBounds"
    then have "bitstream_parse_header (take k data) h a = Inr (0, h', a')"
      using behind_header [of "take k data" h a "drop k data"] assms by (simp add: behind_def)
    then obtain y r where "take k data = bytes_of_header y h' @ r" using header_read by blast
    then have "length (bytes_of_header y h') \<le> length (take k data)" by simp
    then show False using k len [of y] by simp
  qed
  then have "\<forall>k < length (bytes_of_header z h'). bitstream_parse_header (take k data) h a = Inl OutOfBounds" unfolding len [of z] by blast
  moreover have "HeaderLength h' = of_nat (length (bytes_of_header z h'))" unfolding len [of z] using header_read [OF assms] by blast
  ultimately show ?thesis using z header_read [OF assms] by blast
qed

subsection \<open>The MCAP's waits and checks\<close>

definition mcap_req :: "accel \<Rightarrow> event list \<Rightarrow> bool" where
  "mcap_req a l \<longleftrightarrow> (word_of_int (grants a l (Pci_read_config (mcap_base a + MCAP_STATUS))) :: u32) AND MCAP_STS_CFG_MCAP_REQ_MASK \<noteq> 0"

lemma mcap_req_log [simp]: "mcap_req (add_log es a) = mcap_req a"
  by (simp add: mcap_req_def fun_eq_iff)

lemma request_read: "IsConfigureMCapReqSet a = (mcap_req a (alog a), add_log [Call (Pci_read_config (mcap_base a + MCAP_STATUS))] a)"
  by (simp add: IsConfigureMCapReqSet_def mcap_test_def MCapRegRead_def call_log mcap_req_def)

text \<open>The request goes away after \<open>n\<close> looks; \<open>k\<close> is the counter of the loop.\<close>

lemma request_loop_ends:
  assumes "\<forall>l. mcap_req a l \<longleftrightarrow> length l < length (alog a) + n"
  shows "\<exists>es. request_loop k a = (if n \<le> k then int k - int n else - 1, add_log es a)"
  using assms
proof (induction k arbitrary: n a)
  case 0
  show ?case using 0 by (subst request_loop.simps) (auto simp: request_read)
next
  case (Suc k)
  let ?a = "add_log [Call (Pci_read_config (mcap_base a + MCAP_STATUS))] a"
  show ?case
  proof (cases n)
    case 0
    then show ?thesis using Suc.prems by (subst request_loop.simps) (auto simp: request_read)
  next
    case (Suc m)
    have "\<forall>l. mcap_req ?a l \<longleftrightarrow> length l < length (alog ?a) + m" using Suc.prems Suc by simp
    from Suc.IH [OF this] show ?thesis using Suc.prems Suc by (subst request_loop.simps) (auto simp: request_read)
  qed
qed

text \<open>
  The request of the configuration logic that goes away after \<open>n\<close> looks at it: the wait
  fails exactly when it went away at the very last look, when the counter of the loop is 0,
  and it succeeds when the request has not gone away at all in that time, when the counter
  is \<open>- 1\<close>: the test behind the loop is off by one.
\<close>

theorem mcap_clear_verdict:
  assumes "\<forall>l. mcap_req a l \<longleftrightarrow> length l < length (alog a) + 3 + n"
  shows "fst (MCapClearRequestByConfigure a) = (if n = MCAP_LOOP_COUNT then - EIO else 0)"
proof -
  define k where "k = MCAP_LOOP_COUNT"
  let ?r = "word_of_int (grants a (alog a) (Pci_read_config (mcap_base a + MCAP_CONTROL))) :: u32"
  let ?a = "add_log [Call (Pci_read_config (mcap_base a + MCAP_CONTROL)), Call (Pci_read_config (mcap_base a + MCAP_STATUS)),
     Call (Pci_write_config (mcap_base a + MCAP_CONTROL) (?r OR (MCAP_CTRL_MODE_MASK OR MCAP_CTRL_IN_USE_MASK)))] a"
  have "\<forall>l. mcap_req ?a l \<longleftrightarrow> length l < length (alog ?a) + n" using assms by (simp add: numeral_3_eq_3)
  from request_loop_ends [OF this, of k] obtain es where
    es: "request_loop k ?a = (if n \<le> k then int k - int n else - 1, add_log es ?a)" by blast
  have q: "mcap_req a (alog a @ [e])" for e using assms by simp
  show ?thesis using es q
    by (simp add: MCapClearRequestByConfigure_def Let_def split_beta MCapRegRead_def MCapRegWrite_def call_log request_read EIO_def flip: k_def)
qed

lemma half_word_out: "length buf \<le> i + 1 \<Longrightarrow> half_word buf i = Inl OutOfBounds"
  by (auto simp: half_word_def array_get_def)

lemma data_words_out:
  assumes "length buf < 4 * (i + k)" "0 < k"
  shows "data_words k i buf a = Inl OutOfBounds"
  using assms
proof (induction k arbitrary: i a)
  case (Suc k)
  show ?case
  proof (cases "4 * i + 3 < length buf")
    case True
    then have "0 < k" by (rule_tac ccontr) (use Suc.prems(1) in simp)
    then show ?thesis using Suc.IH [of "Suc i"] Suc.prems(1) True by (simp add: be_word_in)
  next
    case False
    then have "be_word buf i = Inl OutOfBounds"
      using half_word_out [of buf "4 * i + 2"] half_word_in [of "4 * i" buf] half_word_out [of buf "4 * i"]
      by (cases "4 * i + 1 < length buf") (simp_all add: be_word_def)
    then show ?thesis by simp
  qed
qed simp

text \<open>
  C37: A header whose count of data bytes wraps around when the length of the header is added
  passes the test against the length of the file, although the file is shorter: the clearing
  bitstream is then read behind its end.
\<close>

theorem clear_mcap_reads_behind:
  assumes "m + 1 < 65536" "field_ok design" "field_ok part" "field_ok date" "field_ok time" "n < 2 ^ 32"
    and "\<forall>l n. (word_of_int (grants a l (Kmalloc n)) :: u64) \<noteq> 0"
    and whole: "file = header_bytes m design part date time n @ data" "length file < 2 ^ 32"
    and "2 ^ 32 \<le> length (header_bytes m design part date time n) + n" "length data < 4 * (n div 4)"
    and "clear_bitstream a = Some file" "clear_bitstream_length a = of_nat (length file)"
  shows "bitstream_clear_mcap a = Inl OutOfBounds"
proof -
  let ?hd = "header_bytes m design part date time n"
  obtain p q r t where ph: "bitstream_parse_header file zero_header a
    = Inr (0, zero_header\<lparr>HeaderLength := of_nat (length ?hd), BitstreamLength := of_nat n,
        DesignName := (p, design), PartName := (q, part), Date_name := (r, date), Time_name := (t, time), MagicLength := of_nat (m + 1)\<rparr>,
        add_log (map (\<lambda>s. Call (Kmalloc (length s))) [design, part, date, time]) a)"
    using parse_header_bytes [OF assms(1-7), of data zero_header] unfolding whole(1) by blast
  have hd: "length ?hd \<le> length file" using whole(1) by simp
  have u: "unat (of_nat n :: u32) = n" "unat (of_nat (length ?hd) :: u32) = length ?hd" "unat (of_nat (length file) :: u32) = length file"
    using assms(6) whole(2) hd by (simp_all add: unat_of_nat take_bit_nat_eq_self)
  have "unat (of_nat (length ?hd) + of_nat n :: u32) = (length ?hd + n) mod 2 ^ 32" by (simp add: unat_of_nat take_bit_eq_mod flip: of_nat_add)
  also have "\<dots> = length ?hd + n - 2 ^ 32" using assms(6,10) whole(2) hd by (simp add: le_mod_geq)
  also have "\<dots> \<le> length file" using assms(6) hd by simp
  finally have fits: "\<not> (of_nat (length file) :: u32) < of_nat (length ?hd) + of_nat n" using u(3) by (simp add: word_less_nat_alt)
  have k: "0 < n div 4" by (rule ccontr) (use assms(11) in simp)
  have "data_words (n div 4) 0 data a' = Inl OutOfBounds" for a'
    using data_words_out [of data 0 "n div 4" a'] assms(11) k by simp
  then show ?thesis using fits assms(12,13)
    by (simp add: bitstream_clear_mcap_def ph u bitstream_mcap_helper_def) (simp add: whole(1))
qed

subsection \<open>Concrete downloads\<close>

text \<open>A board with space for two words, and a file of two words.\<close>

definition sample_icap :: accel where
  "sample_icap = sample_accel\<lparr>ac_dev := (ac_dev sample_accel)\<lparr>dwld := idle_world\<lparr>w_dev := (\<lambda>_ r. if r = 0x30114 then 2 else if r = 0x30110 then 4 else 0)\<rparr>\<rparr>\<rparr>"

lemma sample_icap_ok: "user_at 0x10000 sample_icap" "grants sample_icap l c = 1" "icap_ready 0x10000 sample_icap"
  by (simp_all add: sample_icap_def sample_accel_def fresh_device_def no_dev_def array_get_def icap_ready_def user_at_def bar_ptr_def idle_world_def XHWICAP_WFV_def XHWICAP_CR_def XHWICAP_SR_def HWICAP_OFFSET_def)

definition sample_file :: "nat \<Rightarrow> u8 list \<Rightarrow> u8 list" where
  "sample_file n data = header_bytes 9 [1, 0] [2, 0] [3, 0] [4, 0] n @ data"

lemma sample_fields: "field_ok [1, 0]" "field_ok [2, 0]" "field_ok [3, 0]" "field_ok [4, 0]"
  by (simp_all add: field_ok_def)

lemma sample_kmalloc: "\<forall>l n. (word_of_int (grants sample_icap l (Kmalloc n)) :: u64) \<noteq> 0"
  by (simp add: sample_icap_ok)

theorem icap_downloads_words_witness:
  "\<exists>es. bitstream_icap (sample_file 8 [0xaa, 0x99, 0x55, 0x66, 0, 0, 0, 1]) 47 sample_icap = Inr (0, add_log es sample_icap)
    \<and> icap_words 0x10000 es = [0xaa995566, 1]"
proof -
  let ?d = "[0xaa, 0x99, 0x55, 0x66, 0, 0, 0, 1] :: u8 list"
  have l: "length (sample_file 8 ?d) = 47" by (simp add: sample_file_def header_length)
  have w: "map (word_at ?d) [0..<length ?d div 4] = [0xaa995566, 1]"
  proof -
    have "[0..<2] = [0, 1 :: nat]" by code_simp
    then show ?thesis by (simp add: word_at_def Let_def)
  qed
  have n: "length ?d = 8" by simp
  have "sample_file 8 ?d = header_bytes 9 [1, 0] [2, 0] [3, 0] [4, 0] (length ?d) @ ?d" unfolding n sample_file_def by (rule refl)
  from icap_downloads_words [OF _ sample_fields this _ sample_kmalloc sample_icap_ok(3)] show ?thesis unfolding w l by simp
qed

theorem accepted_header_is_exact_witness:
  "\<exists>h a'. bitstream_parse_header (sample_file 8 [7]) zero_header sample_icap = Inr (0, h, a') \<and> HeaderLength h = 39
     \<and> bitstream_parse_header (take 38 (sample_file 8 [7])) zero_header sample_icap = Inl OutOfBounds"
proof -
  have "\<exists>h a'. bitstream_parse_header (sample_file 8 [7]) zero_header sample_icap = Inr (0, h, a')
      \<and> length (bytes_of_header 0 h) = 39"
    using parse_header_bytes [OF _ sample_fields _ sample_kmalloc, of 9 8 "[7]" zero_header]
    unfolding sample_file_def by (auto simp: any_header_length header_length zero_header_def)
  then obtain h a' where h: "bitstream_parse_header (sample_file 8 [7]) zero_header sample_icap = Inr (0, h, a')"
    "length (bytes_of_header 0 h) = 39" by blast
  have l: "length (bytes_of_header z h) = 39" for z using h(2) by (simp add: any_header_length)
  show ?thesis using accepted_header_is_exact [OF h(1)] h(1) unfolding l by auto
qed

theorem mcap_clear_verdict_witness:
  "fst (MCapClearRequestByConfigure (sample_icap\<lparr>ac_dev := (ac_dev sample_icap)\<lparr>dwld := idle_world\<lparr>w_kern := (\<lambda>l _. if length l < 2000003 then - 1 else 0)\<rparr>\<rparr>\<rparr>)) = 0"
proof -
  let ?a = "sample_icap\<lparr>ac_dev := (ac_dev sample_icap)\<lparr>dwld := idle_world\<lparr>w_kern := (\<lambda>l _. if length l < 2000003 then - 1 else 0)\<rparr>\<rparr>\<rparr>"
  have m: "(- 1 :: u32) AND MCAP_STS_CFG_MCAP_REQ_MASK \<noteq> 0" by (simp add: MCAP_STS_CFG_MCAP_REQ_MASK_def)
  have "\<forall>l. mcap_req ?a l \<longleftrightarrow> length l < length (alog ?a) + 3 + 2000000"
    using m by (simp add: mcap_req_def idle_world_def)
  from mcap_clear_verdict [OF this] show ?thesis by (simp add: MCAP_LOOP_COUNT_def)
qed

theorem clear_mcap_reads_behind_witness:
  "bitstream_clear_mcap (sample_icap\<lparr>clear_bitstream := Some (sample_file 0xfffffff0 []), clear_bitstream_length := 39\<rparr>) = Inl OutOfBounds"
proof -
  let ?f = "sample_file 0xfffffff0 []" and ?a = "sample_icap\<lparr>clear_bitstream := Some (sample_file 0xfffffff0 []), clear_bitstream_length := 39\<rparr>"
  have l: "length ?f = 39" by (simp add: sample_file_def header_length)
  have k: "\<forall>l n. (word_of_int (grants ?a l (Kmalloc n)) :: u64) \<noteq> 0" using sample_kmalloc by simp
  have f: "?f = header_bytes 9 [1, 0] [2, 0] [3, 0] [4, 0] 0xfffffff0 @ []" by (simp add: sample_file_def)
  show ?thesis by (rule clear_mcap_reads_behind [OF _ sample_fields _ k f]) (simp_all add: l header_length)
qed

end
