(* ===== verification/Spec2Isabelle.thy ===== *)
theory Spec2Isabelle
  imports Xdma_Machine Xdma_Ioctl Xdma_Probe Camera_Tool Xdma_Ocl Xdma_Bitstream
begin

text \<open>
  A model of the XDMA PCIe DMA driver of this repository (driver_src/driver/ and
  driver_src/include/) and of the camera tool that uses it (software/) in Isabelle/HOL, with
  the theorems that make them correct and those that show where they are not.

  The program. A PCIe board with the XDMA core moves data between host memory and the
  board. The driver binds the board (\<open>probe\<close>), maps its BARs, finds up to four channels with
  an engine in each direction, and gives every engine a character device. A read or a write
  pins the user's pages, describes them by a chain of descriptors in host memory, queues the
  transfer on the engine and sleeps; the engine's interrupt retires what has completed and
  starts the engine on the rest. A streaming engine receives packets into a ring of pages
  instead, from a transfer that never ends. Other devices give access to the registers of a
  BAR, to user interrupts and to descriptors. The camera tool triggers an exposure through
  the mapped user BAR, reads the frame from a C2H engine and writes it to a video device.

  How the code is modelled. C integers are words of their width. A routine is a function on
  the state it is given, and returns the new state; a routine that the kernel would stop
  (a failed \<open>BUG_ON\<close>, a null pointer, an access out of bounds) returns the \<open>fault\<close>, and an
  error code is a number in the result, as in the code. The device and the kernel are
  functions of the log of what was done so far (\<open>w_dev\<close> for registers, \<open>w_kern\<close> for kernel
  services), so that a theorem holds for every board and every kernel, and what it needs of
  them is among its hypotheses. Pointers to transfers, engines and character devices are
  numbers that name entries of heaps, so that a use after free is a missing entry. A lock is
  a flag; taking a lock that is taken is a fault, as it would hang.

  The theories, in the order of the dependencies, with what the lemmas of each show:

  \<^item> \<open>Kernel_Prelude\<close>: faults and their sequencing, arrays, counted loops, word lemmas, and the
    two interfaces (locales) \<open>state_machine\<close> and \<open>fifo\<close>, interpreted in \<open>Xdma_Machine\<close>, the
    first also in \<open>Xdma_Ocl\<close>.
  \<^item> \<open>Kernel_World\<close>, \<open>Kernel_Ledger\<close>: the log of register accesses and kernel calls, and the
    balance of the resources a driver holds, read off the log.
  \<^item> \<open>Xdma_Regs\<close> (include/xdma-core.h): the register map, the interrupt controller and the
    identifiers of engines; the windows of the engines are disjoint.
  \<^item> \<open>Xdma_Desc\<close>: \<open>xdma_desc_alloc\<close> and the descriptor routines; an allocated array is one
    linked chain, and what is prefetched stays in a page.
  \<^item> \<open>Xdma_Sgm\<close> (driver/xdma-sgm.c): pinning user pages and walking vmalloc()ed ones; the
    buffer is covered exactly or everything is released.
  \<^item> \<open>Xdma_Transfer\<close>: \<open>transfer_build\<close>, \<open>transfer_create\<close> and \<open>transfer_destroy\<close>; the loop that
    merges pages into descriptors refines the list of bytes it stands for. The kernel may merge
    pages when it maps them; what that does to the length of a descriptor is stated.
  \<^item> \<open>Xdma_Engine\<close>, \<open>Xdma_Service\<close>: starting, stopping and queueing, and \<open>engine_service\<close>; the
    service retires exactly the completed prefix in the order of the queue (against the
    specification \<open>retire\<close>), and the error paths that go wrong; a start writes its registers in
    the right order and with the run bit.
  \<^item> \<open>Xdma_Ring\<close>: \<open>engine_ring_process\<close>, \<open>complete_cyclic\<close>, opening, closing and reading a
    receiver, and the polled monitor; packets are delivered whole, credits are returned.
  \<^item> \<open>Xdma_Machine\<close>: an engine as a machine whose steps (\<open>engine_step\<close>) are a queueing, an
    interrupt, an interrupted wait and the destruction of a transfer by its caller, in any
    order; without errors the queue never dangles and transfers complete in the order in
    which they were accepted, and a failed transfer breaks this.
  \<^item> \<open>Xdma_Data\<close>, \<open>Xdma_Ioctl\<close>: reading and writing through an engine's device, synchronous
    and asynchronous, and its ioctls; a request is moved piece by piece, each by a transfer that
    was queued and completed, or fails. The wait of a caller is a parameter.
  \<^item> \<open>Xdma_Device\<close>, \<open>Xdma_Setup\<close>: the device structure, the BARs, the interrupt handlers, the
    engines and the interrupt vectors; what is requested is released.
  \<^item> \<open>Xdma_Chardev\<close>, \<open>Xdma_Probe\<close>: the character devices, \<open>probe\<close> with its chain of labels,
    \<open>remove\<close> and the module; a probed and removed board leaves the balances as they were, with
    the exceptions that \<open>probe_remove_restores\<close> and \<open>probe_failure_account\<close> name, for every
    answer of the kernel.
  \<^item> \<open>Xdma_Ocl\<close> (driver/xdma-ioctl.c) and \<open>Xdma_Bitstream\<close> (driver/xdma-bit.c): the parts that
    are compiled with \<open>SD_ACCEL\<close> set (include/xdma-core.h sets it to 0): the gate, the clock
    and the resets of the accelerator, and the download of bitstreams; the gate's
    register is always left open, the header that is parsed is exactly the bytes it stands
    for, although the parser has no bound, and the words of a file reach the board.
  \<^item> \<open>Camera_Tool\<close> (software/v4l2_dma_camera.cpp): the copy loop is the cropping it is meant to
    be while the image fits, and it overruns its buffers with the sizes it is compiled with.

  Bounds and fuel. Loops over a counter are \<open>for_loop\<close> or recursions on it. A loop whose end
  depends on the device carries a number of rounds and returns the fault \<open>NoReturn\<close> when they
  are used up: the reader's loop over the ring gets one round more than the ring has slots
  (\<open>RX_BUF_PAGES\<close>), and \<open>complete_cyclic_returns\<close> shows that it always ends within them; the
  monitors that poll get the timeout of the code; the camera's wait for a frame, which has no
  bound in the code, gets an arbitrary number, and \<open>exposure_protocol\<close> shows that every
  number above the delay of the board is enough. The loop over the FIFO's vacancies ends by a
  measure, since every round writes a word, as do the loops over the pieces of a bitstream.

  Not modelled: routines that only print or dump registers; \<open>xdma_config\<close>, \<open>engine_initialize\<close>
  and \<open>engine_version\<close>, which are only called from code that is compiled out in every case; \<open>chain_transfers\<close> and the
  debugging switches, whose bodies are compiled out; \<open>rvmalloc\<close>, which is one kernel call here;
  delays, which change no state; the tables of function pointers; the tests and scripts. The
  calls of the bitstream loader from \<open>probe\<close>, compiled out as well, are left out of \<open>probe\<close>.
  \<open>interrupts_enable\<close>, called by \<open>reinit\<close>, is defined nowhere in the repository and is a
  parameter of the hot reset. Interrupts and requests interleave between the routines, as the
  locks of the code make them, and not inside a routine that holds a lock.
\<close>

end
